(* ===== verification/Prelude.thy ===== *)
theory Prelude
  imports Main "HOL-Library.Word" "HOL-Library.Sublist"
begin

text \<open>
  Shared ground of the development: the machine types of \<open>kernel/include/types.h\<close>, the
  named collections the component proofs draw on, and the generic lemmas on lists, functions
  and words that more than one component needs.
\<close>

unbundle bit_operations_syntax

section \<open>Machine types (kernel/include/types.h)\<close>

text \<open>\<open>uchar\<close>, \<open>ushort\<close> and \<open>uint\<close> keep their width, so that \<open>+\<close>, \<open>-\<close> and \<open>*\<close> wrap
  around as they do in C.\<close>

type_synonym uchar = "8 word"
type_synonym ushort = "16 word"
type_synonym uint = "32 word"

text \<open>One 512-byte disk block or buffer: the byte at each offset below \<open>BSIZE\<close>. A
  whole-block \<open>memmove\<close> of 512 bytes is then an assignment of the function.\<close>

type_synonym blk = "nat \<Rightarrow> uchar"

definition BSIZE :: nat where
  "BSIZE = 512"

section \<open>Collections\<close>

named_theorems wp \<open>total-correctness rules of the kernel operations\<close>
named_theorems layout \<open>equations that unfold the on-disk layout constants\<close>

declare BSIZE_def [layout]

section \<open>Lists and functions\<close>

lemma fun_upd_image_le: "(f(a := b)) ` A \<subseteq> insert b (f ` A)"
  by auto

lemma upt_split_at:
  assumes "i \<le> k" and "k < j"
  shows "[i..<j] = [i..<k] @ k # [Suc k..<j]"
  using assms upt_conv_Cons [of k j] upt_add_eq_append [of i k "j - k"]
  by (metis le_add_diff_inverse less_imp_le_nat)

lemma find_SomeD: "find P xs = Some x \<Longrightarrow> x \<in> set xs \<and> P x"
  by (induction xs) (auto split: if_splits)

lemma find_upt_Some_iff:
  "find P [0..<n] = Some i \<longleftrightarrow> i < n \<and> P i \<and> (\<forall>j<i. \<not> P j)"
  by (auto simp: find_Some_iff)

lemma find_upt_None_iff:
  "find P [0..<n] = None \<longleftrightarrow> (\<forall>i<n. \<not> P i)"
  by (auto simp: find_None_iff)

lemma find_append: "find P (xs @ ys) = (case find P xs of None \<Rightarrow> find P ys | Some x \<Rightarrow> Some x)"
  by (induction xs) auto

section \<open>Words\<close>

lemma unat_less_2p32 [simp]: "unat (w :: uint) < 4294967296"
  using unsigned_less [of w, where ?'a = nat] by simp

lemma unat_add_no_wrap:
  fixes a b :: uint
  assumes "unat a + unat b < 2 ^ 32"
  shows "unat (a + b) = unat a + unat b"
  using assms by (simp add: unat_word_ariths)

lemma add_wraps_iff:
  fixes a b :: uint
  shows "a + b < a \<longleftrightarrow> 2 ^ 32 \<le> unat a + unat b"
proof (cases "unat a + unat b < 2 ^ 32")
  case True
  then show ?thesis
    by (simp add: word_less_nat_alt unat_add_no_wrap)
next
  case False
  have b: "unat b < 4294967296" by simp
  have ge: "4294967296 \<le> unat a + unat b" using False by simp
  have "(unat a + unat b) mod 4294967296 = (unat a + unat b - 4294967296) mod 4294967296"
    using False by (simp add: le_mod_geq)
  also have "\<dots> < unat a"
    by (rule le_less_trans [OF mod_less_eq_dividend]) (use ge b in linarith)
  finally show ?thesis
    using False by (simp add: word_less_nat_alt unat_word_ariths)
qed

lemma sint_word32: "sint (w :: uint) = (if uint w < 2 ^ 31 then uint w else uint w - 2 ^ 32)"
proof -
  have b: "0 \<le> uint w" "uint w < 4294967296" using uint_lt2p [of w] by simp_all
  have s: "sint w = (uint w + 2147483648) mod 4294967296 - 2147483648"
    by (simp add: sint_uint signed_take_bit_eq_take_bit_shift take_bit_eq_mod)
  have "(uint w + 2147483648) mod 4294967296 = uint w + 2147483648" if "uint w < 2147483648"
    using that b by simp
  moreover have "(uint w + 2147483648) mod 4294967296 = uint w - 2147483648" if "\<not> uint w < 2147483648"
    using that b minus_mod_self2 [of "uint w + 2147483648" 4294967296, symmetric] by simp
  ultimately show ?thesis by (auto simp: s)
qed

lemma sint_unat:
  assumes "unat (w :: uint) < 2 ^ 31"
  shows "sint w = int (unat w)"
proof -
  have "int (unat w) < int (2 ^ 31)" using assms by (simp only: of_nat_less_iff)
  then show ?thesis by (simp add: sint_word32)
qed

lemma unat_word_of_int:
  assumes "0 \<le> n" and "n < 2 ^ 32"
  shows "unat (word_of_int n :: uint) = nat n"
proof -
  obtain k where k: "n = int k" using assms(1) nonneg_int_cases by blast
  then have "k < 2 ^ 32" using assms(2) by simp
  then show ?thesis by (simp add: k unat_of_nat take_bit_nat_eq_self)
qed

lemma uint_uminus32: "w \<noteq> 0 \<Longrightarrow> uint (- w :: uint) = 2 ^ 32 - uint w"
  using uint_lt2p [of w] by (simp add: uint_word_ariths(4) zmod_zminus1_eq_if uint_0_iff)

end
