(* ===== verification/Kernel_State.thy ===== *)
theory Kernel_State
  imports Prelude
begin

text \<open>
  The structures of the kernel's headers as records, the kernel's global variables as one
  record \<open>kernel\<close>, and the outcome monad in which the kernel's operations are written.

  Pointers into the fixed tables (\<open>bcache.buf\<close>, \<open>icache.inode\<close>, \<open>ftable.file\<close>,
  \<open>ptable.proc\<close>) are indices of type \<^typ>\<open>nat\<close>; a pointer that may be null is a
  \<^typ>\<open>nat option\<close>. An operation runs from its call to its return without interleaving (the
  critical sections are the subject of theory \<open>Spinlock\<close>, and the spinlock calls that bracket
  them are left out here). Where the source would block, the outcome says so: \<open>Sleeps\<close> carries the
  channel and the state at the call of \<open>sleep()\<close>, \<open>Exits\<close> the state at a call of \<open>exit()\<close>
  in the middle of an operation, \<open>Panic\<close> the message, and \<open>Faults\<close> stands for an access
  outside an array, which C leaves undefined.
\<close>

section \<open>Constants (kernel/include/param.h)\<close>

definition NPROC :: nat where "NPROC = 64"
definition NOFILE :: nat where "NOFILE = 16"
definition NFILE :: nat where "NFILE = 100"
definition NBUF :: nat where "NBUF = 10"
definition NINODE :: nat where "NINODE = 50"
definition NDEV :: int where "NDEV = 10"
definition ROOTDEV :: nat where "ROOTDEV = 1"
definition LOGSIZE :: nat where "LOGSIZE = 10"

section \<open>Sleep channels\<close>

text \<open>The addresses the kernel passes to \<open>sleep()\<close> and \<open>wakeup()\<close>: distinct objects have
  distinct addresses, so an address is named by the object it belongs to.\<close>

datatype chan =
    Chan_buf nat
  | Chan_inode nat
  | Chan_log
  | Chan_nread uint
  | Chan_nwrite uint
  | Chan_proc nat
  | Chan_ticks
  | Chan_input

section \<open>Structures\<close>

text \<open>\<open>struct buf\<close> (buf.h). The three bits of \<open>flags\<close> are three booleans; \<open>prev\<close> and
  \<open>next\<close> are indices, where \<open>NBUF\<close> stands for \<open>&bcache.head\<close>. The field \<open>qnext\<close> belongs to
  the IDE driver's queue, which the memory disk does not use.\<close>

record buf =
  b_busy :: bool
  b_valid :: bool
  b_dirty :: bool
  b_dev :: nat
  b_sector :: nat
  b_prev :: nat
  b_next :: nat
  b_data :: blk

text \<open>\<open>struct inode\<close> (file.h), \<open>flags\<close> as two booleans.\<close>

record inode =
  i_dev :: nat
  i_inum :: nat
  i_ref :: int
  i_busy :: bool
  i_valid :: bool
  i_uid :: int
  i_type :: ushort
  i_major :: ushort
  i_minor :: ushort
  i_nlink :: ushort
  i_size :: uint
  i_addrs :: "nat \<Rightarrow> uint"

text \<open>\<open>struct file\<close> (file.h).\<close>

datatype fdtype = FD_NONE | FD_PIPE | FD_INODE

record ofile =
  f_type :: fdtype
  f_ref :: int
  f_readable :: bool
  f_writable :: bool
  f_pipe :: uint
  f_ip :: nat
  f_off :: uint

text \<open>\<open>struct pipe\<close> (pipe.c). A pipe lives in a page of its own and is named by the page's
  address.\<close>

record pipe =
  pi_data :: blk
  pi_nread :: uint
  pi_nwrite :: uint
  pi_readopen :: bool
  pi_writeopen :: bool

text \<open>\<open>struct device_t\<close> (device.h). The function pointers are the read and write entries of the
  kernel's three drivers.\<close>

datatype driver = Drv_tty | Drv_null | Drv_zero

record device =
  d_enabled :: bool
  d_read :: "driver option"
  d_write :: "driver option"

text \<open>\<open>struct log\<close> and \<open>struct logheader\<close> (log.c).\<close>

record logst =
  l_start :: nat
  l_size :: nat
  l_busy :: bool
  l_dev :: nat
  l_n :: int
  l_sector :: "nat \<Rightarrow> nat"

text \<open>\<open>struct trapframe\<close> (x86.h) without its padding, and \<open>struct context\<close> (proc.h).\<close>

record trapframe =
  tf_edi :: uint
  tf_esi :: uint
  tf_ebp :: uint
  tf_oesp :: uint
  tf_ebx :: uint
  tf_edx :: uint
  tf_ecx :: uint
  tf_eax :: uint
  tf_gs :: ushort
  tf_fs :: ushort
  tf_es :: ushort
  tf_ds :: ushort
  tf_trapno :: uint
  tf_err :: uint
  tf_eip :: uint
  tf_cs :: ushort
  tf_eflags :: uint
  tf_esp :: uint
  tf_ss :: ushort

record ctxt =
  cx_edi :: uint
  cx_esi :: uint
  cx_ebx :: uint
  cx_ebp :: uint
  cx_eip :: uint

text \<open>\<open>struct proc\<close> and \<open>enum procstate\<close> (proc.h). The trap frame and the saved context,
  which the code keeps on the process's kernel stack, are fields of their own.\<close>

datatype procstate = UNUSED | EMBRYO | SLEEPING | RUNNABLE | RUNNING | ZOMBIE

record proc =
  p_sz :: uint
  p_pgdir :: uint
  p_kstack :: uint
  p_state :: procstate
  p_pid :: int
  p_parent :: "nat option"
  p_tf :: trapframe
  p_context :: ctxt
  p_chan :: "chan option"
  p_killed :: bool
  p_ofile :: "nat \<Rightarrow> nat option"
  p_cwd :: "nat option"
  p_name :: "uchar list"
  p_uid :: int

text \<open>\<open>struct { ... } input\<close> (tty.c) and the output devices of the console: the CGA text memory
  and its cursor register, the serial port and what has been sent to it.\<close>

record inputst =
  in_buf :: blk
  in_r :: uint
  in_w :: uint
  in_e :: uint

record consst =
  con_panicked :: bool
  con_crt :: "nat \<Rightarrow> ushort"
  con_pos :: ushort
  con_uart :: bool
  con_uart_out :: "uchar list"

text \<open>\<open>struct { ... } kmem\<close> (kalloc.c) with the memory it manages, by kernel virtual address. The
  linker defines the symbols \<open>end\<close> and \<open>data\<close>: they are \<open>km_end\<close> and \<open>km_data\<close>, which no
  operation changes.\<close>

record kmemst =
  km_mem :: "uint \<Rightarrow> uchar"
  km_use_lock :: bool
  km_freelist :: uint
  km_end :: uint
  km_data :: uint

text \<open>
  The global variables. \<open>memdisk\<close> and \<open>disksize\<close> are those of memdisk.c; \<open>wtrace\<close> records,
  oldest first, the sector writes that \<open>memiderw\<close> has made, and is read by no operation: it lets
  a theorem speak of the disk at a crash in the middle of an operation. \<open>bufs\<close> holds
  \<open>bcache.buf\<close> at the indices below \<open>NBUF\<close> and \<open>bcache.head\<close> at \<open>NBUF\<close>; \<open>cur\<close> is the
  per-CPU \<open>proc\<close> and \<open>cr3\<close> the page directory register. \<open>forkret_first\<close>, \<open>kbd_shift\<close> and
  \<open>led_status\<close> are the static variables \<open>first\<close> (proc.c), \<open>shift\<close> and \<open>led_status\<close> (kbd.c);
  \<open>forkret_addr\<close> is the address the linker gives to \<open>forkret\<close>.
\<close>

record kernel =
  memdisk :: "nat \<Rightarrow> blk"
  disksize :: nat
  wtrace :: "(nat \<times> blk) list"
  bufs :: "nat \<Rightarrow> buf"
  logs :: logst
  inodes :: "nat \<Rightarrow> inode"
  files :: "nat \<Rightarrow> ofile"
  devs :: "nat \<Rightarrow> device"
  pipes :: "uint \<Rightarrow> pipe"
  procs :: "nat \<Rightarrow> proc"
  cur :: "nat option"
  initproc :: "nat option"
  current_proc :: "nat option"
  nextpid :: int
  kmem :: kmemst
  ticks :: uint
  input :: inputst
  cons :: consst
  hostname :: blk
  hostname_len :: uint
  kpgdir :: uint
  cr3 :: uint
  forkret_first :: bool
  forkret_addr :: uint
  kbd_shift :: uint
  led_status :: uchar

section \<open>Outcomes\<close>

datatype 'a outcome =
    Ok 'a kernel
  | Panic string
  | Sleeps chan kernel
  | Exits kernel
  | Faults string

type_synonym 'a km = "kernel \<Rightarrow> 'a outcome"

definition returnK :: "'a \<Rightarrow> 'a km" where
  "returnK x = (\<lambda>s. Ok x s)"

definition bindK :: "'a km \<Rightarrow> ('a \<Rightarrow> 'b km) \<Rightarrow> 'b km" where
  "bindK m f = (\<lambda>s. case m s of
      Ok x s' \<Rightarrow> f x s'
    | Panic e \<Rightarrow> Panic e
    | Sleeps c s' \<Rightarrow> Sleeps c s'
    | Exits s' \<Rightarrow> Exits s'
    | Faults e \<Rightarrow> Faults e)"

definition getsK :: "(kernel \<Rightarrow> 'a) \<Rightarrow> 'a km" where
  "getsK f = (\<lambda>s. Ok (f s) s)"

definition modifyK :: "(kernel \<Rightarrow> kernel) \<Rightarrow> unit km" where
  "modifyK f = (\<lambda>s. Ok () (f s))"

definition panicK :: "string \<Rightarrow> 'a km" where
  "panicK msg = (\<lambda>s. Panic msg)"

definition faultK :: "string \<Rightarrow> 'a km" where
  "faultK msg = (\<lambda>s. Faults msg)"

definition whenK :: "bool \<Rightarrow> unit km \<Rightarrow> unit km" where
  "whenK c m = (if c then m else returnK ())"

lemma monad_simps [simp]:
  "returnK x s = Ok x s"
  "getsK f s = Ok (f s) s"
  "modifyK g s = Ok () (g s)"
  "panicK msg s = Panic msg"
  "faultK msg s = Faults msg"
  "whenK True m = m"
  "whenK False m = returnK ()"
  by (simp_all add: returnK_def getsK_def modifyK_def panicK_def faultK_def
      whenK_def)

lemma bindK_simps [simp]:
  "m s = Ok x t \<Longrightarrow> bindK m f s = f x t"
  "m s = Panic e \<Longrightarrow> bindK m f s = Panic e"
  "m s = Sleeps c t \<Longrightarrow> bindK m f s = Sleeps c t"
  "m s = Exits t \<Longrightarrow> bindK m f s = Exits t"
  "m s = Faults e \<Longrightarrow> bindK m f s = Faults e"
  by (simp_all add: bindK_def)

lemma bindK_pure [simp]:
  "bindK (returnK x) f s = f x s"
  "bindK (getsK h) f s = f (h s) s"
  "bindK (modifyK g) f s = f () (g s)"
  "bindK (panicK e) f s = Panic e"
  "bindK (faultK e) f s = Faults e"
  by (simp_all add: bindK_def)

lemma bindK_Ok_iff:
  "bindK m f s = Ok y t \<longleftrightarrow> (\<exists>x s'. m s = Ok x s' \<and> f x s' = Ok y t)"
  by (cases "m s") (simp_all add: bindK_def)

lemma bindK_assoc: "bindK (bindK m f) g = bindK m (\<lambda>x. bindK (f x) g)"
  by (rule ext) (simp add: bindK_def split: outcome.split)

text \<open>A counting loop, \<open>for(i = 0; i < n; i++) body(i)\<close>, over the list of its indices.\<close>

primrec forK :: "nat list \<Rightarrow> (nat \<Rightarrow> unit km) \<Rightarrow> unit km" where
  "forK [] body = returnK ()"
| "forK (i # is) body = bindK (body i) (\<lambda>_. forK is body)"

lemma forK_append: "forK (is @ js) body = bindK (forK is body) (\<lambda>_. forK js body)"
proof (induction "is")
  case Nil
  show ?case by (rule ext) simp
next
  case (Cons i "is")
  then show ?case by (simp add: bindK_assoc)
qed

section \<open>Total correctness\<close>

text \<open>\<open>hoare P m Q\<close>: from every state in \<open>P\<close> the operation \<open>m\<close> returns (it does not panic,
  sleep or exit), with a result and a state in \<open>Q\<close>.\<close>

definition hoare :: "(kernel \<Rightarrow> bool) \<Rightarrow> 'a km \<Rightarrow> ('a \<Rightarrow> kernel \<Rightarrow> bool) \<Rightarrow> bool" where
  "hoare P m Q \<longleftrightarrow> (\<forall>s. P s \<longrightarrow> (\<exists>x t. m s = Ok x t \<and> Q x t))"

lemma hoareI: "(\<And>s. P s \<Longrightarrow> \<exists>x t. m s = Ok x t \<and> Q x t) \<Longrightarrow> hoare P m Q"
  by (simp add: hoare_def)

lemma hoareE:
  assumes "hoare P m Q" and "P s"
  obtains x t where "m s = Ok x t" and "Q x t"
  using assms by (auto simp: hoare_def)

lemma hoare_weaken:
  assumes "hoare P m Q" and "\<And>s. P' s \<Longrightarrow> P s" and "\<And>x t. Q x t \<Longrightarrow> Q' x t"
  shows "hoare P' m Q'"
proof (rule hoareI)
  fix s
  assume "P' s"
  with assms(1,2) obtain x t where "m s = Ok x t" "Q x t" by (blast elim: hoareE)
  with assms(3) show "\<exists>x t. m s = Ok x t \<and> Q' x t" by blast
qed

lemma hoare_pre: "hoare P m Q \<Longrightarrow> (\<And>s. P' s \<Longrightarrow> P s) \<Longrightarrow> hoare P' m Q"
  by (rule hoare_weaken)

lemma hoare_post: "hoare P m Q \<Longrightarrow> (\<And>x t. Q x t \<Longrightarrow> Q' x t) \<Longrightarrow> hoare P m Q'"
  by (rule hoare_weaken)

lemma hoare_bind:
  assumes "hoare P m R" and "\<And>x. hoare (R x) (f x) Q"
  shows "hoare P (bindK m f) Q"
proof (rule hoareI)
  fix s
  assume "P s"
  with assms(1) obtain x t where xt: "m s = Ok x t" "R x t" by (rule hoareE)
  from assms(2) [of x] xt(2) obtain y u where "f x t = Ok y u" "Q y u" by (rule hoareE)
  with xt(1) show "\<exists>y u. bindK m f s = Ok y u \<and> Q y u" by simp
qed

lemma hoare_for:
  assumes "\<And>i. i < n \<Longrightarrow> hoare (P i) (body i) (\<lambda>_. P (Suc i))"
  shows "hoare (P 0) (forK [0..<n] body) (\<lambda>_. P n)"
  using assms
proof (induction n)
  case (Suc n)
  have "hoare (P 0) (forK [0..<n] body) (\<lambda>_. P n)" using Suc by simp
  moreover have "hoare (P n) (forK [n] body) (\<lambda>_. P (Suc n))"
    using Suc.prems [of n] by (auto simp: hoare_def bindK_def split: outcome.split)
  ultimately show ?case by (simp only: forK_append upt_Suc_append le0 hoare_bind)
qed (simp add: hoare_def)

lemma bindK_returnK: "bindK m returnK = m"
  by (rule ext) (simp add: bindK_def returnK_def split: outcome.split)

lemma hoare_last: "hoare P (bindK m returnK) Q \<Longrightarrow> hoare P m Q"
  by (simp add: bindK_returnK)

lemma bindK_returnK_left: "bindK (returnK x) f = f x"
  by (rule ext) simp

lemma hoare_bind_when:
  assumes "c \<Longrightarrow> hoare P (bindK m f) Q" and "\<not> c \<Longrightarrow> hoare P (f ()) Q"
  shows "hoare P (bindK (whenK c m) f) Q"
  using assms by (cases c) (simp_all add: whenK_def bindK_returnK_left)

lemma hoare_return [wp]: "hoare (Q x) (returnK x) Q"
  by (simp add: hoare_def)

lemma hoare_gets [wp]: "hoare (\<lambda>s. Q (f s) s) (getsK f) Q"
  by (simp add: hoare_def)

lemma hoare_modify [wp]: "hoare (\<lambda>s. Q () (f s)) (modifyK f) Q"
  by (simp add: hoare_def)

lemma hoare_if:
  assumes "c \<Longrightarrow> hoare P m Q" and "\<not> c \<Longrightarrow> hoare P m' Q"
  shows "hoare P (if c then m else m') Q"
  using assms by simp

section \<open>Waking processes (kernel/proc.c)\<close>

text \<open>\<open>wakeup1\<close> makes every process that sleeps on the channel runnable, in a loop over the
  process table; \<open>wakeup\<close> does it under \<open>ptable.lock\<close>. They stand here because every component
  below calls \<open>wakeup\<close>.\<close>

definition wakeup1 :: "chan option \<Rightarrow> kernel \<Rightarrow> kernel" where
  "wakeup1 c s = s\<lparr>procs := (\<lambda>p.
     if p < NPROC \<and> p_state (procs s p) = SLEEPING \<and> p_chan (procs s p) = c
     then (procs s p)\<lparr>p_state := RUNNABLE\<rparr> else procs s p)\<rparr>"

definition wakeup :: "chan \<Rightarrow> kernel \<Rightarrow> kernel" where
  "wakeup c s = wakeup1 (Some c) s"

text \<open>What \<open>wakeup\<close> leaves alone: everything but the scheduling state of the processes.\<close>

lemma wakeup_frame [simp]:
  "memdisk (wakeup c s) = memdisk s"
  "disksize (wakeup c s) = disksize s"
  "wtrace (wakeup c s) = wtrace s"
  "bufs (wakeup c s) = bufs s"
  "logs (wakeup c s) = logs s"
  "inodes (wakeup c s) = inodes s"
  "files (wakeup c s) = files s"
  "devs (wakeup c s) = devs s"
  "pipes (wakeup c s) = pipes s"
  "cur (wakeup c s) = cur s"
  "initproc (wakeup c s) = initproc s"
  "current_proc (wakeup c s) = current_proc s"
  "nextpid (wakeup c s) = nextpid s"
  "kmem (wakeup c s) = kmem s"
  "ticks (wakeup c s) = ticks s"
  "input (wakeup c s) = input s"
  "cons (wakeup c s) = cons s"
  "hostname (wakeup c s) = hostname s"
  "hostname_len (wakeup c s) = hostname_len s"
  "kpgdir (wakeup c s) = kpgdir s"
  "cr3 (wakeup c s) = cr3 s"
  "forkret_first (wakeup c s) = forkret_first s"
  "forkret_addr (wakeup c s) = forkret_addr s"
  "kbd_shift (wakeup c s) = kbd_shift s"
  "led_status (wakeup c s) = led_status s"
  by (simp_all add: wakeup_def wakeup1_def)

text \<open>The process table up to scheduling state.\<close>

definition procs_data :: "kernel \<Rightarrow> nat \<Rightarrow> proc" where
  "procs_data s = (\<lambda>p. (procs s p)\<lparr>p_state := UNUSED\<rparr>)"

lemma procs_data_wakeup [simp]: "procs_data (wakeup c s) = procs_data s"
  by (rule ext) (simp add: procs_data_def wakeup_def wakeup1_def)

section \<open>The kernel's memory at boot\<close>

text \<open>The globals before any initialisation, when the loader has cleared the BSS segment. The
  only initialised ones are \<open>nextpid = 1\<close> and \<open>first = 1\<close> (proc.c) and the host name, which is left to
  \<open>sethostname\<close>.\<close>

definition zero_buf :: buf where
  "zero_buf = \<lparr>b_busy = False, b_valid = False, b_dirty = False, b_dev = 0, b_sector = 0,
               b_prev = 0, b_next = 0, b_data = (\<lambda>_. 0)\<rparr>"

definition zero_inode :: inode where
  "zero_inode = \<lparr>i_dev = 0, i_inum = 0, i_ref = 0, i_busy = False, i_valid = False, i_uid = 0,
                 i_type = 0, i_major = 0, i_minor = 0, i_nlink = 0, i_size = 0, i_addrs = (\<lambda>_. 0)\<rparr>"

definition zero_file :: ofile where
  "zero_file = \<lparr>f_type = FD_NONE, f_ref = 0, f_readable = False, f_writable = False, f_pipe = 0,
                f_ip = 0, f_off = 0\<rparr>"

definition zero_log :: logst where
  "zero_log = \<lparr>l_start = 0, l_size = 0, l_busy = False, l_dev = 0, l_n = 0, l_sector = (\<lambda>_. 0)\<rparr>"

definition zero_tf :: trapframe where
  "zero_tf = \<lparr>tf_edi = 0, tf_esi = 0, tf_ebp = 0, tf_oesp = 0, tf_ebx = 0, tf_edx = 0, tf_ecx = 0,
              tf_eax = 0, tf_gs = 0, tf_fs = 0, tf_es = 0, tf_ds = 0, tf_trapno = 0, tf_err = 0,
              tf_eip = 0, tf_cs = 0, tf_eflags = 0, tf_esp = 0, tf_ss = 0\<rparr>"

definition zero_ctxt :: ctxt where
  "zero_ctxt = \<lparr>cx_edi = 0, cx_esi = 0, cx_ebx = 0, cx_ebp = 0, cx_eip = 0\<rparr>"

definition zero_proc :: proc where
  "zero_proc = \<lparr>p_sz = 0, p_pgdir = 0, p_kstack = 0, p_state = UNUSED, p_pid = 0, p_parent = None,
                p_tf = zero_tf, p_context = zero_ctxt, p_chan = None, p_killed = False,
                p_ofile = (\<lambda>_. None), p_cwd = None, p_name = [], p_uid = 0\<rparr>"

definition zero_pipe :: pipe where
  "zero_pipe = \<lparr>pi_data = (\<lambda>_. 0), pi_nread = 0, pi_nwrite = 0, pi_readopen = False,
                pi_writeopen = False\<rparr>"

definition zero_kernel :: kernel where
  "zero_kernel =
     \<lparr>memdisk = (\<lambda>_ _. 0), disksize = 0, wtrace = [], bufs = (\<lambda>_. zero_buf), logs = zero_log,
      inodes = (\<lambda>_. zero_inode), files = (\<lambda>_. zero_file),
      devs = (\<lambda>_. \<lparr>d_enabled = False, d_read = None, d_write = None\<rparr>), pipes = (\<lambda>_. zero_pipe),
      procs = (\<lambda>_. zero_proc), cur = None, initproc = None, current_proc = None, nextpid = 1,
      kmem = \<lparr>km_mem = (\<lambda>_. 0), km_use_lock = False, km_freelist = 0, km_end = 0, km_data = 0\<rparr>, ticks = 0,
      input = \<lparr>in_buf = (\<lambda>_. 0), in_r = 0, in_w = 0, in_e = 0\<rparr>,
      cons = \<lparr>con_panicked = False, con_crt = (\<lambda>_. 0), con_pos = 0, con_uart = False, con_uart_out = []\<rparr>,
      hostname = (\<lambda>_. 0), hostname_len = 0, kpgdir = 0, cr3 = 0,
      forkret_first = True, forkret_addr = 0, kbd_shift = 0, led_status = 0\<rparr>"

end
