(* ===== verification/Cstring.thy ===== *)
theory Cstring
  imports Prelude
begin

text \<open>
  The memory and string routines of kernel/string.c. Memory is a function from 32-bit addresses
  to bytes; a routine that writes returns the memory it leaves. The loops run on the count, which
  is at most \<open>2^32\<close>; \<open>strlen\<close>, which has no count, is a partial function.
\<close>

type_synonym mem = "uint \<Rightarrow> uchar"

section \<open>Words in memory\<close>

definition load32 :: "mem \<Rightarrow> uint \<Rightarrow> uint" where
  "load32 m a = ucast (m a) OR push_bit 8 (ucast (m (a + 1))) OR
     push_bit 16 (ucast (m (a + 2))) OR push_bit 24 (ucast (m (a + 3)))"

definition store32 :: "mem \<Rightarrow> uint \<Rightarrow> uint \<Rightarrow> mem" where
  "store32 m a v = m(a := ucast v, a + 1 := ucast (drop_bit 8 v),
     a + 2 := ucast (drop_bit 16 v), a + 3 := ucast (drop_bit 24 v))"

lemma word_split_bytes:
  "(ucast (ucast (v :: uint) :: uchar) :: uint) OR push_bit 8 (ucast (ucast (drop_bit 8 v) :: uchar)) OR
   push_bit 16 (ucast (ucast (drop_bit 16 v) :: uchar)) OR push_bit 24 (ucast (ucast (drop_bit 24 v) :: uchar)) = v"
proof (rule bit_word_eqI)
  fix i
  assume "i < LENGTH(32)"
  then consider "i < 8" | "8 \<le> i" "i < 16" | "16 \<le> i" "i < 24" | "24 \<le> i" "i < 32" by force
  then show "bit ((ucast (ucast v :: uchar) :: uint) OR push_bit 8 (ucast (ucast (drop_bit 8 v) :: uchar)) OR
   push_bit 16 (ucast (ucast (drop_bit 16 v) :: uchar)) OR
   push_bit 24 (ucast (ucast (drop_bit 24 v) :: uchar))) i = bit v i"
    by cases (auto simp: bit_simps)
qed

lemma load32_store32 [simp]: "load32 (store32 m a v) a = v"
  by (simp add: load32_def store32_def word_split_bytes)

lemma store32_other: "unat (x - a) \<ge> 4 \<Longrightarrow> store32 m a v x = m x"
  by (auto simp: store32_def)

section \<open>Operations\<close>

text \<open>\<open>stosb\<close> and \<open>stosl\<close> (x86.h), the string store instructions.\<close>

primrec stosb :: "mem \<Rightarrow> uint \<Rightarrow> uchar \<Rightarrow> nat \<Rightarrow> mem" where
  "stosb m a c 0 = m"
| "stosb m a c (Suc n) = stosb (m(a := c)) (a + 1) c n"

primrec stosl :: "mem \<Rightarrow> uint \<Rightarrow> uint \<Rightarrow> nat \<Rightarrow> mem" where
  "stosl m a w 0 = m"
| "stosl m a w (Suc n) = stosl (store32 m a w) (a + 4) w n"

definition memset :: "mem \<Rightarrow> uint \<Rightarrow> uint \<Rightarrow> uint \<Rightarrow> mem" where
  "memset m dst c n =
     (if dst mod 4 = 0 \<and> n mod 4 = 0
      then let c = c AND 255
           in stosl m dst (push_bit 24 c OR push_bit 16 c OR push_bit 8 c OR c) (unat n div 4)
      else stosb m dst (ucast c) (unat n))"

primrec memchr_loop :: "mem \<Rightarrow> uint \<Rightarrow> uchar \<Rightarrow> nat \<Rightarrow> uint option" where
  "memchr_loop m p c 0 = None"
| "memchr_loop m p c (Suc n) = (if m p = c then Some p else memchr_loop m (p + 1) c n)"

definition memchr :: "mem \<Rightarrow> uint \<Rightarrow> uint \<Rightarrow> uint \<Rightarrow> uint option" where
  "memchr m s c n = memchr_loop m s (ucast c) (unat n)"

primrec memcmp_loop :: "mem \<Rightarrow> uint \<Rightarrow> uint \<Rightarrow> nat \<Rightarrow> int" where
  "memcmp_loop m s1 s2 0 = 0"
| "memcmp_loop m s1 s2 (Suc n) =
     (if m s1 \<noteq> m s2 then uint (m s1) - uint (m s2) else memcmp_loop m (s1 + 1) (s2 + 1) n)"

definition memcmp :: "mem \<Rightarrow> uint \<Rightarrow> uint \<Rightarrow> uint \<Rightarrow> int" where
  "memcmp m v1 v2 n = memcmp_loop m v1 v2 (unat n)"

text \<open>The two loops of \<open>memmove\<close>: \<open>*--d = *--s\<close> and \<open>*d++ = *s++\<close>.\<close>

primrec copy_down :: "mem \<Rightarrow> uint \<Rightarrow> uint \<Rightarrow> nat \<Rightarrow> mem" where
  "copy_down m d s 0 = m"
| "copy_down m d s (Suc n) = copy_down (m(d - 1 := m (s - 1))) (d - 1) (s - 1) n"

primrec copy_up :: "mem \<Rightarrow> uint \<Rightarrow> uint \<Rightarrow> nat \<Rightarrow> mem" where
  "copy_up m d s 0 = m"
| "copy_up m d s (Suc n) = copy_up (m(d := m s)) (d + 1) (s + 1) n"

definition memmove :: "mem \<Rightarrow> uint \<Rightarrow> uint \<Rightarrow> uint \<Rightarrow> mem" where
  "memmove m dst src n =
     (if src < dst \<and> src + n > dst then copy_down m (dst + n) (src + n) (unat n)
      else copy_up m dst src (unat n))"

definition memcpy :: "mem \<Rightarrow> uint \<Rightarrow> uint \<Rightarrow> uint \<Rightarrow> mem" where
  "memcpy m dst src n = memmove m dst src n"

primrec strncmp_loop :: "mem \<Rightarrow> uint \<Rightarrow> uint \<Rightarrow> nat \<Rightarrow> int" where
  "strncmp_loop m p q 0 = 0"
| "strncmp_loop m p q (Suc n) =
     (if m p \<noteq> 0 \<and> m p = m q then strncmp_loop m (p + 1) (q + 1) n
      else uint (m p) - uint (m q))"

definition strncmp :: "mem \<Rightarrow> uint \<Rightarrow> uint \<Rightarrow> uint \<Rightarrow> int" where
  "strncmp m p q n = strncmp_loop m p q (unat n)"

text \<open>\<open>strncpy\<close>: copy up to and including the NUL, then fill with zeros.\<close>

primrec strncpy_loop :: "mem \<Rightarrow> uint \<Rightarrow> uint \<Rightarrow> nat \<Rightarrow> mem" where
  "strncpy_loop m s t 0 = m"
| "strncpy_loop m s t (Suc n) =
     (if m t \<noteq> 0 then strncpy_loop (m(s := m t)) (s + 1) (t + 1) n
      else stosb (m(s := m t)) (s + 1) 0 n)"

definition strncpy :: "mem \<Rightarrow> uint \<Rightarrow> uint \<Rightarrow> int \<Rightarrow> mem" where
  "strncpy m s t n = strncpy_loop m s t (nat n)"

primrec safestrcpy_loop :: "mem \<Rightarrow> uint \<Rightarrow> uint \<Rightarrow> nat \<Rightarrow> mem" where
  "safestrcpy_loop m s t 0 = m(s := 0)"
| "safestrcpy_loop m s t (Suc n) =
     (if m t \<noteq> 0 then safestrcpy_loop (m(s := m t)) (s + 1) (t + 1) n
      else (m(s := m t))(s + 1 := 0))"

definition safestrcpy :: "mem \<Rightarrow> uint \<Rightarrow> uint \<Rightarrow> int \<Rightarrow> mem" where
  "safestrcpy m s t n = (if n \<le> 0 then m else safestrcpy_loop m s t (nat (n - 1)))"

partial_function (option) strlen_loop :: "mem \<Rightarrow> uint \<Rightarrow> nat \<Rightarrow> nat option" where
  "strlen_loop m s n = (if m (s + of_nat n) = 0 then Some n else strlen_loop m s (n + 1))"

definition strlen :: "mem \<Rightarrow> uint \<Rightarrow> nat option" where
  "strlen m s = strlen_loop m s 0"

section \<open>memset\<close>

text \<open>The byte filler as a function of the address: \<open>x - a\<close> is the offset of \<open>x\<close> in the
  buffer, modulo \<open>2^32\<close>.\<close>

lemma offset_Suc: "(unat (x - (a :: uint)) < Suc n) \<longleftrightarrow> x = a \<or> (x \<noteq> a \<and> unat (x - (a + 1)) < n)"
proof (cases "x = a")
  case False
  then have "x - a \<noteq> 0" by simp
  then have "unat (x - a - 1) = unat (x - a) - 1" "0 < unat (x - a)"
    by (simp_all add: unat_minus_one unat_gt_0)
  then show ?thesis using False by (simp add: diff_diff_eq) linarith
qed simp

lemma stosb_eq:
  assumes "n < 2 ^ 32"
  shows "stosb m a c n x = (if unat (x - a) < n then c else m x)"
  using assms
proof (induction n arbitrary: m a)
  case (Suc n)
  have "unat (a - (a + 1)) = 4294967295" by (simp add: unsigned_minus_1_eq_mask mask_eq_exp_minus_1)
  with Suc show ?case using offset_Suc [of x a n] by auto
qed simp

lemma stosb_add: "stosb m a c (n + k) = stosb (stosb m a c n) (a + of_nat n) c k"
  by (induction n arbitrary: m a) (simp_all add: ac_simps)

text \<open>The word with the byte \<open>c\<close> four times.\<close>

definition quad :: "uint \<Rightarrow> uint" where
  "quad c = (let c = c AND 255 in push_bit 24 c OR push_bit 16 c OR push_bit 8 c OR c)"

lemma quad_bytes:
  "(ucast (quad c) :: uchar) = ucast c" "(ucast (drop_bit 8 (quad c)) :: uchar) = ucast c"
  "(ucast (drop_bit 16 (quad c)) :: uchar) = ucast c" "(ucast (drop_bit 24 (quad c)) :: uchar) = ucast c"
proof -
  define w where "w = c AND 255"
  have q: "quad c = push_bit 24 w OR push_bit 16 w OR push_bit 8 w OR w"
    by (simp add: quad_def Let_def w_def)
  have "c AND 255 = take_bit 8 c" by (simp add: take_bit_eq_mask mask_eq_exp_minus_1)
  then have w: "bit w i \<longleftrightarrow> i < 8 \<and> bit c i" for i by (simp add: w_def bit_take_bit_iff)
  have b: "bit (quad c) i \<longleftrightarrow> i < 32 \<and> bit c (i mod 8)" for i
  proof -
    have md: "i < 8 \<Longrightarrow> i mod 8 = i" "8 \<le> i \<Longrightarrow> i < 16 \<Longrightarrow> i mod 8 = i - 8"
      "16 \<le> i \<Longrightarrow> i < 24 \<Longrightarrow> i mod 8 = i - 16" "24 \<le> i \<Longrightarrow> i < 32 \<Longrightarrow> i mod 8 = i - 24"
      by presburger+
    consider "i < 8" | "8 \<le> i" "i < 16" | "16 \<le> i" "i < 24" | "24 \<le> i" "i < 32" | "32 \<le> i" by force
    then show ?thesis by cases (auto simp: q w bit_simps md)
  qed
  have s: "(8 + i) mod 8 = i" "(16 + i) mod 8 = i" "(24 + i) mod 8 = i" if "i < 8" for i :: nat
    using that by presburger+
  show "(ucast (quad c) :: uchar) = ucast c" "(ucast (drop_bit 8 (quad c)) :: uchar) = ucast c"
    "(ucast (drop_bit 16 (quad c)) :: uchar) = ucast c" "(ucast (drop_bit 24 (quad c)) :: uchar) = ucast c"
    by (rule bit_word_eqI, simp add: bit_simps b s)+
qed

lemma store32_quad: "store32 m a (quad c) = stosb m a (ucast c) 4"
proof -
  have four: "(4 :: nat) = Suc (Suc (Suc (Suc 0)))" by simp
  show ?thesis unfolding four stosb.simps store32_def quad_bytes by (simp add: ac_simps)
qed

lemma stosl_quad: "stosl m a (quad c) n = stosb m a (ucast c) (4 * n)"
proof (induction n arbitrary: m a)
  case (Suc n)
  have "4 * Suc n = 4 + 4 * n" by simp
  with Suc show ?case by (simp add: store32_quad stosb_add del: mult_Suc_right)
qed simp

lemma memset_stosb: "memset m dst c n = stosb m dst (ucast c) (unat n)"
proof (cases "dst mod 4 = 0 \<and> n mod 4 = 0")
  case True
  then have "unat (n mod 4) = 0" by simp
  then have "unat n mod 4 = 0" by (simp add: unat_mod_distrib)
  then have "4 * (unat n div 4) = unat n" by presburger
  with True stosl_quad [of m dst c "unat n div 4"] show ?thesis
    by (simp add: memset_def quad_def Let_def)
next
  case False
  then show ?thesis by (auto simp: memset_def)
qed

section \<open>memmove\<close>

lemma offset_shift: "unat (x - (a :: uint)) \<noteq> 0 \<Longrightarrow> unat (x - (a + 1)) = unat (x - a) - 1"
  by (metis diff_diff_eq unat_eq_zero unat_minus_one)

text \<open>Each loop is right when the destination does not run into the part of the source that is
  still to be copied.\<close>

lemma copy_up_eq:
  assumes "n < 2 ^ 32" and "d = s \<or> n \<le> unat (d - s)"
  shows "copy_up m d s n x = (if unat (x - d) < n then m (x - d + s) else m x)"
  using assms
proof (induction n arbitrary: m d s)
  case (Suc n)
  have c: "n < 2 ^ 32" "d + 1 = s + 1 \<or> n \<le> unat ((d + 1) - (s + 1))" using Suc.prems by auto
  have src: "x - (d + 1) + (s + 1) = x - d + s" by simp
  note IH = Suc.IH [OF c, of "m(d := m s)", unfolded src]
  have step: "copy_up m d s (Suc n) x =
      (if unat (x - (d + 1)) < n then (m(d := m s)) (x - d + s) else (m(d := m s)) x)"
    unfolding copy_up.simps IH ..
  show ?case
  proof (cases "x = d")
    case True
    have "unat (d - (d + 1)) = 4294967295" by (simp add: unsigned_minus_1_eq_mask mask_eq_exp_minus_1)
    with True Suc.prems(1) show ?thesis unfolding step by simp
  next
    case False
    then have o: "unat (x - (d + 1)) = unat (x - d) - 1" "0 < unat (x - d)"
      using offset_shift [of x d] by (auto simp: unat_gt_0)
    have "(m(d := m s)) (x - d + s) = m (x - d + s)" if "unat (x - d) < Suc n"
    proof (cases "x - d + s = d")
      case True
      then have "x - d = d - s" by (simp add: algebra_simps)
      with that Suc.prems(2) have "d = s" by auto
      then show ?thesis using True by simp
    qed simp
    with o False show ?thesis unfolding step by auto
  qed
qed simp

lemma copy_down_eq:
  assumes "n < 2 ^ 32" and "d = s \<or> n \<le> unat (s - d)"
  shows "copy_down m (d + of_nat n) (s + of_nat n) n x = (if unat (x - d) < n then m (x - d + s) else m x)"
  using assms
proof (induction n arbitrary: m)
  case (Suc n)
  let ?e = "d + of_nat n" and ?m = "m(d + of_nat n := m (s + of_nat n))"
  have IH: "copy_down ?m (d + of_nat n) (s + of_nat n) n x = (if unat (x - d) < n then ?m (x - d + s) else ?m x)"
    using Suc.prems by (intro Suc.IH) auto
  have n: "unat (of_nat n :: uint) = n" using Suc.prems(1) by (simp add: unat_of_nat)
  have e: "x = ?e \<longleftrightarrow> unat (x - d) = n"
  proof -
    have "x = ?e \<longleftrightarrow> x - d = of_nat n" by (auto simp: algebra_simps)
    then show ?thesis by (simp add: word_unat_eq_iff n)
  qed
  have "?m (x - d + s) = m (x - d + s)" if "unat (x - d) < n"
  proof (cases "x - d + s = ?e")
    case True
    then have "s - d = of_nat n - (x - d)" by (simp add: algebra_simps)
    moreover have "x - d \<le> of_nat n" using that n by (simp add: word_le_nat_alt)
    ultimately have "unat (s - d) = n - unat (x - d)" using n by (simp only: unat_sub)
    with Suc.prems(2) have "d = s" by auto
    with True show ?thesis by simp
  qed simp
  moreover have "copy_down m (d + of_nat (Suc n)) (s + of_nat (Suc n)) (Suc n) x =
      (if unat (x - d) < n then ?m (x - d + s) else ?m x)"
    unfolding copy_down.simps IH [symmetric] by (simp add: algebra_simps)
  moreover have "x = ?e \<Longrightarrow> x - d + s = s + of_nat n" by simp
  ultimately show ?case using e by (auto simp: less_Suc_eq add.commute)
qed simp

text \<open>The test of \<open>memmove\<close> picks a loop that is right, as long as neither buffer wraps around
  the end of the address space.\<close>

lemma memmove_eq:
  assumes s: "unat src + unat n < 2 ^ 32" and d: "unat dst + unat n \<le> 2 ^ 32"
  shows "memmove m dst src n x = (if unat (x - dst) < unat n then m (x - dst + src) else m x)"
proof -
  have n: "unat n < 2 ^ 32" "of_nat (unat n) = n" by simp_all
  have sn: "unat (src + n) = unat src + unat n" by (rule unat_add_no_wrap [OF s])
  have diff: "unat (b - a) = unat b - unat a" if "a \<le> b" for a b :: uint
    using that by (rule unat_sub)
  have wrap: "unat (a - b) = 2 ^ 32 - (unat b - unat a)" if "a < b" for a b :: uint
    using that by (simp add: unat_sub_if_size word_less_nat_alt word_size)
  show ?thesis
  proof (cases "src < dst \<and> src + n > dst")
    case True
    have "unat n \<le> unat (src - dst)" using wrap [of src dst] True d by (simp add: word_less_nat_alt)
    with True copy_down_eq [of "unat n" dst src m x] n show ?thesis by (simp add: memmove_def)
  next
    case False
    have "dst = src \<or> unat n \<le> unat (dst - src)"
    proof (cases "src < dst")
      case True
      with False sn diff [of src dst] show ?thesis by (auto simp: word_less_nat_alt word_le_nat_alt)
    next
      case F: False
      then consider "dst = src" | "dst < src" by fastforce
      then show ?thesis
      proof cases
        case 2
        moreover have "unat dst < unat src" using 2 by (simp add: word_less_nat_alt)
        ultimately have "unat n \<le> unat (dst - src)" using wrap [of dst src] s by linarith
        then show ?thesis ..
      qed simp
    qed
    with False copy_up_eq [OF n(1)] show ?thesis by (auto simp: memmove_def)
  qed
qed

section \<open>Strings\<close>

text \<open>The bytes of a buffer, and the C string in it: the bytes before the first NUL.\<close>

definition bytes :: "mem \<Rightarrow> uint \<Rightarrow> nat \<Rightarrow> uchar list" where
  "bytes m a n = map (\<lambda>i. m (a + of_nat i)) [0..<n]"

definition cstring :: "uchar list \<Rightarrow> uchar list" where
  "cstring xs = takeWhile (\<lambda>c. c \<noteq> 0) xs"

lemma bytes_Suc: "bytes m a (Suc n) = m a # bytes m (a + 1) n"
  unfolding bytes_def upt_conv_Cons [OF zero_less_Suc] map_Suc_upt [symmetric] by (simp add: ac_simps)

lemma bytes_0 [simp]: "bytes m a 0 = []"
  by (simp add: bytes_def)

lemma length_bytes [simp]: "length (bytes m a n) = n"
  by (simp add: bytes_def)

lemma cstring_simps [simp]: "cstring [] = []" "cstring (x # xs) = (if x = 0 then [] else x # cstring xs)"
  by (simp_all add: cstring_def)

text \<open>\<open>strncmp\<close> compares the strings in the first \<open>n\<close> bytes.\<close>

lemma strncmp_loop_0: "strncmp_loop m p q n = 0 \<longleftrightarrow> cstring (bytes m p n) = cstring (bytes m q n)"
  by (induction n arbitrary: p q) (auto simp: bytes_Suc uint_0_iff simp flip: word_uint_eq_iff)

text \<open>\<open>strncpy\<close> between disjoint buffers: the string, padded with zeros to \<open>n\<close> bytes.\<close>

definition disjoint :: "uint \<Rightarrow> uint \<Rightarrow> nat \<Rightarrow> bool" where
  "disjoint a b n \<longleftrightarrow> (\<forall>i<n. \<forall>j<n. a + of_nat i \<noteq> b + of_nat j)"

lemma bytes_cong: "(\<And>i. i < n \<Longrightarrow> m (a + of_nat i) = m' (a + of_nat i)) \<Longrightarrow> bytes m a n = bytes m' a n"
  by (simp add: bytes_def)

lemma disjoint_below:
  assumes "unat a + n \<le> unat b" and "unat b + n \<le> 2 ^ 32"
  shows "disjoint a b n"
  unfolding disjoint_def
proof (intro allI impI)
  fix i j
  assume "i < n" "j < n"
  then have "unat (a + of_nat i) = unat a + i" "unat (b + of_nat j) = unat b + j"
    using assms by (simp_all add: unat_word_ariths unat_of_nat)
  with \<open>i < n\<close> assms show "a + of_nat i \<noteq> b + of_nat j" by auto
qed

lemma disjointD: "disjoint a b (Suc n) \<Longrightarrow> disjoint (a + 1) (b + 1) n"
  unfolding disjoint_def by (force simp: ac_simps simp flip: of_nat_Suc)

lemma disjoint_upd: "disjoint a b n \<Longrightarrow> 0 < n \<Longrightarrow> bytes (m(a := c)) b n = bytes m b n"
  by (intro bytes_cong) (force simp: disjoint_def)

lemma disjoint_upd_tl: "disjoint a b (Suc n) \<Longrightarrow> bytes (m(a := c)) (b + 1) n = bytes m (b + 1) n"
  using disjoint_upd [of a b "Suc n" m c] by (simp add: bytes_Suc)

lemma bytes_tl: "disjoint a b (Suc (Suc n)) \<Longrightarrow> bytes (m(a := c)) (b + 1) n = bytes m (b + 1) n"
  by (rule disjoint_upd_tl) (simp add: disjoint_def)

lemma before_next: "n < 2 ^ 32 \<Longrightarrow> n \<le> unat (a - (a + 1 :: uint))"
  by (simp add: unsigned_minus_1_eq_mask mask_eq_exp_minus_1)

lemma outside_next: "Suc n \<le> unat (x - s :: uint) \<Longrightarrow> n \<le> unat (x - (s + 1)) \<and> x \<noteq> s"
  by (auto simp: offset_shift)

lemma bytes_stosb: "n < 2 ^ 32 \<Longrightarrow> bytes (stosb m a c n) a n = replicate n c"
  by (intro nth_equalityI) (auto simp: bytes_def stosb_eq unat_of_nat take_bit_nat_eq_self)

lemma strncpy_loop_frame: "n \<le> unat (x - s) \<Longrightarrow> n < 2 ^ 32 \<Longrightarrow> strncpy_loop m s t n x = m x"
proof (induction n arbitrary: m s t)
  case (Suc n)
  with outside_next [of n x s] show ?case by (auto simp: stosb_eq)
qed simp

lemma strncpy_loop_bytes:
  "disjoint s t n \<Longrightarrow> n < 2 ^ 32 \<Longrightarrow>
   bytes (strncpy_loop m s t n) s n = take n (cstring (bytes m t n) @ replicate n 0)"
proof (induction n arbitrary: m s t)
  case (Suc n)
  have "strncpy_loop (m(s := m t)) (s + 1) (t + 1) n s = m t"
    using Suc.prems strncpy_loop_frame [OF before_next] by simp
  moreover have "stosb (m(s := m t)) (s + 1) 0 n s = m t"
    using Suc.prems before_next [of n s] by (simp add: stosb_eq)
  ultimately show ?case using Suc disjointD [OF Suc.prems(1)]
    by (cases "m t = 0") (simp_all add: bytes_Suc disjoint_upd_tl bytes_stosb take_replicate
      flip: replicate_Suc)
qed simp

lemma safestrcpy_loop_frame: "n < unat (x - s) \<Longrightarrow> n < 2 ^ 32 \<Longrightarrow> safestrcpy_loop m s t n x = m x"
proof (induction n arbitrary: m s t)
  case (Suc n)
  with outside_next [of "Suc n" x s] show ?case by (auto simp: less_eq_Suc_le)
qed auto

lemma cstring_append: "cstring (xs @ ys) = (if 0 \<in> set xs then cstring xs else xs @ cstring ys)"
  by (auto simp: cstring_def takeWhile_append)

lemma safestrcpy_loop_cstring:
  "disjoint s t (Suc n) \<Longrightarrow> n + 1 < 2 ^ 32 \<Longrightarrow>
   0 \<in> set (bytes (safestrcpy_loop m s t n) s (Suc n)) \<and>
   cstring (bytes (safestrcpy_loop m s t n) s (Suc n)) = cstring (bytes m t n)"
proof (induction n arbitrary: m s t)
  case (Suc n)
  define M where "M = safestrcpy_loop (m(s := m t)) (s + 1) (t + 1) n"
  have "M s = m t"
    using Suc.prems before_next [of "Suc n" s] by (simp add: M_def safestrcpy_loop_frame)
  moreover have "0 \<in> set (bytes M (s + 1) (Suc n)) \<and> cstring (bytes M (s + 1) (Suc n)) = cstring (bytes m (t + 1) n)"
    using Suc.IH [OF disjointD [OF Suc.prems(1)], of "m(s := m t)"] Suc.prems
    by (simp only: M_def disjoint_upd_tl bytes_tl)
  ultimately show ?case
    by (simp add: bytes_Suc [of _ s] bytes_Suc [of _ t] M_def [symmetric] del: fun_upd_apply) (simp add: bytes_Suc)
qed (simp add: bytes_Suc)

text \<open>\<open>strlen\<close> stops at the first NUL, if there is one.\<close>

lemma strlen_loop_first:
  "m (s + of_nat k) = 0 \<Longrightarrow> (\<forall>i. n \<le> i \<and> i < k \<longrightarrow> m (s + of_nat i) \<noteq> 0) \<Longrightarrow> n \<le> k \<Longrightarrow> strlen_loop m s n = Some k"
proof (induction "k - n" arbitrary: n)
  case 0
  then show ?case by (simp add: strlen_loop.simps)
next
  case (Suc d)
  then show ?case by (subst strlen_loop.simps) auto
qed

lemma strlen_loop_NUL: "strlen_loop m s n = Some k \<Longrightarrow> m (s + of_nat k) = 0"
  by (rule strlen_loop.raw_induct [where P = "\<lambda>m s n k. m (s + of_nat k) = 0"]) (auto split: if_splits)

section \<open>Properties\<close>

text \<open>C18. \<open>memset\<close> writes the low byte of \<open>c\<close> to the \<open>n\<close> bytes from \<open>dst\<close> and to no other byte. The
  path that stores words, taken when \<open>dst\<close> and \<open>n\<close> are multiples of four, gives the same memory as
  the path that stores bytes.\<close>

theorem memset_fills:
  "memset m dst c n x = (if unat (x - dst) < unat n then ucast c else m x) \<and>
   memset m dst c n = stosb m dst (ucast c) (unat n)"
  by (simp_all add: memset_stosb stosb_eq)

text \<open>C19. \<open>memmove\<close> copies the bytes the source held before the call, however the two buffers
  overlap, and changes nothing else. The buffers must end before the end of the address space.\<close>

theorem memmove_copies:
  assumes "unat src + unat n < 2 ^ 32" and "unat dst + unat n \<le> 2 ^ 32"
  shows "bytes (memmove m dst src n) dst (unat n) = bytes m src (unat n) \<and>
    (unat n \<le> unat (x - dst) \<longrightarrow> memmove m dst src n x = m x)"
proof -
  have "unat (of_nat i :: uint) = i" if "i < unat n" for i
    using less_trans [OF that unsigned_less] by (simp add: unat_of_nat take_bit_nat_eq_self)
  then have "bytes (memmove m dst src n) dst (unat n) = bytes m src (unat n)"
    unfolding bytes_def by (intro map_cong refl) (simp add: memmove_eq [OF assms] add.commute [of src])
  then show ?thesis by (simp add: memmove_eq [OF assms])
qed

theorem memmove_copies_witness:
  "bytes (memmove (\<lambda>a. ucast a) 12 10 5) 12 5 = [10, 11, 12, 13, 14]"
  using memmove_copies [of 10 5 12 "\<lambda>a. ucast a"] by (simp add: bytes_def upt_rec)

text \<open>C20. \<open>safestrcpy\<close> into a buffer of \<open>n\<close> bytes leaves a terminated string there: the first
  \<open>n - 1\<close> bytes of the source string at most.\<close>

theorem safestrcpy_terminates_string:
  assumes "0 < n" and "n < 2 ^ 31" and "disjoint s t (nat n)"
  shows "0 \<in> set (bytes (safestrcpy m s t n) s (nat n)) \<and>
    cstring (bytes (safestrcpy m s t n) s (nat n)) = cstring (bytes m t (nat n - 1))"
  using safestrcpy_loop_cstring [of s t "nat n - 1" m] assms
  by (simp add: safestrcpy_def nat_diff_distrib Suc_diff_Suc)

theorem safestrcpy_terminates_string_witness:
  "cstring (bytes (safestrcpy ((\<lambda>a. ucast a)(22 := 0)) 10 20 4) 10 4) = [20, 21]"
proof -
  have "disjoint 10 20 (nat 4)" by (rule disjoint_below) simp_all
  from safestrcpy_terminates_string [OF _ _ this, of "(\<lambda>a. ucast a)(22 := 0)"] show ?thesis
    by (simp add: bytes_def upt_rec)
qed

text \<open>C21. \<open>strlen\<close> returns exactly when there is a NUL, and it returns the number of bytes before
  the first one.\<close>

theorem strlen_first_NUL:
  "strlen m s = Some k \<longleftrightarrow> m (s + of_nat k) = 0 \<and> (\<forall>i<k. m (s + of_nat i) \<noteq> 0)"
proof
  assume s: "strlen m s = Some k"
  then have z: "m (s + of_nat k) = 0" unfolding strlen_def by (rule strlen_loop_NUL)
  define j where "j = (LEAST j. m (s + of_nat j) = 0)"
  have "m (s + of_nat j) = 0" "\<forall>i<j. m (s + of_nat i) \<noteq> 0"
    unfolding j_def using z by (auto intro: LeastI dest: not_less_Least)
  moreover from this have "strlen m s = Some j"
    unfolding strlen_def by (intro strlen_loop_first) auto
  ultimately show "m (s + of_nat k) = 0 \<and> (\<forall>i<k. m (s + of_nat i) \<noteq> 0)" using s by simp
next
  assume "m (s + of_nat k) = 0 \<and> (\<forall>i<k. m (s + of_nat i) \<noteq> 0)"
  then show "strlen m s = Some k" unfolding strlen_def by (intro strlen_loop_first) auto
qed

theorem strlen_first_NUL_witness: "strlen ((\<lambda>a. ucast a)(22 := 0)) 20 = Some 2"
proof -
  have "\<forall>i<2. ((\<lambda>a. ucast a)(22 := 0)) (20 + of_nat i :: uint) \<noteq> (0 :: uchar)"
    by (auto simp: less_2_cases_iff)
  then show ?thesis using strlen_first_NUL [of "(\<lambda>a. ucast a)(22 := 0)" 20 2] by simp
qed

end
