(* ===== verification/Kalloc.thy ===== *)
theory Kalloc
  imports Kernel_State Cstring
begin

text \<open>
  The physical page allocator (kernel/kalloc.c). The free list is threaded through the free pages
  themselves: the first word of a free page is the address of the next. The locale
  \<open>page_allocator\<close> is what the allocator promises to its clients: the free pages are a list of
  distinct pages, \<open>kalloc\<close> takes the first, \<open>kfree\<close> adds one, and no page off the list is written.
\<close>

section \<open>Addresses (kernel/include/memlayout.h, mmu.h)\<close>

definition EXTMEM :: uint where "EXTMEM = 0x100000"
definition PHYSTOP :: uint where "PHYSTOP = 0xE000000"
definition DEVSPACE :: uint where "DEVSPACE = 0xFE000000"
definition KERNBASE :: uint where "KERNBASE = 0x80000000"
definition KERNLINK :: uint where "KERNLINK = KERNBASE + EXTMEM"
definition PGSIZE :: uint where "PGSIZE = 4096"
definition KSTACKSIZE :: uint where "KSTACKSIZE = 4096"

definition v2p :: "uint \<Rightarrow> uint" where "v2p a = a - KERNBASE"
definition p2v :: "uint \<Rightarrow> uint" where "p2v a = a + KERNBASE"

definition PGROUNDUP :: "uint \<Rightarrow> uint" where
  "PGROUNDUP sz = (sz + PGSIZE - 1) AND NOT (PGSIZE - 1)"

definition PGROUNDDOWN :: "uint \<Rightarrow> uint" where
  "PGROUNDDOWN a = a AND NOT (PGSIZE - 1)"

lemma v2p_p2v [simp]: "v2p (p2v a) = a" "p2v (v2p a) = a"
  by (simp_all add: v2p_def p2v_def)

section \<open>Operations\<close>

definition kfree :: "uint \<Rightarrow> unit km" where
  "kfree v =
     bindK (getsK kmem) (\<lambda>k.
     if v mod PGSIZE \<noteq> 0 \<or> v < km_end k \<or> v2p v \<ge> PHYSTOP then panicK ''kfree''
     else
       let m = memset (km_mem k) v 1 PGSIZE
       in modifyK (\<lambda>s. s\<lparr>kmem := k\<lparr>km_mem := store32 m v (km_freelist k), km_freelist := v\<rparr>\<rparr>))"

definition kalloc :: "uint km" where
  "kalloc =
     bindK (getsK kmem) (\<lambda>k.
     bindK (whenK (km_freelist k \<noteq> 0)
       (modifyK (\<lambda>s. s\<lparr>kmem := k\<lparr>km_freelist := load32 (km_mem k) (km_freelist k)\<rparr>\<rparr>))) (\<lambda>_.
     returnK (km_freelist k)))"

text \<open>\<open>for(; p + PGSIZE <= vend; p += PGSIZE) kfree(p);\<close> An address at which \<open>kfree\<close> returns is
  below \<open>KERNBASE + PHYSTOP\<close>, so \<open>p\<close> never wraps around.\<close>

function freerange_loop :: "uint \<Rightarrow> uint \<Rightarrow> unit km" where
  "freerange_loop p vend =
     (if p + PGSIZE \<le> vend
      then bindK (kfree p) (\<lambda>_. if p < p + PGSIZE then freerange_loop (p + PGSIZE) vend
                                else faultK ''freerange'')
      else returnK ())"
  by auto

termination
  by (relation "measure (\<lambda>(p, _). 2 ^ 32 - unat p)")
    (auto simp: word_less_nat_alt intro!: diff_less_mono2)

declare freerange_loop.simps [simp del]

definition freerange :: "uint \<Rightarrow> uint \<Rightarrow> unit km" where
  "freerange vstart vend = freerange_loop (PGROUNDUP vstart) vend"

definition kinit1 :: "uint \<Rightarrow> uint \<Rightarrow> unit km" where
  "kinit1 vstart vend =
     bindK (modifyK (\<lambda>s. s\<lparr>kmem := (kmem s)\<lparr>km_use_lock := False\<rparr>\<rparr>)) (\<lambda>_.
     freerange vstart vend)"

definition kinit2 :: "uint \<Rightarrow> uint \<Rightarrow> unit km" where
  "kinit2 vstart vend =
     bindK (freerange vstart vend) (\<lambda>_.
     modifyK (\<lambda>s. s\<lparr>kmem := (kmem s)\<lparr>km_use_lock := True\<rparr>\<rparr>))"

section \<open>Pages\<close>

text \<open>The test of \<open>kfree\<close>: a page the allocator may manage.\<close>

definition kpage :: "kernel \<Rightarrow> uint \<Rightarrow> bool" where
  "kpage s v \<longleftrightarrow> v mod PGSIZE = 0 \<and> km_end (kmem s) \<le> v \<and> v2p v < PHYSTOP"

definition in_page :: "uint \<Rightarrow> uint \<Rightarrow> bool" where
  "in_page v x \<longleftrightarrow> unat (x - v) < 4096"

lemma in_page_self [simp]: "in_page v v"
  by (simp add: in_page_def)

lemma kpage_nonzero: "kpage s v \<Longrightarrow> v \<noteq> 0"
  by (auto simp: kpage_def v2p_def KERNBASE_def PHYSTOP_def)

text \<open>Two different pages have no byte in common.\<close>

lemma aligned_unat: "v mod PGSIZE = 0 \<longleftrightarrow> unat v mod 4096 = 0"
proof -
  have "unat (v mod PGSIZE) = unat v mod 4096" by (simp add: PGSIZE_def unat_mod_distrib)
  then show ?thesis by (metis unat_eq_zero)
qed

lemma in_page_floor:
  assumes "v mod PGSIZE = 0" and "in_page v x"
  shows "unat v = unat x - unat x mod 4096"
proof -
  define d where "d = unat (x - v)"
  have d: "d < 4096" using assms(2) by (simp add: d_def in_page_def)
  have a: "unat v mod 4096 = 0" using assms(1) by (simp add: aligned_unat)
  then obtain k where k: "unat v = 4096 * k" by (auto simp: mod_eq_0_iff_dvd elim: dvdE)
  have "unat v < 4294967296" by simp
  then have "k < 1048576" using k by simp
  then have lim: "unat v + d < 2 ^ 32" using k d by simp
  have "x = v + (x - v)" by simp
  then have "unat x = unat v + d" using unat_add_no_wrap [of v "x - v"] lim by (simp add: d_def)
  then show ?thesis using k d by simp
qed

lemma in_page_unique:
  assumes "v mod PGSIZE = 0" and "w mod PGSIZE = 0" and "in_page v x" and "in_page w x"
  shows "v = w"
  using in_page_floor [OF assms(1,3)] in_page_floor [OF assms(2,4)] by (simp add: word_unat_eq_iff)

section \<open>The free list\<close>

fun chain :: "mem \<Rightarrow> uint \<Rightarrow> uint list \<Rightarrow> bool" where
  "chain m r [] \<longleftrightarrow> r = 0"
| "chain m r (p # ps) \<longleftrightarrow> r = p \<and> chain m (load32 m p) ps"

definition free_pages :: "kernel \<Rightarrow> uint list \<Rightarrow> bool" where
  "free_pages s ps \<longleftrightarrow> chain (km_mem (kmem s)) (km_freelist (kmem s)) ps \<and> distinct ps \<and>
     (\<forall>p\<in>set ps. kpage s p)"

lemma free_pagesD: "free_pages s ps \<Longrightarrow> distinct ps" "free_pages s ps \<Longrightarrow> p \<in> set ps \<Longrightarrow> kpage s p"
  by (auto simp: free_pages_def)

lemma in_page_load:
  assumes "\<And>x. in_page v x \<Longrightarrow> m x = m' x"
  shows "load32 m v = load32 m' v"
proof -
  have "in_page v (v + 1)" "in_page v (v + 2)" "in_page v (v + 3)"
    by (simp_all add: in_page_def)
  with assms show ?thesis by (simp add: load32_def)
qed

lemma chain_frame:
  assumes "\<And>p x. p \<in> set ps \<Longrightarrow> in_page p x \<Longrightarrow> m x = m' x"
  shows "chain m r ps = chain m' r ps"
  using assms
proof (induction ps arbitrary: r)
  case (Cons p ps)
  have "load32 m p = load32 m' p" by (rule in_page_load, rule Cons.prems [of p]) simp_all
  moreover have "chain m r ps = chain m' r ps" for r by (rule Cons.IH, rule Cons.prems) simp_all
  ultimately show ?case by simp
qed simp

text \<open>The memory \<open>kfree\<close> leaves.\<close>

definition freed :: "mem \<Rightarrow> uint \<Rightarrow> uint \<Rightarrow> mem" where
  "freed m v r = store32 (memset m v 1 PGSIZE) v r"

lemma freed_frame: "\<not> in_page v x \<Longrightarrow> freed m v r x = m x"
  by (simp add: freed_def in_page_def store32_other memset_stosb stosb_eq PGSIZE_def)

lemma kfree_eq:
  "kpage s v \<Longrightarrow> kfree v s = Ok () (s\<lparr>kmem := (kmem s)\<lparr>km_mem := freed (km_mem (kmem s)) v (km_freelist (kmem s)),
     km_freelist := v\<rparr>\<rparr>)"
  by (simp add: kfree_def kpage_def freed_def Let_def not_le not_less)

lemma kfree_panics: "\<not> kpage s v \<Longrightarrow> kfree v s = Panic ''kfree''"
  by (cases "v mod PGSIZE = 0") (auto simp: kfree_def kpage_def)

lemma free_pages_cong:
  "kmem s = kmem t \<Longrightarrow> free_pages s ps = free_pages t ps"
  by (simp add: free_pages_def kpage_def)

section \<open>The interface\<close>

locale page_allocator =
  fixes alloc :: "uint km" and release_page :: "uint \<Rightarrow> unit km"
    and free_list :: "kernel \<Rightarrow> uint list \<Rightarrow> bool" and page :: "kernel \<Rightarrow> uint \<Rightarrow> bool"
  assumes free_distinct: "free_list s ps \<Longrightarrow> distinct ps"
    and free_page: "free_list s ps \<Longrightarrow> p \<in> set ps \<Longrightarrow> page s p"
    and page_nonzero: "page s p \<Longrightarrow> p \<noteq> 0"
    and alloc_none: "free_list s [] \<Longrightarrow> alloc s = Ok 0 s"
    and alloc_some: "free_list s (p # ps) \<Longrightarrow>
      \<exists>t. alloc s = Ok p t \<and> free_list t ps \<and> page t = page s \<and> km_mem (kmem t) = km_mem (kmem s)"
    and release_ok: "free_list s ps \<Longrightarrow> page s p \<Longrightarrow> p \<notin> set ps \<Longrightarrow>
      \<exists>t. release_page p s = Ok () t \<and> free_list t (p # ps) \<and> page t = page s \<and>
        (\<forall>x. \<not> in_page p x \<longrightarrow> km_mem (kmem t) x = km_mem (kmem s) x)"
begin

text \<open>\<open>n\<close> allocations in a row: the pages returned.\<close>

primrec alloc_n :: "nat \<Rightarrow> uint list km" where
  "alloc_n 0 = returnK []"
| "alloc_n (Suc n) = bindK alloc (\<lambda>p. bindK (alloc_n n) (\<lambda>ps. returnK (p # ps)))"

lemma alloc_n_ok:
  "free_list s ps \<Longrightarrow> n \<le> length ps \<Longrightarrow>
   \<exists>t. alloc_n n s = Ok (take n ps) t \<and> free_list t (drop n ps) \<and> km_mem (kmem t) = km_mem (kmem s)"
proof (induction n arbitrary: s ps)
  case (Suc n)
  then obtain p qs where ps: "ps = p # qs" by (cases ps) auto
  with Suc.prems alloc_some obtain t where t: "alloc s = Ok p t" "free_list t qs" "km_mem (kmem t) = km_mem (kmem s)"
    by blast
  from Suc.IH [OF t(2)] Suc.prems(2) ps obtain u
    where "alloc_n n t = Ok (take n qs) u" "free_list u (drop n qs)" "km_mem (kmem u) = km_mem (kmem t)" by auto
  with t ps show ?case by simp
qed simp

lemma alloc_n_exhausts:
  "free_list s ps \<Longrightarrow> \<exists>t. alloc_n (length ps + k) s = Ok (ps @ replicate k 0) t \<and> free_list t []"
proof (induction ps arbitrary: s)
  case Nil
  have "alloc_n k s = Ok (replicate k 0) s"
    by (induction k) (simp_all add: alloc_none [OF Nil])
  with Nil show ?case by simp
next
  case (Cons p ps)
  from alloc_some [OF Cons.prems] obtain t where t: "alloc s = Ok p t" "free_list t ps" by blast
  from Cons.IH [OF t(2)] t(1) show ?case by auto
qed

text \<open>A page that is freed is the next one allocated, and the list is back as it was.\<close>

lemma release_alloc:
  assumes "free_list s ps" and "page s p" and "p \<notin> set ps"
  shows "\<exists>t. bindK (release_page p) (\<lambda>_. alloc) s = Ok p t \<and> free_list t ps"
proof -
  from release_ok [OF assms] obtain t where t: "release_page p s = Ok () t" "free_list t (p # ps)" by blast
  from alloc_some [OF t(2)] t(1) show ?thesis by auto
qed

end

lemma kalloc_none: "free_pages s [] \<Longrightarrow> kalloc s = Ok 0 s"
  by (simp add: free_pages_def kalloc_def)

lemma kalloc_some:
  assumes "free_pages s (p # ps)"
  shows "\<exists>t. kalloc s = Ok p t \<and> free_pages t ps \<and> kpage t = kpage s \<and> km_mem (kmem t) = km_mem (kmem s)"
proof -
  let ?k = "kmem s"
  let ?t = "s\<lparr>kmem := ?k\<lparr>km_freelist := load32 (km_mem ?k) p\<rparr>\<rparr>"
  have "km_freelist ?k = p" "p \<noteq> 0"
    using assms kpage_nonzero [of s p] by (auto simp: free_pages_def)
  then have "kalloc s = Ok p ?t" by (simp add: kalloc_def)
  moreover have "kpage ?t = kpage s" by (rule ext) (simp add: kpage_def)
  moreover have "free_pages ?t ps" using assms calculation(2) by (simp add: free_pages_def)
  ultimately show ?thesis by simp
qed

lemma kfree_ok:
  assumes "free_pages s ps" and "kpage s p" and "p \<notin> set ps"
  shows "\<exists>t. kfree p s = Ok () t \<and> free_pages t (p # ps) \<and> kpage t = kpage s \<and>
     (\<forall>x. \<not> in_page p x \<longrightarrow> km_mem (kmem t) x = km_mem (kmem s) x)"
proof -
  let ?k = "kmem s"
  let ?m = "freed (km_mem ?k) p (km_freelist ?k)"
  let ?t = "s\<lparr>kmem := ?k\<lparr>km_mem := ?m, km_freelist := p\<rparr>\<rparr>"
  have page: "kpage ?t = kpage s" by (rule ext) (simp add: kpage_def)
  have "km_mem ?k x = ?m x" if "q \<in> set ps" "in_page q x" for q x
  proof (rule sym, rule freed_frame, rule notI)
    assume "in_page p x"
    with that assms have "q = p"
      by (intro in_page_unique [of q p x]) (auto simp: kpage_def free_pages_def)
    with that assms(3) show False by simp
  qed
  then have "chain (km_mem ?k) r ps = chain ?m r ps" for r by (intro chain_frame)
  then have "free_pages ?t (p # ps)"
    using assms page by (simp add: free_pages_def freed_def)
  with page show ?thesis by (simp add: kfree_eq [OF assms(2)] freed_frame)
qed

interpretation ka: page_allocator kalloc kfree free_pages kpage
  by unfold_locales (use free_pagesD kpage_nonzero kalloc_none kalloc_some kfree_ok in blast)+

text \<open>\<open>freerange\<close> puts every whole page of the range on the list, the last one first.\<close>

definition page_range :: "uint \<Rightarrow> nat \<Rightarrow> uint list" where
  "page_range p n = map (\<lambda>i. p + of_nat i * PGSIZE) [0..<n]"

lemma page_range_Suc: "page_range p (Suc n) = p # page_range (p + PGSIZE) n"
  unfolding page_range_def upt_conv_Cons [OF zero_less_Suc] map_Suc_upt [symmetric] by (simp add: algebra_simps)

lemma freerange_loop_ok:
  assumes "free_pages s ps" and "\<forall>q\<in>set (page_range p n). kpage s q" and "distinct (page_range p n)"
    and "set (page_range p n) \<inter> set ps = {}"
    and "unat p + n * 4096 \<le> unat vend" and "unat vend < unat p + Suc n * 4096"
    and "unat p + Suc n * 4096 < 2 ^ 32"
  shows "\<exists>t. freerange_loop p vend s = Ok () t \<and> free_pages t (rev (page_range p n) @ ps) \<and> kpage t = kpage s"
  using assms
proof (induction n arbitrary: s p ps)
  case 0
  then have "unat (p + PGSIZE) = unat p + 4096" by (intro trans [OF unat_add_no_wrap]) (simp_all add: PGSIZE_def)
  with 0 have "\<not> p + PGSIZE \<le> vend" by (simp add: word_le_nat_alt)
  with 0 show ?case by (subst freerange_loop.simps) (simp add: page_range_def)
next
  case (Suc n)
  have u: "unat (p + PGSIZE) = unat p + 4096"
    using Suc.prems(7) by (intro trans [OF unat_add_no_wrap]) (simp_all add: PGSIZE_def)
  with Suc.prems(5) have c: "p + PGSIZE \<le> vend" "p < p + PGSIZE" by (simp_all add: word_le_nat_alt word_less_nat_alt)
  from kfree_ok [OF Suc.prems(1), of p] Suc.prems(2,4) obtain t
    where t: "kfree p s = Ok () t" "free_pages t (p # ps)" "kpage t = kpage s" by (auto simp: page_range_Suc)
  have "\<exists>u. freerange_loop (p + PGSIZE) vend t = Ok () u \<and>
      free_pages u (rev (page_range (p + PGSIZE) n) @ p # ps) \<and> kpage u = kpage t"
    by (rule Suc.IH [OF t(2)]) (use Suc.prems u t(3) in \<open>auto simp: page_range_Suc\<close>)
  with t c show ?case by (subst freerange_loop.simps) (simp add: page_range_Suc)
qed

section \<open>Properties\<close>

text \<open>C10. From a state whose free list holds the pages \<open>ps\<close>, any number of calls of \<open>kalloc\<close> hands
  out each of these pages exactly once and then only null pointers; no memory is written.\<close>

theorem kalloc_each_once:
  assumes "free_pages s ps"
  shows "\<exists>t. ka.alloc_n (length ps + k) s = Ok (ps @ replicate k 0) t \<and> distinct ps \<and> 0 \<notin> set ps \<and>
    free_pages t []"
  using ka.alloc_n_exhausts [OF assms] ka.free_distinct [OF assms] ka.free_page [OF assms] ka.page_nonzero by blast

definition two_pages :: kernel where
  "two_pages = zero_kernel\<lparr>kmem := (kmem zero_kernel)\<lparr>km_freelist := 0x80400000,
     km_mem := store32 (\<lambda>_. 0) 0x80400000 0x80500000, km_end := 0x80200000\<rparr>\<rparr>"

lemma two_pages_free: "free_pages two_pages [0x80400000, 0x80500000]"
proof -
  have "load32 (store32 (\<lambda>_. 0) 0x80400000 0x80500000) 0x80500000 = 0"
    by (simp add: load32_def store32_def)
  then show ?thesis
    by (simp add: two_pages_def free_pages_def kpage_def PGSIZE_def v2p_def KERNBASE_def PHYSTOP_def)
qed

theorem kalloc_each_once_witness:
  "\<exists>t. ka.alloc_n 3 two_pages = Ok [0x80400000, 0x80500000, 0] t \<and> free_pages t []"
  using kalloc_each_once [OF two_pages_free, of 1] by (auto simp: numeral_eq_Suc)

text \<open>C11. \<open>kfree\<close> of a page that is not free returns, puts the page at the head of the free list, where
  the next \<open>kalloc\<close> finds it, and writes only to the page itself; an address that is not that of a
  page between \<open>end\<close> and \<open>PHYSTOP\<close> makes it panic.\<close>

theorem kfree_spec:
  assumes "free_pages s ps" and "p \<notin> set ps"
  shows "if kpage s p
    then \<exists>t u. kfree p s = Ok () t \<and> free_pages t (p # ps) \<and>
      (\<forall>x. \<not> in_page p x \<longrightarrow> km_mem (kmem t) x = km_mem (kmem s) x) \<and>
      kalloc t = Ok p u \<and> free_pages u ps
    else kfree p s = Panic ''kfree''"
proof (cases "kpage s p")
  case True
  from kfree_ok [OF assms(1) True assms(2)] obtain t where
    "kfree p s = Ok () t" "free_pages t (p # ps)" "\<forall>x. \<not> in_page p x \<longrightarrow> km_mem (kmem t) x = km_mem (kmem s) x"
    by blast
  with kalloc_some [of t p ps] True show ?thesis by auto
qed (simp add: kfree_panics)

theorem kfree_spec_witness:
  "(\<exists>t. kfree 0x80600000 two_pages = Ok () t \<and> free_pages t [0x80600000, 0x80400000, 0x80500000]) \<and>
   kfree 0x80600004 two_pages = Panic ''kfree''"
proof -
  have "kpage two_pages 0x80600000" "\<not> kpage two_pages 0x80600004"
    by (simp_all add: two_pages_def kpage_def PGSIZE_def v2p_def KERNBASE_def PHYSTOP_def)
  with kfree_spec [OF two_pages_free, where p = "0x80600000"] kfree_spec [OF two_pages_free, where p = "0x80600004"]
  show ?thesis by auto
qed

end
