(* ===== verification/Bio.thy ===== *)
theory Bio
  imports Kernel_State
begin

text \<open>
  The buffer cache (kernel/bio.c) over the memory disk (kernel/memdisk.c). The cache is the
  doubly linked MRU list of the source, pointer by pointer; theory \<open>Bio_Spec\<close> abstracts it to
  what its clients rely on.
\<close>

section \<open>The memory disk (kernel/memdisk.c)\<close>

definition memideinit :: "(nat \<Rightarrow> blk) \<Rightarrow> nat \<Rightarrow> kernel \<Rightarrow> kernel" where
  "memideinit img img_size s = s\<lparr>memdisk := img, disksize := img_size div 512\<rparr>"

definition set_buf :: "nat \<Rightarrow> (buf \<Rightarrow> buf) \<Rightarrow> kernel \<Rightarrow> kernel" where
  "set_buf b g s = s\<lparr>bufs := (bufs s)(b := g (bufs s b))\<rparr>"

definition memiderw :: "nat \<Rightarrow> unit km" where
  "memiderw b s =
     (let bp = bufs s b; sector = b_sector bp in
      if \<not> b_busy bp then Panic ''iderw: buf not busy''
      else if b_valid bp \<and> \<not> b_dirty bp then Panic ''iderw: nothing to do''
      else if b_dev bp \<noteq> 1 then Panic ''iderw: request not for disk 1''
      else if sector \<ge> disksize s then Panic ''iderw: sector out of range''
      else if b_dirty bp
      then Ok () ((set_buf b (\<lambda>x. x\<lparr>b_dirty := False, b_valid := True\<rparr>) s)
             \<lparr>memdisk := (memdisk s)(sector := b_data bp),
              wtrace := wtrace s @ [(sector, b_data bp)]\<rparr>)
      else Ok () (set_buf b (\<lambda>x. x\<lparr>b_data := memdisk s sector, b_valid := True\<rparr>) s))"

section \<open>The linked list (bcache.head and the prev/next fields)\<close>

text \<open>The assignments shared by \<open>binit\<close> and \<open>brelse\<close> that put \<open>b\<close> behind the head:
  \<open>b->next = head.next; b->prev = &head; head.next->prev = b; head.next = b\<close>.\<close>

definition link_front :: "nat \<Rightarrow> (nat \<Rightarrow> buf) \<Rightarrow> nat \<Rightarrow> buf" where
  "link_front b f0 =
     (let f1 = f0(b := (f0 b)\<lparr>b_next := b_next (f0 NBUF)\<rparr>);
          f2 = f1(b := (f1 b)\<lparr>b_prev := NBUF\<rparr>);
          f3 = f2(b_next (f2 NBUF) := (f2 (b_next (f2 NBUF)))\<lparr>b_prev := b\<rparr>)
      in f3(NBUF := (f3 NBUF)\<lparr>b_next := b\<rparr>))"

text \<open>\<open>b->next->prev = b->prev; b->prev->next = b->next\<close>.\<close>

definition unlink :: "nat \<Rightarrow> (nat \<Rightarrow> buf) \<Rightarrow> nat \<Rightarrow> buf" where
  "unlink b f0 =
     (let f1 = f0(b_next (f0 b) := (f0 (b_next (f0 b)))\<lparr>b_prev := b_prev (f0 b)\<rparr>)
      in f1(b_prev (f1 b) := (f1 (b_prev (f1 b)))\<lparr>b_next := b_next (f1 b)\<rparr>))"

definition binit :: "kernel \<Rightarrow> kernel" where
  "binit s =
     (let f0 = (bufs s)(NBUF := (bufs s NBUF)\<lparr>b_prev := NBUF, b_next := NBUF\<rparr>)
      in s\<lparr>bufs := foldl (\<lambda>f b. link_front b (f(b := (f b)\<lparr>b_dev := 4294967295\<rparr>))) f0 [0..<NBUF]\<rparr>)"

text \<open>A loop over the list: from \<open>b\<close> along \<open>step\<close> until the head, stopping at the first buffer
  that satisfies \<open>P\<close>. The fuel is \<open>NBUF + 1\<close>; \<open>scan_ring\<close> below shows that the loop over
  a well-formed list never runs out of it.\<close>

primrec scan :: "(nat \<Rightarrow> nat) \<Rightarrow> (nat \<Rightarrow> bool) \<Rightarrow> nat \<Rightarrow> nat \<Rightarrow> nat option" where
  "scan step P 0 b = None"
| "scan step P (Suc n) b =
     (if b = NBUF then None else if P b then Some b else scan step P n (step b))"

section \<open>bget, bread, bwrite, brelse\<close>

definition bget :: "nat \<Rightarrow> nat \<Rightarrow> nat km" where
  "bget dev sector s =
     (case scan (\<lambda>b. b_next (bufs s b))
             (\<lambda>b. b_dev (bufs s b) = dev \<and> b_sector (bufs s b) = sector)
             (Suc NBUF) (b_next (bufs s NBUF)) of
        Some b \<Rightarrow>
          if \<not> b_busy (bufs s b) then Ok b (set_buf b (\<lambda>x. x\<lparr>b_busy := True\<rparr>) s)
          else Sleeps (Chan_buf b) s
      | None \<Rightarrow>
          (case scan (\<lambda>b. b_prev (bufs s b))
                  (\<lambda>b. \<not> b_busy (bufs s b) \<and> \<not> b_dirty (bufs s b))
                  (Suc NBUF) (b_prev (bufs s NBUF)) of
             Some b \<Rightarrow>
               Ok b (set_buf b (\<lambda>x. x\<lparr>b_dev := dev, b_sector := sector,
                        b_busy := True, b_valid := False, b_dirty := False\<rparr>) s)
           | None \<Rightarrow> Panic ''bget: no buffers''))"

definition bread :: "nat \<Rightarrow> nat \<Rightarrow> nat km" where
  "bread dev sector =
     bindK (bget dev sector) (\<lambda>b.
     bindK (getsK (\<lambda>s. b_valid (bufs s b))) (\<lambda>valid.
     bindK (whenK (\<not> valid) (memiderw b)) (\<lambda>_.
     returnK b)))"

definition bwrite :: "nat \<Rightarrow> unit km" where
  "bwrite b s =
     (if \<not> b_busy (bufs s b) then Panic ''bwrite''
      else memiderw b (set_buf b (\<lambda>x. x\<lparr>b_dirty := True\<rparr>) s))"

definition brelse :: "nat \<Rightarrow> unit km" where
  "brelse b s =
     (if \<not> b_busy (bufs s b) then Panic ''brelse''
      else
        let s1 = s\<lparr>bufs := link_front b (unlink b (bufs s))\<rparr>;
            s2 = set_buf b (\<lambda>x. x\<lparr>b_busy := False\<rparr>) s1
        in Ok () (wakeup (Chan_buf b) s2))"

text \<open>Access to \<open>bp->data\<close> by the holder of a buffer.\<close>

definition bdata :: "nat \<Rightarrow> blk km" where
  "bdata b = getsK (\<lambda>s. b_data (bufs s b))"

definition set_bdata :: "nat \<Rightarrow> blk \<Rightarrow> unit km" where
  "set_bdata b d = modifyK (set_buf b (\<lambda>x. x\<lparr>b_data := d\<rparr>))"

text \<open>\<open>b->dev\<close> and \<open>b->sector\<close>.\<close>

definition bdev :: "nat \<Rightarrow> nat km" where
  "bdev b = getsK (\<lambda>s. b_dev (bufs s b))"

definition bsector :: "nat \<Rightarrow> nat km" where
  "bsector b = getsK (\<lambda>s. b_sector (bufs s b))"

section \<open>The list is well formed\<close>

text \<open>\<open>dll f p xs q\<close>: following \<open>next\<close> from \<open>p\<close> visits \<open>xs\<close> and then \<open>q\<close>, and the
  \<open>prev\<close> fields lead back.\<close>

fun dll :: "(nat \<Rightarrow> buf) \<Rightarrow> nat \<Rightarrow> nat list \<Rightarrow> nat \<Rightarrow> bool" where
  "dll f p [] q \<longleftrightarrow> b_next (f p) = q \<and> b_prev (f q) = p"
| "dll f p (x # xs) q \<longleftrightarrow> b_next (f p) = x \<and> b_prev (f x) = p \<and> dll f x xs q"

definition ring :: "(nat \<Rightarrow> buf) \<Rightarrow> nat list \<Rightarrow> bool" where
  "ring f xs \<longleftrightarrow> dll f NBUF xs NBUF \<and> distinct xs \<and> set xs = {..<NBUF}"

lemma dll_append: "dll f p (xs @ y # ys) q \<longleftrightarrow> dll f p xs y \<and> dll f y ys q"
  by (induction xs arbitrary: p) auto

lemma dll_cong:
  assumes "\<And>x. x = p \<or> x \<in> set xs \<Longrightarrow> b_next (g x) = b_next (f x)"
    and "\<And>x. x = q \<or> x \<in> set xs \<Longrightarrow> b_prev (g x) = b_prev (f x)"
  shows "dll g p xs q \<longleftrightarrow> dll f p xs q"
  using assms by (induction xs arbitrary: p) auto

lemma dll_next_first: "dll f p xs q \<Longrightarrow> b_next (f p) = hd (xs @ [q])"
  by (cases xs) auto

lemma dll_prev_last: "dll f p xs q \<Longrightarrow> b_prev (f q) = last (p # xs)"
  by (induction xs arbitrary: p) auto

lemma ring_not_head: "ring f xs \<Longrightarrow> NBUF \<notin> set xs"
  by (auto simp: ring_def)

lemma link_front_other:
  "b_next (link_front b f x) =
     (if x = NBUF then b else if x = b then b_next (f NBUF) else b_next (f x))"
  "b \<noteq> NBUF \<Longrightarrow> b_prev (link_front b f x) =
     (if x = b_next (f NBUF) then b else if x = b then NBUF else b_prev (f x))"
  by (auto simp: link_front_def Let_def)

lemma link_front_dll:
  assumes "dll f NBUF xs NBUF" and "b \<notin> set xs" and "b \<noteq> NBUF" and "distinct xs"
    and "NBUF \<notin> set xs"
  shows "dll (link_front b f) NBUF (b # xs) NBUF"
proof (cases xs)
  case Nil
  with assms show ?thesis by (simp add: link_front_other)
next
  case (Cons y ys)
  with assms have fy: "b_next (f NBUF) = y" and tl: "dll f y ys NBUF" and ys: "y \<notin> set ys"
    by auto
  have "dll (link_front b f) y ys NBUF = dll f y ys NBUF"
    by (rule dll_cong) (use assms Cons fy ys in \<open>auto simp: link_front_other\<close>)
  with assms Cons fy tl show ?thesis by (auto simp: link_front_other)
qed

lemma unlink_other:
  assumes "b_next (f b) \<noteq> b" and "b_prev (f b) \<noteq> b"
  shows "b_next (unlink b f x) = (if x = b_prev (f b) then b_next (f b) else b_next (f x))"
    and "b_prev (unlink b f x) = (if x = b_next (f b) then b_prev (f b) else b_prev (f x))"
  using assms by (auto simp: unlink_def Let_def)

lemma unlink_dll:
  assumes d: "dll f NBUF (as @ b # bs) NBUF" and di: "distinct (as @ b # bs)"
    and h: "NBUF \<notin> set (as @ b # bs)"
  shows "dll (unlink b f) NBUF (as @ bs) NBUF"
proof -
  define p where "p = last (NBUF # as)"
  define n where "n = hd (bs @ [NBUF])"
  from d have as: "dll f NBUF as b" and bs: "dll f b bs NBUF" by (simp_all add: dll_append)
  from as have p: "b_prev (f b) = p" unfolding p_def by (rule dll_prev_last)
  from bs have n: "b_next (f b) = n" unfolding n_def by (rule dll_next_first)
  have pb: "p \<noteq> b" using di h by (auto simp: p_def)
  have nb: "n \<noteq> b" using di h by (cases bs) (auto simp: n_def)
  have nx: "b_next (unlink b f x) = (if x = p then n else b_next (f x))"
    and pv: "b_prev (unlink b f x) = (if x = n then p else b_prev (f x))" for x
    using unlink_other [of f b x] p n pb nb by auto
  have left: "dll (unlink b f) NBUF as n"
    if "dll f NBUF as b" "distinct (as @ b # bs)" "NBUF \<notin> set (as @ b # bs)"
    using that p_def n_def
  proof (induction as rule: rev_induct)
    case Nil
    then show ?case by (simp add: nx pv)
  next
    case (snoc a as')
    from snoc.prems have pa: "p = a" by simp
    have na: "n \<noteq> a" "n \<notin> set as'" using snoc.prems by (cases bs; auto)+
    from snoc.prems have "dll f NBUF as' a" by (simp add: dll_append)
    moreover have "dll (unlink b f) NBUF as' a = dll f NBUF as' a"
      by (rule dll_cong) (use snoc.prems pa na in \<open>auto simp: nx pv\<close>)
    ultimately show ?case using pa na by (simp add: dll_append nx pv)
  qed
  show ?thesis
  proof (cases bs)
    case Nil
    with left as di h show ?thesis by (simp add: n_def)
  next
    case (Cons c cs)
    then have nc: "n = c" by (simp add: n_def)
    from bs Cons have "dll f c cs NBUF" by simp
    moreover have "dll (unlink b f) c cs NBUF = dll f c cs NBUF"
    proof (rule dll_cong)
      have pin: "p = NBUF \<or> p \<in> set as" by (auto simp: p_def)
      show "b_next (unlink b f x) = b_next (f x)" if "x = c \<or> x \<in> set cs" for x
        using that pin di h Cons by (auto simp: nx)
      show "b_prev (unlink b f x) = b_prev (f x)" if "x = NBUF \<or> x \<in> set cs" for x
        using that di h Cons nc by (auto simp: pv)
    qed
    ultimately show ?thesis
      using left as di h Cons nc by (simp add: dll_append)
  qed
qed

text \<open>The pointer surgery of \<open>brelse\<close> moves the buffer to the front of the list and changes
  nothing else of any buffer.\<close>

lemma brelse_ring:
  assumes "ring f (as @ b # bs)"
  shows "ring (link_front b (unlink b f)) (b # as @ bs)"
proof -
  have h: "NBUF \<notin> set (as @ b # bs)" using assms by (rule ring_not_head)
  from assms have d: "dll f NBUF (as @ b # bs) NBUF" and di: "distinct (as @ b # bs)"
    and st: "set (as @ b # bs) = {..<NBUF}" by (auto simp: ring_def)
  from d di h have "dll (unlink b f) NBUF (as @ bs) NBUF" by (rule unlink_dll)
  then have "dll (link_front b (unlink b f)) NBUF (b # as @ bs) NBUF"
    by (rule link_front_dll) (use di h in auto)
  moreover have "set (b # as @ bs) = {..<NBUF}" using st by auto
  ultimately show ?thesis using di by (auto simp: ring_def)
qed

lemma scan_dll:
  assumes "dll f p xs NBUF" and "NBUF \<notin> set xs" and "length xs < n"
  shows "scan (\<lambda>b. b_next (f b)) P n (b_next (f p)) = find P xs"
  using assms
proof (induction xs arbitrary: p n)
  case Nil
  then show ?case by (cases n) auto
next
  case (Cons x xs)
  then obtain m where "n = Suc m" by (cases n) auto
  with Cons show ?case by auto
qed

lemma scan_dll_prev:
  assumes "dll f NBUF xs q" and "NBUF \<notin> set xs" and "length xs < n"
  shows "scan (\<lambda>b. b_prev (f b)) P n (b_prev (f q)) = find P (rev xs)"
  using assms
proof (induction xs arbitrary: q n rule: rev_induct)
  case Nil
  then show ?case by (cases n) auto
next
  case (snoc x xs)
  then obtain m where "n = Suc m" by (cases n) auto
  with snoc show ?case by (auto simp: dll_append)
qed

lemma ring_length: "ring f xs \<Longrightarrow> length xs = NBUF"
  using distinct_card [of xs] by (simp add: ring_def)

text \<open>The loops of \<open>bget\<close> visit every buffer: forwards in list order, backwards in reverse.\<close>

lemma scan_ring:
  assumes "ring f xs"
  shows "scan (\<lambda>b. b_next (f b)) P (Suc NBUF) (b_next (f NBUF)) = find P xs"
    and "scan (\<lambda>b. b_prev (f b)) P (Suc NBUF) (b_prev (f NBUF)) = find P (rev xs)"
proof -
  have n: "length xs < Suc NBUF" using ring_length [OF assms] by simp
  from assms have d: "dll f NBUF xs NBUF" by (simp add: ring_def)
  show "scan (\<lambda>b. b_next (f b)) P (Suc NBUF) (b_next (f NBUF)) = find P xs"
    by (rule scan_dll [OF d ring_not_head [OF assms] n])
  show "scan (\<lambda>b. b_prev (f b)) P (Suc NBUF) (b_prev (f NBUF)) = find P (rev xs)"
    by (rule scan_dll_prev [OF d ring_not_head [OF assms] n])
qed

end
