(* ===== verification/Bio_Spec.thy ===== *)
theory Bio_Spec
  imports Bio
begin

text \<open>
  What the buffer cache promises its clients, and the proof that \<open>Bio\<close> keeps the promise.
  The abstract state of the cache maps each sector to the content its users see, to the content
  on disk and to the buffer that holds it, if a client has it busy; and it records which sectors
  are pinned in memory by \<open>B_DIRTY\<close>. The interface is the locale \<open>buffer_cache\<close>.
\<close>

section \<open>Abstract state\<close>

record bcabs =
  av_view :: "nat \<Rightarrow> blk"
  av_disk :: "nat \<Rightarrow> blk"
  av_held :: "nat \<Rightarrow> nat option"
  av_pinned :: "nat set"
  av_trace :: "(nat \<times> blk) list"
  av_size :: nat
  av_rest :: kernel

text \<open>The rest of the kernel: everything but the disk, the cache and the scheduling state.\<close>

definition rest :: "kernel \<Rightarrow> kernel" where
  "rest s = s\<lparr>memdisk := (\<lambda>_ _. 0), wtrace := [], bufs := (\<lambda>_. zero_buf), procs := procs_data s\<rparr>"

text \<open>A sector can be brought into the cache: it is there already, or some buffer is neither
  busy nor pinned.\<close>

definition room :: "bcabs \<Rightarrow> nat \<Rightarrow> bool" where
  "room A k \<longleftrightarrow> k \<in> av_pinned A \<or> card (dom (av_held A) \<union> av_pinned A) < NBUF"

definition settled :: "bcabs \<Rightarrow> nat \<Rightarrow> bool" where
  "settled A k \<longleftrightarrow> k \<in> av_pinned A \<or> av_view A k = av_disk A k"

section \<open>The interface\<close>

locale buffer_cache =
  fixes inv :: "kernel \<Rightarrow> bool"
    and abs :: "kernel \<Rightarrow> bcabs"
    and rd :: "nat \<Rightarrow> nat km"
    and getd :: "nat \<Rightarrow> blk km"
    and setd :: "nat \<Rightarrow> blk \<Rightarrow> unit km"
    and wr :: "nat \<Rightarrow> unit km"
    and rel :: "nat \<Rightarrow> unit km"
    and pin :: "nat \<Rightarrow> unit km"
    and devof secof :: "nat \<Rightarrow> nat km"
  assumes rd_law: "inv s \<Longrightarrow> av_held (abs s) k = None \<Longrightarrow> k < av_size (abs s) \<Longrightarrow> room (abs s) k \<Longrightarrow>
      \<exists>b t. rd k s = Ok b t \<and> inv t \<and> abs t = (abs s)\<lparr>av_held := (av_held (abs s))(k \<mapsto> b)\<rparr>"
    and getd_law: "inv s \<Longrightarrow> av_held (abs s) k = Some b \<Longrightarrow> getd b s = Ok (av_view (abs s) k) s"
    and key_law: "inv s \<Longrightarrow> av_held (abs s) k = Some b \<Longrightarrow> devof b s = Ok 1 s \<and> secof b s = Ok k s"
    and setd_law: "inv s \<Longrightarrow> av_held (abs s) k = Some b \<Longrightarrow>
      \<exists>t. setd b d s = Ok () t \<and> inv t \<and> abs t = (abs s)\<lparr>av_view := (av_view (abs s))(k := d)\<rparr>"
    and wr_law: "inv s \<Longrightarrow> av_held (abs s) k = Some b \<Longrightarrow>
      \<exists>t. wr b s = Ok () t \<and> inv t \<and>
        abs t = (abs s)\<lparr>av_disk := (av_disk (abs s))(k := av_view (abs s) k),
                        av_pinned := av_pinned (abs s) - {k},
                        av_trace := av_trace (abs s) @ [(k, av_view (abs s) k)]\<rparr>"
    and rel_law: "inv s \<Longrightarrow> av_held (abs s) k = Some b \<Longrightarrow> settled (abs s) k \<Longrightarrow>
      \<exists>t. rel b s = Ok () t \<and> inv t \<and> abs t = (abs s)\<lparr>av_held := (av_held (abs s))(k := None)\<rparr>"
    and pin_law: "inv s \<Longrightarrow> av_held (abs s) k = Some b \<Longrightarrow>
      \<exists>t. pin b s = Ok () t \<and> inv t \<and> abs t = (abs s)\<lparr>av_pinned := insert k (av_pinned (abs s))\<rparr>"
    and idle_settled: "inv s \<Longrightarrow> av_held (abs s) k = None \<Longrightarrow> settled (abs s) k"
    and pinned_finite: "inv s \<Longrightarrow> finite (av_pinned (abs s)) \<and> finite (dom (av_held (abs s)))"
begin

text \<open>The state is well formed and has the abstract state \<open>A\<close>.\<close>

definition at :: "bcabs \<Rightarrow> kernel \<Rightarrow> bool" where
  "at A s \<longleftrightarrow> inv s \<and> abs s = A"

text \<open>Symbolic execution of a client: one rule per call at the head of a sequence.\<close>

lemma bind_rd:
  assumes "av_held A k = None" and "k < av_size A" and "room A k"
    and "\<And>b. hoare (at (A\<lparr>av_held := (av_held A)(k \<mapsto> b)\<rparr>)) (f b) Q"
  shows "hoare (at A) (bindK (rd k) f) Q"
  by (rule hoare_bind [OF _ assms(4)], rule hoareI) (use rd_law assms(1-3) in \<open>auto simp: at_def\<close>)

lemma bind_getd:
  assumes "av_held A k = Some b" and "hoare (at A) (f (av_view A k)) Q"
  shows "hoare (at A) (bindK (getd b) f) Q"
proof (rule hoareI)
  fix s
  assume s: "at A s"
  then have "getd b s = Ok (av_view A k) s" using getd_law assms(1) by (auto simp: at_def)
  with s assms(2) show "\<exists>x t. bindK (getd b) f s = Ok x t \<and> Q x t" by (simp add: hoare_def)
qed

lemma bind_getd_eq:
  assumes "av_held A k = Some b" and "v = av_view A k" and "hoare (at A) (f v) Q"
  shows "hoare (at A) (bindK (getd b) f) Q"
  using bind_getd assms by simp

lemma bind_key:
  assumes "av_held A k = Some b"
  shows "hoare (at A) (f 1) Q \<Longrightarrow> hoare (at A) (bindK (devof b) f) Q"
    and "hoare (at A) (f k) Q \<Longrightarrow> hoare (at A) (bindK (secof b) f) Q"
  using key_law assms by (auto simp: hoare_def at_def)

lemma bind_setd:
  assumes "av_held A k = Some b" and "hoare (at (A\<lparr>av_view := (av_view A)(k := d)\<rparr>)) (f ()) Q"
  shows "hoare (at A) (bindK (setd b d) f) Q"
proof (rule hoare_bind [where R = "\<lambda>_. at (A\<lparr>av_view := (av_view A)(k := d)\<rparr>)"])
  show "hoare (at A) (setd b d) (\<lambda>_. at (A\<lparr>av_view := (av_view A)(k := d)\<rparr>))"
    by (rule hoareI) (use setd_law assms(1) in \<open>auto simp: at_def\<close>)
  show "hoare (at (A\<lparr>av_view := (av_view A)(k := d)\<rparr>)) (f x) Q" for x
    using assms(2) by simp
qed

lemma bind_wr:
  assumes "av_held A k = Some b"
    and "hoare (at (A\<lparr>av_disk := (av_disk A)(k := av_view A k), av_pinned := av_pinned A - {k},
              av_trace := av_trace A @ [(k, av_view A k)]\<rparr>)) (f ()) Q"
  shows "hoare (at A) (bindK (wr b) f) Q"
proof (rule hoare_bind [where R = "\<lambda>_. at (A\<lparr>av_disk := (av_disk A)(k := av_view A k),
         av_pinned := av_pinned A - {k}, av_trace := av_trace A @ [(k, av_view A k)]\<rparr>)"])
  show "hoare (at A) (wr b) (\<lambda>_. at (A\<lparr>av_disk := (av_disk A)(k := av_view A k),
         av_pinned := av_pinned A - {k}, av_trace := av_trace A @ [(k, av_view A k)]\<rparr>))"
    by (rule hoareI) (use wr_law assms(1) in \<open>auto simp: at_def\<close>)
qed (use assms(2) in simp)

lemma bind_rel:
  assumes "av_held A k = Some b" and "settled A k"
    and "hoare (at (A\<lparr>av_held := (av_held A)(k := None)\<rparr>)) (f ()) Q"
  shows "hoare (at A) (bindK (rel b) f) Q"
proof (rule hoare_bind [where R = "\<lambda>_. at (A\<lparr>av_held := (av_held A)(k := None)\<rparr>)"])
  show "hoare (at A) (rel b) (\<lambda>_. at (A\<lparr>av_held := (av_held A)(k := None)\<rparr>))"
    by (rule hoareI) (use rel_law assms(1,2) in \<open>auto simp: at_def\<close>)
qed (use assms(3) in simp)

lemma bind_pin:
  assumes "av_held A k = Some b"
    and "hoare (at (A\<lparr>av_pinned := insert k (av_pinned A)\<rparr>)) (f ()) Q"
  shows "hoare (at A) (bindK (pin b) f) Q"
proof (rule hoare_bind [where R = "\<lambda>_. at (A\<lparr>av_pinned := insert k (av_pinned A)\<rparr>)"])
  show "hoare (at A) (pin b) (\<lambda>_. at (A\<lparr>av_pinned := insert k (av_pinned A)\<rparr>))"
    by (rule hoareI) (use pin_law assms(1) in \<open>auto simp: at_def\<close>)
qed (use assms(2) in simp)

lemma rel_last:
  assumes "av_held A k = Some b" and "settled A k"
  shows "hoare (at A) (rel b) (\<lambda>_. at (A\<lparr>av_held := (av_held A)(k := None)\<rparr>))"
  by (rule hoareI) (use rel_law assms in \<open>auto simp: at_def\<close>)

text \<open>A block that nobody holds shows what is on disk, or is pinned: needed to release a
  buffer that was only read.\<close>

lemma at_settled: "at A s \<Longrightarrow> av_held A k = None \<Longrightarrow> settled A k"
  using idle_settled by (auto simp: at_def)

lemma at_finite: "at A s \<Longrightarrow> finite (av_pinned A) \<and> finite (dom (av_held A))"
  using pinned_finite by (auto simp: at_def)

lemma hoare_at_settled:
  assumes "av_held A k = None \<Longrightarrow> settled A k \<Longrightarrow> hoare (at A) m Q" and "av_held A k = None"
  shows "hoare (at A) m Q"
proof (rule hoareI)
  fix s
  assume "at A s"
  then show "\<exists>x t. m s = Ok x t \<and> Q x t"
    using assms at_settled hoare_def by blast
qed

text \<open>The two idioms of the clients: read a block, and read, modify and write one through.\<close>

lemma read_block:
  assumes "av_held A k = None" and "k < av_size A" and "room A k"
    and "hoare (at A) (f (av_view A k)) Q"
  shows "hoare (at A) (bindK (rd k) (\<lambda>b. bindK (getd b) (\<lambda>d. bindK (rel b) (\<lambda>_. f d)))) Q"
proof (rule hoare_at_settled [OF _ assms(1)])
  assume st: "settled A k"
  show ?thesis
    by (rule bind_rd [OF assms(1-3)], rule bind_getd [where k = k], simp,
        rule bind_rel [where k = k])
      (use st assms in \<open>simp_all add: settled_def fun_upd_idem\<close>)
qed

lemma write_block:
  assumes "av_held A k = None" and "k < av_size A" and "room A k"
    and "hoare (at (A\<lparr>av_view := (av_view A)(k := d), av_disk := (av_disk A)(k := d),
            av_pinned := av_pinned A - {k}, av_trace := av_trace A @ [(k, d)]\<rparr>)) (f ()) Q"
  shows "hoare (at A) (bindK (rd k) (\<lambda>b. bindK (setd b d) (\<lambda>_.
           bindK (wr b) (\<lambda>_. bindK (rel b) f)))) Q"
  by (rule bind_rd [OF assms(1-3)], rule bind_setd [where k = k], simp,
      rule bind_wr [where k = k], simp, rule bind_rel [where k = k])
    (use assms in \<open>simp_all add: settled_def fun_upd_idem\<close>)

end

section \<open>The cache implements the interface\<close>

definition slot :: "kernel \<Rightarrow> nat \<Rightarrow> nat option" where
  "slot s k = find (\<lambda>b. b_dev (bufs s b) = 1 \<and> b_sector (bufs s b) = k) [0..<NBUF]"

definition bc_inv :: "kernel \<Rightarrow> bool" where
  "bc_inv s \<longleftrightarrow>
     (\<exists>xs. ring (bufs s) xs) \<and>
     (\<forall>b<NBUF. \<forall>b'<NBUF. b_dev (bufs s b) = 1 \<and> b_dev (bufs s b') = 1 \<and>
        b_sector (bufs s b) = b_sector (bufs s b') \<longrightarrow> b = b') \<and>
     (\<forall>b<NBUF. b_busy (bufs s b) \<or> b_dirty (bufs s b) \<longrightarrow> b_dev (bufs s b) = 1) \<and>
     (\<forall>b<NBUF. b_dev (bufs s b) = 1 \<longrightarrow>
        b_valid (bufs s b) \<and> b_sector (bufs s b) < disksize s \<and>
        (\<not> b_busy (bufs s b) \<and> \<not> b_dirty (bufs s b) \<longrightarrow>
           b_data (bufs s b) = memdisk s (b_sector (bufs s b))))"

definition bc_view :: "kernel \<Rightarrow> nat \<Rightarrow> blk" where
  "bc_view s k = (case slot s k of None \<Rightarrow> memdisk s k | Some b \<Rightarrow> b_data (bufs s b))"

definition bc_held :: "kernel \<Rightarrow> nat \<Rightarrow> nat option" where
  "bc_held s k =
     (case slot s k of None \<Rightarrow> None | Some b \<Rightarrow> if b_busy (bufs s b) then Some b else None)"

definition bc_pinned :: "kernel \<Rightarrow> nat set" where
  "bc_pinned s = {k. case slot s k of None \<Rightarrow> False | Some b \<Rightarrow> b_dirty (bufs s b)}"

definition bc_abs :: "kernel \<Rightarrow> bcabs" where
  "bc_abs s = \<lparr>av_view = bc_view s, av_disk = memdisk s, av_held = bc_held s,
               av_pinned = bc_pinned s, av_trace = wtrace s, av_size = disksize s,
               av_rest = rest s\<rparr>"

definition set_dirty :: "nat \<Rightarrow> unit km" where
  "set_dirty b = modifyK (set_buf b (\<lambda>x. x\<lparr>b_dirty := True\<rparr>))"

lemma slot_Some: "slot s k = Some b \<Longrightarrow> b < NBUF \<and> b_dev (bufs s b) = 1 \<and> b_sector (bufs s b) = k"
  by (simp add: slot_def find_upt_Some_iff)

lemma slot_None: "slot s k = None \<longleftrightarrow>
    (\<forall>b<NBUF. \<not> (b_dev (bufs s b) = 1 \<and> b_sector (bufs s b) = k))"
  by (simp add: slot_def find_upt_None_iff)

lemma bc_invD:
  assumes "bc_inv s"
  shows bc_ring: "\<exists>xs. ring (bufs s) xs"
    and bc_uniq: "b < NBUF \<Longrightarrow> b' < NBUF \<Longrightarrow> b_dev (bufs s b) = 1 \<Longrightarrow> b_dev (bufs s b') = 1 \<Longrightarrow>
        b_sector (bufs s b) = b_sector (bufs s b') \<Longrightarrow> b = b'"
    and bc_used: "b < NBUF \<Longrightarrow> b_busy (bufs s b) \<or> b_dirty (bufs s b) \<Longrightarrow> b_dev (bufs s b) = 1"
    and bc_valid: "b < NBUF \<Longrightarrow> b_dev (bufs s b) = 1 \<Longrightarrow>
        b_valid (bufs s b) \<and> b_sector (bufs s b) < disksize s"
    and bc_coherent: "b < NBUF \<Longrightarrow> b_dev (bufs s b) = 1 \<Longrightarrow> \<not> b_busy (bufs s b) \<Longrightarrow>
        \<not> b_dirty (bufs s b) \<Longrightarrow> b_data (bufs s b) = memdisk s (b_sector (bufs s b))"
  using assms unfolding bc_inv_def by blast+

lemma bc_invI:
  assumes "ring (bufs s) xs"
    and "\<And>b b'. b < NBUF \<Longrightarrow> b' < NBUF \<Longrightarrow> b_dev (bufs s b) = 1 \<Longrightarrow> b_dev (bufs s b') = 1 \<Longrightarrow>
        b_sector (bufs s b) = b_sector (bufs s b') \<Longrightarrow> b = b'"
    and "\<And>b. b < NBUF \<Longrightarrow> b_busy (bufs s b) \<or> b_dirty (bufs s b) \<Longrightarrow> b_dev (bufs s b) = 1"
    and "\<And>b. b < NBUF \<Longrightarrow> b_dev (bufs s b) = 1 \<Longrightarrow>
        b_valid (bufs s b) \<and> b_sector (bufs s b) < disksize s"
    and "\<And>b. b < NBUF \<Longrightarrow> b_dev (bufs s b) = 1 \<Longrightarrow> \<not> b_busy (bufs s b) \<Longrightarrow>
        \<not> b_dirty (bufs s b) \<Longrightarrow> b_data (bufs s b) = memdisk s (b_sector (bufs s b))"
  shows "bc_inv s"
  using assms unfolding bc_inv_def by blast

lemma slotI:
  assumes "bc_inv s" and "b < NBUF" and "b_dev (bufs s b) = 1" and "b_sector (bufs s b) = k"
  shows "slot s k = Some b"
proof (cases "slot s k")
  case None
  with assms show ?thesis by (auto simp: slot_None)
next
  case (Some b')
  with assms slot_Some [OF Some] bc_uniq [OF assms(1), of b' b] show ?thesis by simp
qed

lemma ring_cong:
  assumes "\<And>x. b_next (g x) = b_next (f x)" and "\<And>x. b_prev (g x) = b_prev (f x)"
  shows "ring g xs = ring f xs"
  using dll_cong [of NBUF xs g f NBUF] assms by (simp add: ring_def)

lemma rest_set_buf [simp]: "rest (set_buf b g s) = rest s"
  by (simp add: rest_def set_buf_def procs_data_def)

lemma set_buf_frame [simp]:
  "memdisk (set_buf b g s) = memdisk s"
  "disksize (set_buf b g s) = disksize s"
  "wtrace (set_buf b g s) = wtrace s"
  "bufs (set_buf b g s) = (bufs s)(b := g (bufs s b))"
  by (simp_all add: set_buf_def)

text \<open>A step that keeps the keys of the buffers keeps the slots.\<close>

lemma slot_cong:
  assumes "\<And>b. b < NBUF \<Longrightarrow> b_dev (bufs t b) = b_dev (bufs s b) \<and> b_sector (bufs t b) = b_sector (bufs s b)"
  shows "slot t k = slot s k"
  unfolding slot_def by (rule find_cong) (use assms in auto)


text \<open>A step that changes one cached buffer \<open>b\<close>, not its key: the abstract state changes at
  the sector of \<open>b\<close> only.\<close>

lemma upd_slot:
  assumes "slot s k = Some b" and "bufs t = (bufs s)(b := x)" and "b_dev x = 1" and "b_sector x = k"
  shows "slot t = slot s"
  by (rule ext, rule slot_cong) (use assms slot_Some [OF assms(1)] in auto)

lemma upd_abs:
  assumes sl: "slot s k = Some b" and t: "bufs t = (bufs s)(b := x)"
    and key: "b_dev x = 1" "b_sector x = k" and d: "\<And>j. j \<noteq> k \<Longrightarrow> memdisk t j = memdisk s j"
  shows "bc_abs t = \<lparr>av_view = (bc_view s)(k := b_data x), av_disk = memdisk t,
           av_held = (bc_held s)(k := if b_busy x then Some b else None),
           av_pinned = (if b_dirty x then insert k (bc_pinned s) else bc_pinned s - {k}),
           av_trace = wtrace t, av_size = disksize t, av_rest = rest t\<rparr>"
proof -
  note sl' = upd_slot [OF sl t key]
  have ne: "j \<noteq> k \<Longrightarrow> slot s j \<noteq> Some b" for j
    using slot_Some [of s j b] slot_Some [OF sl] by auto
  have "bc_view t = (bc_view s)(k := b_data x)"
    by (rule ext) (use sl ne d in \<open>auto simp: bc_view_def sl' t split: option.splits\<close>)
  moreover have "bc_held t = (bc_held s)(k := if b_busy x then Some b else None)"
    by (rule ext) (use sl ne in \<open>auto simp: bc_held_def sl' t split: option.splits\<close>)
  moreover have "bc_pinned t = (if b_dirty x then insert k (bc_pinned s) else bc_pinned s - {k})"
    using sl ne by (auto simp: bc_pinned_def sl' t split: option.splits)
  ultimately show ?thesis by (simp only: bc_abs_def)
qed

lemma upd_inv:
  assumes i: "bc_inv s" and sl: "slot s k = Some b" and t: "bufs t = (bufs s)(b := x)"
    and key: "b_dev x = 1" "b_sector x = k" "b_valid x"
    and links: "b_next x = b_next (bufs s b)" "b_prev x = b_prev (bufs s b)"
    and d: "\<And>j. j \<noteq> k \<Longrightarrow> memdisk t j = memdisk s j" "disksize t = disksize s"
    and coh: "\<not> b_busy x \<Longrightarrow> \<not> b_dirty x \<Longrightarrow> b_data x = memdisk t k"
  shows "bc_inv t"
proof -
  have b: "b < NBUF" "b_dev (bufs s b) = 1" "b_sector (bufs s b) = k"
    using slot_Some [OF sl] by auto
  have same: "b_dev (bufs t c) = b_dev (bufs s c)" "b_sector (bufs t c) = b_sector (bufs s c)" for c
    using key(1,2) b by (simp_all add: t)
  have upd: "bufs t b = x" "c \<noteq> b \<Longrightarrow> bufs t c = bufs s c" for c by (simp_all add: t)
  obtain xs where "ring (bufs s) xs" using bc_ring [OF i] by blast
  moreover have "ring (bufs t) xs = ring (bufs s) xs"
    by (rule ring_cong) (use links in \<open>simp_all add: t\<close>)
  ultimately have "ring (bufs t) xs" by simp
  then show ?thesis
  proof (rule bc_invI)
    fix c c'
    assume c: "c < NBUF" and dv: "b_dev (bufs t c) = 1"
    then have dv': "b_dev (bufs s c) = 1" by (simp only: same)
    note vc = bc_valid [OF i c dv']
    show "b_valid (bufs t c) \<and> b_sector (bufs t c) < disksize t"
      using vc key(2,3) b(3) upd by (cases "c = b") (simp_all add: d(2))
    show "c = c'" if "c' < NBUF" "b_dev (bufs t c') = 1" "b_sector (bufs t c) = b_sector (bufs t c')"
      by (rule bc_uniq [OF i c that(1) dv']) (use that same in simp_all)
    show "b_data (bufs t c) = memdisk t (b_sector (bufs t c))"
      if q: "\<not> b_busy (bufs t c)" "\<not> b_dirty (bufs t c)"
    proof (cases "c = b")
      case True
      with coh q upd key(2) show ?thesis by simp
    next
      case False
      then have "b_sector (bufs s c) \<noteq> k" using bc_uniq [OF i c b(1) dv' b(2)] b(3) by auto
      with False q bc_coherent [OF i c dv'] d(1) upd(2) [OF False] show ?thesis by simp
    qed
  next
    fix c
    assume "c < NBUF" and "b_busy (bufs t c) \<or> b_dirty (bufs t c)"
    then show "b_dev (bufs t c) = 1"
      using bc_used [OF i, of c] key(1) upd by (cases "c = b") simp_all
  qed
qed

lemma held_slot: "bc_held s k = Some b \<Longrightarrow> slot s k = Some b \<and> b_busy (bufs s b)"
  by (auto simp: bc_held_def split: option.splits if_splits)

lemma held_facts:
  assumes "bc_inv s" and "bc_held s k = Some b"
  shows "slot s k = Some b" and "b < NBUF" and "b_dev (bufs s b) = 1" and "b_sector (bufs s b) = k"
    and "b_valid (bufs s b)" and "b_busy (bufs s b)" and "k < disksize s"
    and "b_data (bufs s b) = bc_view s k"
  using assms held_slot [OF assms(2)] slot_Some [of s k b] bc_valid [OF assms(1), of b]
  by (auto simp: bc_view_def)

lemma held_pinned: "bc_held s k = Some b \<Longrightarrow> b_dirty (bufs s b) \<longleftrightarrow> k \<in> bc_pinned s"
  using held_slot [of s k b] by (simp add: bc_pinned_def)

lemma bc_setd:
  assumes i: "bc_inv s" and h: "bc_held s k = Some b"
  shows "\<exists>t. set_bdata b d s = Ok () t \<and> bc_inv t \<and> bc_abs t = (bc_abs s)\<lparr>av_view := (bc_view s)(k := d)\<rparr>"
proof -
  let ?x = "(bufs s b)\<lparr>b_data := d\<rparr>"
  let ?t = "set_buf b (\<lambda>x. x\<lparr>b_data := d\<rparr>) s"
  note f = held_facts [OF i h]
  have "bc_inv ?t" by (rule upd_inv [OF i f(1), where x = ?x]) (use f in simp_all)
  moreover have "bc_abs ?t = (bc_abs s)\<lparr>av_view := (bc_view s)(k := d)\<rparr>"
    by (subst upd_abs [OF f(1), where x = ?x])
      (use f h held_pinned [OF h] in \<open>simp_all add: bc_abs_def fun_upd_idem insert_absorb\<close>)
  ultimately show ?thesis by (simp add: set_bdata_def modifyK_def)
qed

lemma bc_pin:
  assumes i: "bc_inv s" and h: "bc_held s k = Some b"
  shows "\<exists>t. set_dirty b s = Ok () t \<and> bc_inv t \<and>
           bc_abs t = (bc_abs s)\<lparr>av_pinned := insert k (bc_pinned s)\<rparr>"
proof -
  let ?x = "(bufs s b)\<lparr>b_dirty := True\<rparr>"
  let ?t = "set_buf b (\<lambda>x. x\<lparr>b_dirty := True\<rparr>) s"
  note f = held_facts [OF i h]
  have "bc_inv ?t" by (rule upd_inv [OF i f(1), where x = ?x]) (use f in simp_all)
  moreover have "bc_abs ?t = (bc_abs s)\<lparr>av_pinned := insert k (bc_pinned s)\<rparr>"
    by (subst upd_abs [OF f(1), where x = ?x])
      (use f h in \<open>simp_all add: bc_abs_def fun_upd_idem\<close>)
  ultimately show ?thesis by (simp add: set_dirty_def modifyK_def)
qed

lemma bc_wr:
  assumes i: "bc_inv s" and h: "bc_held s k = Some b"
  shows "\<exists>t. bwrite b s = Ok () t \<and> bc_inv t \<and>
           bc_abs t = (bc_abs s)\<lparr>av_disk := (memdisk s)(k := bc_view s k),
              av_pinned := bc_pinned s - {k}, av_trace := wtrace s @ [(k, bc_view s k)]\<rparr>"
proof -
  let ?x = "(bufs s b)\<lparr>b_dirty := False, b_valid := True\<rparr>"
  let ?t = "(set_buf b (\<lambda>_. ?x) s)\<lparr>memdisk := (memdisk s)(k := bc_view s k),
              wtrace := wtrace s @ [(k, bc_view s k)]\<rparr>"
  note f = held_facts [OF i h]
  have "bc_inv ?t" by (rule upd_inv [OF i f(1), where x = ?x]) (use f in simp_all)
  moreover have "rest ?t = rest s" by (simp add: rest_def procs_data_def set_buf_def)
  then have "bc_abs ?t = (bc_abs s)\<lparr>av_disk := (memdisk s)(k := bc_view s k),
              av_pinned := bc_pinned s - {k}, av_trace := wtrace s @ [(k, bc_view s k)]\<rparr>"
    by (subst upd_abs [OF f(1), where x = ?x])
      (use f h in \<open>simp_all add: bc_abs_def fun_upd_idem\<close>)
  moreover have "bwrite b s = Ok () ?t"
    using f by (simp add: bwrite_def memiderw_def Let_def set_buf_def)
  ultimately show ?thesis by blast
qed

text \<open>Moving a buffer in the list changes no abstract state.\<close>

definition unlinked :: "buf \<Rightarrow> buf" where
  "unlinked x = x\<lparr>b_prev := 0, b_next := 0\<rparr>"

lemma unlinked_eqD:
  assumes "unlinked x = unlinked y"
  shows "b_busy x = b_busy y" "b_valid x = b_valid y" "b_dirty x = b_dirty y" "b_dev x = b_dev y"
    "b_sector x = b_sector y" "b_data x = b_data y"
proof -
  have "b_busy (unlinked x) = b_busy (unlinked y)" "b_valid (unlinked x) = b_valid (unlinked y)"
    "b_dirty (unlinked x) = b_dirty (unlinked y)" "b_dev (unlinked x) = b_dev (unlinked y)"
    "b_sector (unlinked x) = b_sector (unlinked y)" "b_data (unlinked x) = b_data (unlinked y)"
    using assms by (simp_all only:)
  then show "b_busy x = b_busy y" "b_valid x = b_valid y" "b_dirty x = b_dirty y"
    "b_dev x = b_dev y" "b_sector x = b_sector y" "b_data x = b_data y"
    by (simp_all add: unlinked_def)
qed

lemma unlinked_upd [simp]:
  "unlinked (x\<lparr>b_prev := p\<rparr>) = unlinked x" "unlinked (x\<lparr>b_next := p\<rparr>) = unlinked x"
  by (simp_all add: unlinked_def)

lemma unlinked_fun_upd: "unlinked x = unlinked (f a) \<Longrightarrow> unlinked ((f(a := x)) c) = unlinked (f c)"
  by simp

lemma unlinked_link_front [simp]: "unlinked (link_front b f c) = unlinked (f c)"
  by (simp add: link_front_def Let_def unlinked_fun_upd del: fun_upd_apply)

lemma unlinked_unlink [simp]: "unlinked (unlink b f c) = unlinked (f c)"
  by (simp add: unlink_def Let_def unlinked_fun_upd del: fun_upd_apply)

lemma abs_cong:
  assumes g: "\<And>c. unlinked (bufs t c) = unlinked (bufs s c)" and "memdisk t = memdisk s"
    and "disksize t = disksize s" and "wtrace t = wtrace s" and "rest t = rest s"
  shows "bc_abs t = bc_abs s"
proof -
  note e = unlinked_eqD [OF g]
  have sl: "slot t j = slot s j" for j by (rule slot_cong) (simp add: e)
  have "bc_view t = bc_view s" "bc_held t = bc_held s" "bc_pinned t = bc_pinned s"
    by (auto simp: bc_view_def bc_held_def bc_pinned_def fun_eq_iff sl e assms(2) split: option.splits)
  with assms show ?thesis by (simp add: bc_abs_def)
qed

lemma relink:
  assumes i: "bc_inv s" and g: "\<And>c. unlinked (g c) = unlinked (bufs s c)" and r: "ring g xs"
  shows "bc_inv (s\<lparr>bufs := g\<rparr>)" and "bc_abs (s\<lparr>bufs := g\<rparr>) = bc_abs s"
proof -
  note e = unlinked_eqD [OF g]
  show "bc_inv (s\<lparr>bufs := g\<rparr>)"
    by (rule bc_invI [of _ xs]) (use r bc_invD [OF i] in \<open>simp_all add: e\<close>)
  show "bc_abs (s\<lparr>bufs := g\<rparr>) = bc_abs s"
    by (rule abs_cong) (simp_all add: g rest_def procs_data_def)
qed

lemma wakeup_inv [simp]: "bc_inv (wakeup c s) = bc_inv s"
  by (simp add: bc_inv_def)

lemma rest_wakeup [simp]: "rest (wakeup c s) = rest s"
  unfolding rest_def procs_data_wakeup by (simp add: wakeup_def wakeup1_def)

lemma wakeup_abs [simp]: "bc_abs (wakeup c s) = bc_abs s"
  by (rule abs_cong) simp_all

lemma bc_rel:
  assumes i: "bc_inv s" and h: "bc_held s k = Some b" and st: "settled (bc_abs s) k"
  shows "\<exists>t. brelse b s = Ok () t \<and> bc_inv t \<and> bc_abs t = (bc_abs s)\<lparr>av_held := (bc_held s)(k := None)\<rparr>"
proof -
  let ?s1 = "s\<lparr>bufs := link_front b (unlink b (bufs s))\<rparr>"
  let ?x = "(bufs ?s1 b)\<lparr>b_busy := False\<rparr>"
  let ?t = "set_buf b (\<lambda>x. x\<lparr>b_busy := False\<rparr>) ?s1"
  obtain xs where r: "ring (bufs s) xs" using bc_ring [OF i] by blast
  with held_facts(2) [OF i h] obtain as bs where "xs = as @ b # bs"
    by (metis lessThan_iff ring_def split_list)
  with r have r1: "ring (bufs ?s1) (b # as @ bs)" using brelse_ring by simp
  have i1: "bc_inv ?s1" and a1: "bc_abs ?s1 = bc_abs s"
    using relink [OF i _ r1] by simp_all
  from a1 have v1: "bc_view ?s1 = bc_view s" "bc_held ?s1 = bc_held s" "bc_pinned ?s1 = bc_pinned s"
    by (simp_all add: bc_abs_def)
  note f = held_facts [OF i1 h [folded v1(2)]] and p = held_pinned [OF h [folded v1(2)]]
  have coh: "\<not> b_dirty ?x \<Longrightarrow> b_data ?x = memdisk s k"
    using st f(8) p v1 by (auto simp: settled_def bc_abs_def)
  have "bc_inv ?t"
    by (rule upd_inv [OF i1 f(1), where x = ?x]) (use f coh in simp_all)
  moreover have "bc_abs ?t = (bc_abs s)\<lparr>av_held := (bc_held s)(k := None)\<rparr>"
    unfolding a1 [symmetric]
    by (subst upd_abs [OF f(1), where x = ?x])
      (use f v1 p in \<open>simp_all add: bc_abs_def fun_upd_idem insert_absorb\<close>)
  moreover have "brelse b s = Ok () (wakeup (Chan_buf b) ?t)"
    using held_facts [OF i h] by (simp add: brelse_def Let_def)
  ultimately show ?thesis by simp
qed

text \<open>\<open>bread\<close>. A miss recycles a buffer \<open>b\<close> that is neither busy nor dirty; such a buffer
  exists because distinct busy or dirty buffers cache distinct sectors.\<close>

lemma free_buffer:
  assumes i: "bc_inv s" and room: "card (dom (bc_held s) \<union> bc_pinned s) < NBUF"
  shows "\<exists>b<NBUF. \<not> b_busy (bufs s b) \<and> \<not> b_dirty (bufs s b)"
proof (rule ccontr)
  assume "\<not> ?thesis"
  then have used: "b_busy (bufs s b) \<or> b_dirty (bufs s b)" if "b < NBUF" for b using that by auto
  let ?sec = "\<lambda>b. b_sector (bufs s b)"
  note dev = bc_used [OF i _ used]
  have "inj_on ?sec {..<NBUF}"
    by (rule inj_onI) (use bc_uniq [OF i] dev in auto)
  then have "card (?sec ` {..<NBUF}) = NBUF" by (simp add: card_image)
  moreover have "?sec ` {..<NBUF} = dom (bc_held s) \<union> bc_pinned s"
  proof (intro equalityI subsetI)
    fix k
    assume "k \<in> ?sec ` {..<NBUF}"
    then obtain b where b: "b < NBUF" "k = ?sec b" by auto
    then have "slot s k = Some b" using slotI [OF i] dev by simp
    with used [OF b(1)] show "k \<in> dom (bc_held s) \<union> bc_pinned s"
      by (auto simp: bc_held_def bc_pinned_def dom_def)
  next
    fix k
    assume "k \<in> dom (bc_held s) \<union> bc_pinned s"
    then obtain b where "slot s k = Some b"
      by (auto simp: bc_held_def bc_pinned_def split: option.splits)
    then show "k \<in> ?sec ` {..<NBUF}" using slot_Some by blast
  qed
  ultimately show False using room by simp
qed

lemma bget_hit:
  assumes i: "bc_inv s" and sl: "slot s k = Some b" and free: "\<not> b_busy (bufs s b)"
  shows "bget 1 k s = Ok b (set_buf b (\<lambda>x. x\<lparr>b_busy := True\<rparr>) s)"
proof -
  obtain xs where r: "ring (bufs s) xs" using bc_ring [OF i] by blast
  let ?P = "\<lambda>c. b_dev (bufs s c) = 1 \<and> b_sector (bufs s c) = k"
  have b: "b < NBUF" "?P b" using slot_Some [OF sl] by auto
  then have "b \<in> set xs" using r by (simp add: ring_def)
  with b have "find ?P xs \<noteq> None" by (auto simp: find_None_iff)
  then obtain c where c: "find ?P xs = Some c" by auto
  then have "c \<in> set xs" "?P c" using find_SomeD [OF c] by simp_all
  then have "c = b" using bc_uniq [OF i, of c b] b r by (simp add: ring_def)
  with c scan_ring(1) [OF r, of ?P] free show ?thesis by (simp add: bget_def)
qed

lemma bget_miss:
  assumes i: "bc_inv s" and sl: "slot s k = None"
    and room: "card (dom (bc_held s) \<union> bc_pinned s) < NBUF"
  shows "\<exists>b<NBUF. \<not> b_busy (bufs s b) \<and> \<not> b_dirty (bufs s b) \<and>
           bget 1 k s = Ok b (set_buf b (\<lambda>x. x\<lparr>b_dev := 1, b_sector := k, b_busy := True,
              b_valid := False, b_dirty := False\<rparr>) s)"
proof -
  obtain xs where r: "ring (bufs s) xs" using bc_ring [OF i] by blast
  let ?P = "\<lambda>c. b_dev (bufs s c) = 1 \<and> b_sector (bufs s c) = k"
  let ?F = "\<lambda>c. \<not> b_busy (bufs s c) \<and> \<not> b_dirty (bufs s c)"
  have miss: "find ?P xs = None" using sl r by (auto simp: find_None_iff slot_None ring_def)
  obtain f where "f < NBUF" "?F f" using free_buffer [OF i room] by blast
  then have "find ?F (rev xs) \<noteq> None" using r by (auto simp: find_None_iff ring_def)
  then obtain b where b: "find ?F (rev xs) = Some b" by auto
  then have "b \<in> set xs" "?F b" using find_SomeD [OF b] by simp_all
  then have "b < NBUF" using r by (simp add: ring_def)
  moreover have "bget 1 k s = Ok b (set_buf b (\<lambda>x. x\<lparr>b_dev := 1, b_sector := k, b_busy := True,
      b_valid := False, b_dirty := False\<rparr>) s)"
    using scan_ring(1) [OF r, of ?P] scan_ring(2) [OF r, of ?F] b miss
    by (simp add: bget_def del: scan.simps)
  ultimately show ?thesis using \<open>?F b\<close> by blast
qed

text \<open>The state after a miss: buffer \<open>b\<close>, idle before, now caches sector \<open>k\<close>, busy, with
  the content of the disk.\<close>

lemma recycle:
  assumes i: "bc_inv s" and sl: "slot s k = None" and k: "k < disksize s"
    and b: "b < NBUF" "\<not> b_busy (bufs s b)" "\<not> b_dirty (bufs s b)"
    and x: "b_dev x = 1" "b_sector x = k" "b_busy x" "b_valid x" "\<not> b_dirty x"
      "b_data x = memdisk s k" "b_next x = b_next (bufs s b)" "b_prev x = b_prev (bufs s b)"
    and t: "t = set_buf b (\<lambda>_. x) s"
  shows "bc_inv t" and "bc_abs t = (bc_abs s)\<lparr>av_held := (bc_held s)(k \<mapsto> b)\<rparr>"
proof -
  have upd: "bufs t b = x" "c \<noteq> b \<Longrightarrow> bufs t c = bufs s c" for c by (simp_all add: t)
  have frame: "memdisk t = memdisk s" "disksize t = disksize s" by (simp_all add: t)
  have none: "c < NBUF \<Longrightarrow> b_dev (bufs s c) = 1 \<Longrightarrow> b_sector (bufs s c) \<noteq> k" for c
    using sl by (auto simp: slot_None)
  obtain xs where "ring (bufs s) xs" using bc_ring [OF i] by blast
  moreover have "ring (bufs t) xs = ring (bufs s) xs"
    by (rule ring_cong) (use x in \<open>simp_all add: t\<close>)
  ultimately have "ring (bufs t) xs" by simp
  then show it: "bc_inv t"
  proof (rule bc_invI)
    fix c c'
    assume c: "c < NBUF" "b_dev (bufs t c) = 1"
    show "b_valid (bufs t c) \<and> b_sector (bufs t c) < disksize t"
      using bc_valid [OF i, of c] c x k upd frame by (cases "c = b") simp_all
    show "b_data (bufs t c) = memdisk t (b_sector (bufs t c))"
      if "\<not> b_busy (bufs t c)" "\<not> b_dirty (bufs t c)"
      using bc_coherent [OF i, of c] c x that upd frame by (cases "c = b") simp_all
    show "c = c'" if "c' < NBUF" "b_dev (bufs t c') = 1" "b_sector (bufs t c) = b_sector (bufs t c')"
      using bc_uniq [OF i c(1), of c'] none [of c] none [of c'] c that x upd
      by (cases "c = b"; cases "c' = b") simp_all
  next
    fix c
    assume "c < NBUF" "b_busy (bufs t c) \<or> b_dirty (bufs t c)"
    then show "b_dev (bufs t c) = 1"
      using bc_used [OF i, of c] x upd by (cases "c = b") simp_all
  qed
  have slb: "slot t k = Some b" by (rule slotI [OF it]) (use b x upd in simp_all)
  have sl_other: "slot t j = (if slot s j = Some b then None else slot s j)" if "j \<noteq> k" for j
  proof (cases "slot s j")
    case None
    then have "slot t j = None" using that x by (simp add: slot_None t)
    with None show ?thesis by simp
  next
    case (Some c)
    note c = slot_Some [OF Some]
    show ?thesis
    proof (cases "c = b")
      case True
      have "slot t j = None"
        unfolding slot_None using bc_uniq [OF i _ b(1)] c True that x upd by (auto simp: t)
      with Some True show ?thesis by simp
    next
      case False
      then have "slot t j = Some c" by (intro slotI [OF it]) (use c upd in simp_all)
      with Some False show ?thesis by simp
    qed
  qed
  have evicted: "bc_view s j = memdisk s j" if "slot s j = Some b" for j
    using slot_Some [OF that] bc_coherent [OF i] b that by (auto simp: bc_view_def)
  have "bc_view t j = bc_view s j" for j
    using evicted [of j] slb sl_other [of j] sl x frame upd
    by (cases "j = k") (auto simp: bc_view_def split: option.splits)
  then have "bc_view t = bc_view s" by (rule ext)
  moreover have "bc_held t j = ((bc_held s)(k \<mapsto> b)) j" for j
    using slb sl_other [of j] sl x upd b by (cases "j = k") (auto simp: bc_held_def split: option.splits)
  then have "bc_held t = (bc_held s)(k \<mapsto> b)" by (rule ext)
  moreover have "j \<in> bc_pinned t \<longleftrightarrow> j \<in> bc_pinned s" for j
    using slb sl_other [of j] sl x upd b
    by (cases "j = k") (auto simp: bc_pinned_def split: option.splits)
  then have "bc_pinned t = bc_pinned s" by blast
  ultimately show "bc_abs t = (bc_abs s)\<lparr>av_held := (bc_held s)(k \<mapsto> b)\<rparr>"
    by (simp add: bc_abs_def t)
qed

lemma bc_rd:
  assumes i: "bc_inv s" and h: "bc_held s k = None" and k: "k < disksize s"
    and room: "k \<in> bc_pinned s \<or> card (dom (bc_held s) \<union> bc_pinned s) < NBUF"
  shows "\<exists>b t. bread 1 k s = Ok b t \<and> bc_inv t \<and>
           bc_abs t = (bc_abs s)\<lparr>av_held := (bc_held s)(k \<mapsto> b)\<rparr>"
proof (cases "slot s k")
  case (Some b)
  let ?x = "(bufs s b)\<lparr>b_busy := True\<rparr>"
  let ?t = "set_buf b (\<lambda>x. x\<lparr>b_busy := True\<rparr>) s"
  have free: "\<not> b_busy (bufs s b)" using h Some by (auto simp: bc_held_def split: if_splits)
  note f = slot_Some [OF Some]
  have v: "b_valid (bufs s b)" using bc_valid [OF i] f by blast
  have "b_data (bufs s b) = bc_view s k" "b_dirty (bufs s b) \<longleftrightarrow> k \<in> bc_pinned s"
    using Some by (simp_all add: bc_view_def bc_pinned_def)
  then have "bc_abs ?t = (bc_abs s)\<lparr>av_held := (bc_held s)(k \<mapsto> b)\<rparr>"
    by (subst upd_abs [OF Some, where x = ?x])
      (use f in \<open>simp_all add: bc_abs_def fun_upd_idem insert_absorb\<close>)
  moreover have "bc_inv ?t" by (rule upd_inv [OF i Some, where x = ?x]) (use f v in simp_all)
  moreover have "bread 1 k s = Ok b ?t"
    using bget_hit [OF i Some free] v by (simp add: bread_def monad_simps)
  ultimately show ?thesis by blast
next
  case None
  then have "k \<notin> bc_pinned s" by (simp add: bc_pinned_def)
  with room have r: "card (dom (bc_held s) \<union> bc_pinned s) < NBUF" by simp
  obtain b where b: "b < NBUF" "\<not> b_busy (bufs s b)" "\<not> b_dirty (bufs s b)"
    and g: "bget 1 k s = Ok b (set_buf b (\<lambda>x. x\<lparr>b_dev := 1, b_sector := k, b_busy := True,
              b_valid := False, b_dirty := False\<rparr>) s)"
    using bget_miss [OF i None r] by blast
  let ?x = "(bufs s b)\<lparr>b_dev := 1, b_sector := k, b_busy := True, b_dirty := False,
              b_data := memdisk s k, b_valid := True\<rparr>"
  let ?t = "set_buf b (\<lambda>_. ?x) s"
  have "bread 1 k s = Ok b ?t"
    using g k by (simp add: bread_def bindK_def memiderw_def Let_def set_buf_def)
  moreover have "bc_inv ?t" "bc_abs ?t = (bc_abs s)\<lparr>av_held := (bc_held s)(k \<mapsto> b)\<rparr>"
    by (rule recycle [OF i None k b, of ?x]; simp)+
  ultimately show ?thesis by blast
qed

interpretation bc: buffer_cache bc_inv bc_abs "bread 1" bdata set_bdata bwrite brelse set_dirty
  bdev bsector
proof
  show "settled (bc_abs s) k" if "bc_inv s" "av_held (bc_abs s) k = None" for s k
    using that bc_coherent [OF that(1)] slot_Some [of s k]
    by (auto simp: settled_def bc_abs_def bc_held_def bc_pinned_def bc_view_def
        split: option.splits if_splits)
  show "finite (av_pinned (bc_abs s)) \<and> finite (dom (av_held (bc_abs s)))" if "bc_inv s" for s
  proof -
    have "bc_pinned s \<union> dom (bc_held s) \<subseteq> (\<lambda>b. b_sector (bufs s b)) ` {..<NBUF}"
      by (auto simp: bc_held_def bc_pinned_def split: option.splits if_splits dest!: slot_Some)
    then have "finite (bc_pinned s \<union> dom (bc_held s))" by (rule finite_subset) simp
    then show ?thesis by (simp add: bc_abs_def)
  qed
qed (use bc_rd bc_setd bc_wr bc_rel bc_pin held_facts in
    \<open>simp_all add: bc_abs_def room_def bdata_def bdev_def bsector_def getsK_def\<close>)

section \<open>The rest of the kernel state in symbolic execution\<close>

lemma rest_fields [simp]:
  "logs (rest s) = logs s" "inodes (rest s) = inodes s" "files (rest s) = files s"
  "devs (rest s) = devs s" "pipes (rest s) = pipes s" "cur (rest s) = cur s"
  "disksize (rest s) = disksize s" "cons (rest s) = cons s" "input (rest s) = input s"
  "kmem (rest s) = kmem s" "ticks (rest s) = ticks s"
  by (simp_all add: rest_def)

lemma bc_abs_fields [simp]:
  "av_view (bc_abs s) = bc_view s" "av_disk (bc_abs s) = memdisk s" "av_held (bc_abs s) = bc_held s"
  "av_pinned (bc_abs s) = bc_pinned s" "av_trace (bc_abs s) = wtrace s"
  "av_size (bc_abs s) = disksize s" "av_rest (bc_abs s) = rest s"
  by (simp_all add: bc_abs_def)

lemma bind_gets_rest:
  assumes "\<And>s. h s = h (rest s)" and "hoare (bc.at A) (f (h (av_rest A))) Q"
  shows "hoare (bc.at A) (bindK (getsK h) f) Q"
proof (rule hoareI)
  fix s
  assume s: "bc.at A s"
  then have "rest s = av_rest A" by (auto simp: bc.at_def bc_abs_def)
  then have "h s = h (av_rest A)" using assms(1) [of s] by simp
  with s assms(2) show "\<exists>x t. bindK (getsK h) f s = Ok x t \<and> Q x t" by (simp add: hoare_def)
qed

lemma bind_modify_rest:
  assumes "\<And>s. bc_inv (g s) = bc_inv s" and "\<And>s. bc_abs (g s) = (bc_abs s)\<lparr>av_rest := g (rest s)\<rparr>"
    and "hoare (bc.at (A\<lparr>av_rest := g (av_rest A)\<rparr>)) (f ()) Q"
  shows "hoare (bc.at A) (bindK (modifyK g) f) Q"
proof (rule hoareI)
  fix s
  assume s: "bc.at A s"
  have "av_rest (bc_abs s) = rest s" by (simp add: bc_abs_def)
  with s assms(1,2) have "bc.at (A\<lparr>av_rest := g (av_rest A)\<rparr>) (g s)" by (auto simp: bc.at_def)
  with assms(3) show "\<exists>x t. bindK (modifyK g) f s = Ok x t \<and> Q x t" by (simp add: hoare_def)
qed

text \<open>The updates of other components leave the cache alone.\<close>

lemma bc_frame:
  assumes "bufs t = bufs s" and "memdisk t = memdisk s" and "disksize t = disksize s"
    and "wtrace t = wtrace s"
  shows "bc_inv t = bc_inv s" and "bc_abs t = (bc_abs s)\<lparr>av_rest := rest t\<rparr>"
proof -
  show "bc_inv t = bc_inv s" unfolding bc_inv_def assms ..
  have "bc_view t = bc_view s" "bc_held t = bc_held s" "bc_pinned t = bc_pinned s"
    unfolding bc_view_def bc_held_def bc_pinned_def slot_def assms by (rule refl)+
  then show "bc_abs t = (bc_abs s)\<lparr>av_rest := rest t\<rparr>" by (simp add: bc_abs_def assms)
qed

lemma bind_set_logs:
  assumes "hoare (bc.at (A\<lparr>av_rest := (av_rest A)\<lparr>logs := g (logs (av_rest A))\<rparr>\<rparr>)) (f ()) Q"
  shows "hoare (bc.at A) (bindK (modifyK (\<lambda>s. s\<lparr>logs := g (logs s)\<rparr>)) f) Q"
proof (rule bind_modify_rest)
  fix s :: kernel
  let ?t = "s\<lparr>logs := g (logs s)\<rparr>"
  note fr = bc_frame [of ?t s]
  show "bc_inv ?t = bc_inv s" by (rule fr) simp_all
  have "rest ?t = (rest s)\<lparr>logs := g (logs (rest s))\<rparr>" by (simp add: rest_def procs_data_def)
  with fr(2) show "bc_abs ?t = (bc_abs s)\<lparr>av_rest := (rest s)\<lparr>logs := g (logs (rest s))\<rparr>\<rparr>" by simp
qed (use assms in simp)

section \<open>binit establishes the invariant\<close>

text \<open>\<open>binit\<close> runs on a cache in zeroed memory: no flag is set. It links all buffers and gives
  them the device number \<open>-1\<close>, which no disk has.\<close>

lemma binit_links:
  fixes f :: "nat \<Rightarrow> buf"
  assumes "n \<le> NBUF"
  defines "g \<equiv> foldl (\<lambda>f b. link_front b (f(b := (f b)\<lparr>b_dev := 4294967295\<rparr>)))
                 (f(NBUF := (f NBUF)\<lparr>b_prev := NBUF, b_next := NBUF\<rparr>)) [0..<n]"
  shows "dll g NBUF (rev [0..<n]) NBUF"
    and "\<And>c. c < n \<Longrightarrow> b_dev (g c) = 4294967295"
    and "\<And>c. b_busy (g c) = b_busy (f c)" and "\<And>c. b_dirty (g c) = b_dirty (f c)"
  unfolding g_def using assms(1)
proof (induction n)
  case (Suc n)
  define h where "h = foldl (\<lambda>f b. link_front b (f(b := (f b)\<lparr>b_dev := 4294967295\<rparr>)))
                 (f(NBUF := (f NBUF)\<lparr>b_prev := NBUF, b_next := NBUF\<rparr>)) [0..<n]"
  let ?h = "h(n := (h n)\<lparr>b_dev := 4294967295\<rparr>)"
  note IH = Suc.IH [folded h_def]
  note u = unlinked_eqD [OF unlinked_link_front, of n ?h]
  have step: "foldl (\<lambda>f b. link_front b (f(b := (f b)\<lparr>b_dev := 4294967295\<rparr>)))
                 (f(NBUF := (f NBUF)\<lparr>b_prev := NBUF, b_next := NBUF\<rparr>)) [0..<Suc n] = link_front n ?h"
    by (simp add: h_def)
  {
    case 1
    then have "dll h NBUF (rev [0..<n]) NBUF" using IH(1) by simp
    then have "dll ?h NBUF (rev [0..<n]) NBUF" using dll_cong [of NBUF _ ?h h NBUF] by auto
    then have "dll (link_front n ?h) NBUF (n # rev [0..<n]) NBUF"
      by (rule link_front_dll) (use 1 in auto)
    then show ?case unfolding step by simp
  next
    case 2
    then show ?case unfolding step using IH(2) u(4) by (auto simp: less_Suc_eq)
  next
    case 3
    then show ?case unfolding step using IH(3) u(1) by auto
  next
    case 4
    then show ?case unfolding step using IH(4) u(3) by auto
  }
qed auto

lemma binit_inv:
  assumes "\<forall>b<NBUF. \<not> b_busy (bufs s b) \<and> \<not> b_dirty (bufs s b)"
  shows "bc_inv (binit s)" and "\<And>k. slot (binit s) k = None"
proof -
  note l = binit_links [where n = NBUF and f = "bufs s", OF order_refl]
  have b: "bufs (binit s) = foldl (\<lambda>f b. link_front b (f(b := (f b)\<lparr>b_dev := 4294967295\<rparr>)))
     ((bufs s)(NBUF := (bufs s NBUF)\<lparr>b_prev := NBUF, b_next := NBUF\<rparr>)) [0..<NBUF]"
    by (simp add: binit_def Let_def)
  have r: "ring (bufs (binit s)) (rev [0..<NBUF])"
    unfolding ring_def b using l(1) by auto
  show "bc_inv (binit s)"
    by (rule bc_invI [OF r]) (use assms l(2-4) in \<open>simp_all add: b\<close>)
  show "slot (binit s) k = None" for k
    unfolding slot_None using l(2) by (simp add: b)
qed

end
