(* ===== verification/Layout.thy ===== *)
theory Layout
  imports Kernel_State
begin

text \<open>
  The on-disk format of kernel/include/fs.h: how the fields of the super block, of a disk
  inode and of a directory entry lie in the bytes of a block (little endian, the struct layout
  of the i386 ABI), and the block numbers of the inode and bitmap regions.
\<close>

section \<open>Little-endian fields\<close>

definition get16 :: "blk \<Rightarrow> nat \<Rightarrow> ushort" where
  "get16 d n = ucast (d n) OR push_bit 8 (ucast (d (n + 1)))"

definition put16 :: "blk \<Rightarrow> nat \<Rightarrow> ushort \<Rightarrow> blk" where
  "put16 d n v = d(n := ucast v, n + 1 := ucast (drop_bit 8 v))"

definition get32 :: "blk \<Rightarrow> nat \<Rightarrow> uint" where
  "get32 d n = ucast (d n) OR push_bit 8 (ucast (d (n + 1))) OR
     push_bit 16 (ucast (d (n + 2))) OR push_bit 24 (ucast (d (n + 3)))"

definition put32 :: "blk \<Rightarrow> nat \<Rightarrow> uint \<Rightarrow> blk" where
  "put32 d n v = d(n := ucast v, n + 1 := ucast (drop_bit 8 v),
     n + 2 := ucast (drop_bit 16 v), n + 3 := ucast (drop_bit 24 v))"

lemma get16_put16 [simp]: "get16 (put16 d n v) n = v"
  unfolding get16_def put16_def
  by (rule bit_word_eqI) (auto simp: bit_simps)

lemma get32_put32 [simp]: "get32 (put32 d n v) n = v"
proof (rule bit_word_eqI)
  fix i
  assume "i < LENGTH(32)"
  then consider "i < 8" | "8 \<le> i" "i < 16" | "16 \<le> i" "i < 24" | "24 \<le> i" "i < 32" by force
  then show "bit (get32 (put32 d n v) n) i = bit v i"
    by cases (auto simp: get32_def put32_def bit_simps)
qed

lemma put16_other: "m < n \<or> n + 2 \<le> m \<Longrightarrow> put16 d n v m = d m"
  by (auto simp: put16_def)

lemma put32_other: "m < n \<or> n + 4 \<le> m \<Longrightarrow> put32 d n v m = d m"
  by (auto simp: put32_def)

lemma get16_cong:
  assumes "\<And>i. n \<le> i \<Longrightarrow> i < n + 2 \<Longrightarrow> d i = d' i"
  shows "get16 d n = get16 d' n"
  using assms by (simp add: get16_def)

lemma get32_cong:
  assumes "\<And>i. n \<le> i \<Longrightarrow> i < n + 4 \<Longrightarrow> d i = d' i"
  shows "get32 d n = get32 d' n"
  using assms by (simp add: get32_def)

lemma get_put_other [simp]:
  "m + 2 \<le> n \<or> n + 2 \<le> m \<Longrightarrow> get16 (put16 d n v) m = get16 d m"
  "m + 2 \<le> n \<or> n + 4 \<le> m \<Longrightarrow> get16 (put32 d n w) m = get16 d m"
  "m + 4 \<le> n \<or> n + 2 \<le> m \<Longrightarrow> get32 (put16 d n v) m = get32 d m"
  "m + 4 \<le> n \<or> n + 4 \<le> m \<Longrightarrow> get32 (put32 d n w) m = get32 d m"
  by (auto intro!: get16_cong get32_cong put16_other put32_other)

section \<open>The super block\<close>

record superblock =
  sb_size :: uint
  sb_nblocks :: uint
  sb_ninodes :: uint
  sb_nlog :: uint

definition get_sb :: "blk \<Rightarrow> superblock" where
  "get_sb d = \<lparr>sb_size = get32 d 0, sb_nblocks = get32 d 4, sb_ninodes = get32 d 8, sb_nlog = get32 d 12\<rparr>"

section \<open>Disk inodes\<close>

definition NDIRECT :: nat where "NDIRECT = 12"
definition NINDIRECT :: nat where "NINDIRECT = BSIZE div 4"
definition MAXFILE :: nat where "MAXFILE = NDIRECT + NINDIRECT"
definition ROOTINO :: nat where "ROOTINO = 1"
definition IPB :: nat where "IPB = BSIZE div 64"
definition BPB :: nat where "BPB = BSIZE * 8"
definition DIRSIZ :: nat where "DIRSIZ = 14"

definition IBLOCK :: "nat \<Rightarrow> nat" where
  "IBLOCK i = i div IPB + 2"

definition BBLOCK :: "nat \<Rightarrow> nat \<Rightarrow> nat" where
  "BBLOCK b ninodes = b div BPB + ninodes div IPB + 3"

lemma layout_consts [layout]:
  "NDIRECT = 12" "NINDIRECT = 128" "MAXFILE = 140" "ROOTINO = 1" "IPB = 8" "BPB = 4096" "DIRSIZ = 14"
  "IBLOCK i = i div 8 + 2" "BBLOCK b n = b div 4096 + n div 8 + 3"
  by (simp_all add: NDIRECT_def NINDIRECT_def MAXFILE_def ROOTINO_def IPB_def BPB_def DIRSIZ_def
      IBLOCK_def BBLOCK_def BSIZE_def)

text \<open>\<open>struct dinode\<close>: 64 bytes. \<open>di_addrs\<close> is the array of \<open>NDIRECT+1\<close> block addresses.\<close>

record dinode =
  di_type :: ushort
  di_major :: ushort
  di_minor :: ushort
  di_nlink :: ushort
  di_size :: uint
  di_addrs :: "uint list"

definition get_dinode :: "blk \<Rightarrow> nat \<Rightarrow> dinode" where
  "get_dinode d n =
     \<lparr>di_type = get16 d n, di_major = get16 d (n + 2), di_minor = get16 d (n + 4),
      di_nlink = get16 d (n + 6), di_size = get32 d (n + 8),
      di_addrs = map (\<lambda>i. get32 d (n + 12 + 4 * i)) [0..<NDIRECT + 1]\<rparr>"

fun put32s :: "blk \<Rightarrow> nat \<Rightarrow> uint list \<Rightarrow> blk" where
  "put32s d n [] = d"
| "put32s d n (v # vs) = put32s (put32 d n v) (n + 4) vs"

definition put_dinode :: "blk \<Rightarrow> nat \<Rightarrow> dinode \<Rightarrow> blk" where
  "put_dinode d n x =
     put32s (put32 (put16 (put16 (put16 (put16 d n (di_type x)) (n + 2) (di_major x))
       (n + 4) (di_minor x)) (n + 6) (di_nlink x)) (n + 8) (di_size x)) (n + 12) (di_addrs x)"

lemma put32s_other: "m < n \<or> n + 4 * length vs \<le> m \<Longrightarrow> put32s d n vs m = d m"
  by (induction vs arbitrary: d n) (auto simp: put32_other)

lemma get_put32s_other [simp]:
  "m + 2 \<le> n \<or> n + 4 * length vs \<le> m \<Longrightarrow> get16 (put32s d n vs) m = get16 d m"
  "m + 4 \<le> n \<or> n + 4 * length vs \<le> m \<Longrightarrow> get32 (put32s d n vs) m = get32 d m"
  by (auto intro!: get16_cong get32_cong put32s_other)

lemma get32_put32s: "i < length vs \<Longrightarrow> get32 (put32s d n vs) (n + 4 * i) = vs ! i"
proof (induction vs arbitrary: d n i)
  case (Cons v vs)
  show ?case
  proof (cases i)
    case (Suc j)
    with Cons.IH [of j "put32 d n v" "n + 4"] Cons.prems show ?thesis by (simp add: algebra_simps)
  qed simp
qed simp

lemma get_put_dinode [simp]:
  assumes "length (di_addrs x) = NDIRECT + 1"
  shows "get_dinode (put_dinode d n x) n = x"
proof -
  have "map (\<lambda>i. get32 (put32s e (n + 12) (di_addrs x)) (n + 12 + 4 * i)) [0..<NDIRECT + 1] = di_addrs x"
    for e by (rule nth_equalityI) (use assms get32_put32s in \<open>auto simp del: upt_Suc\<close>)
  then show ?thesis by (simp add: get_dinode_def put_dinode_def del: upt_Suc)
qed

lemma put_dinode_other:
  assumes "length (di_addrs x) = NDIRECT + 1" and "m < n \<or> n + 64 \<le> m"
  shows "put_dinode d n x m = d m"
  using assms by (auto simp: put_dinode_def put32s_other put32_other put16_other layout)

lemma get_dinode_cong:
  assumes "\<And>i. n \<le> i \<Longrightarrow> i < n + 64 \<Longrightarrow> d i = d' i"
  shows "get_dinode d n = get_dinode d' n"
  unfolding get_dinode_def using assms
  by (auto intro!: get16_cong get32_cong simp: layout)

lemma get_put_dinode_other:
  assumes "length (di_addrs x) = NDIRECT + 1" and "m + 64 \<le> n \<or> n + 64 \<le> m"
  shows "get_dinode (put_dinode d n x) m = get_dinode d m"
  by (rule get_dinode_cong) (use assms put_dinode_other in auto)

end
