(* ===== verification/Log.thy ===== *)
theory Log
  imports Bio_Spec Layout
begin

text \<open>
  The redo log (kernel/log.c), with \<open>readsb\<close> of kernel/fs.c, which \<open>initlog\<close> calls. The
  operations are written against \<open>Bio\<close>; their proofs use only the interface of \<open>Bio_Spec\<close>.
  The last section is about crashes: a crash keeps a prefix of the sector writes that the
  memory disk has seen.
\<close>

section \<open>Operations\<close>

definition readsb :: "nat \<Rightarrow> superblock km" where
  "readsb dev =
     bindK (bread dev 1) (\<lambda>bp.
     bindK (bdata bp) (\<lambda>d.
     bindK (brelse bp) (\<lambda>_.
     returnK (get_sb d))))"

text \<open>\<open>log.lh.n = n\<close> and \<open>log.lh.sector[i] = k\<close>.\<close>

definition set_n :: "int \<Rightarrow> unit km" where
  "set_n n = modifyK (\<lambda>s. s\<lparr>logs := (logs s)\<lparr>l_n := n\<rparr>\<rparr>)"

definition set_sector :: "nat \<Rightarrow> nat \<Rightarrow> unit km" where
  "set_sector i k =
     (if i < LOGSIZE
      then modifyK (\<lambda>s. s\<lparr>logs := (logs s)\<lparr>l_sector := (l_sector (logs s))(i := k)\<rparr>\<rparr>)
      else faultK ''log.lh.sector'')"

definition install_trans :: "unit km" where
  "install_trans =
     bindK (getsK (\<lambda>s. l_n (logs s))) (\<lambda>n.
     forK [0..<nat n] (\<lambda>tail.
       bindK (getsK logs) (\<lambda>l.
       bindK (bread (l_dev l) (l_start l + tail + 1)) (\<lambda>lbuf.
       bindK (bread (l_dev l) (l_sector l tail)) (\<lambda>dbuf.
       bindK (bdata lbuf) (\<lambda>d.
       bindK (set_bdata dbuf d) (\<lambda>_.
       bindK (bwrite dbuf) (\<lambda>_.
       bindK (brelse lbuf) (\<lambda>_.
       brelse dbuf)))))))))"

text \<open>\<open>struct logheader\<close>: \<open>n\<close> at offset 0, \<open>sector[i]\<close> at offset \<open>4 + 4*i\<close>.\<close>

definition read_head :: "unit km" where
  "read_head =
     bindK (getsK logs) (\<lambda>l.
     bindK (bread (l_dev l) (l_start l)) (\<lambda>buf.
     bindK (bdata buf) (\<lambda>lh.
     bindK (set_n (sint (get32 lh 0))) (\<lambda>_.
     bindK (forK [0..<nat (sint (get32 lh 0))] (\<lambda>i. set_sector i (unat (get32 lh (4 + 4 * i))))) (\<lambda>_.
     brelse buf)))))"

definition write_head :: "unit km" where
  "write_head =
     bindK (getsK logs) (\<lambda>l.
     bindK (bread (l_dev l) (l_start l)) (\<lambda>buf.
     bindK (bdata buf) (\<lambda>d.
     bindK (set_bdata buf (put32 d 0 (word_of_int (l_n l)))) (\<lambda>_.
     bindK (forK [0..<nat (l_n l)] (\<lambda>i.
       if i < LOGSIZE
       then bindK (bdata buf) (\<lambda>d. set_bdata buf (put32 d (4 + 4 * i) (word_of_nat (l_sector l i))))
       else faultK ''log.lh.sector'')) (\<lambda>_.
     bindK (bwrite buf) (\<lambda>_.
     brelse buf))))))"

definition recover_from_log :: "unit km" where
  "recover_from_log =
     bindK read_head (\<lambda>_.
     bindK install_trans (\<lambda>_.
     bindK (set_n 0) (\<lambda>_.
     write_head)))"

text \<open>The guard of \<open>initlog\<close> compares \<open>sizeof(struct logheader)\<close>, \<open>4 + 4*LOGSIZE\<close> bytes,
  with the block size.\<close>

definition initlog :: "unit km" where
  "initlog =
     (if 4 + 4 * LOGSIZE \<ge> BSIZE then panicK ''initlog: too big logheader''
      else
        bindK (readsb ROOTDEV) (\<lambda>sb.
        bindK (modifyK (\<lambda>s. s\<lparr>logs := (logs s)\<lparr>l_start := unat (sb_size sb - sb_nlog sb),
                                               l_size := unat (sb_nlog sb),
                                               l_dev := ROOTDEV\<rparr>\<rparr>)) (\<lambda>_.
        recover_from_log)))"

definition begin_trans :: "unit km" where
  "begin_trans s =
     (if l_busy (logs s) then Sleeps Chan_log s
      else Ok () (s\<lparr>logs := (logs s)\<lparr>l_busy := True\<rparr>\<rparr>))"

definition commit_trans :: "unit km" where
  "commit_trans =
     bindK (getsK (\<lambda>s. l_n (logs s))) (\<lambda>n.
     bindK (whenK (n > 0)
       (bindK write_head (\<lambda>_.
        bindK install_trans (\<lambda>_.
        bindK (set_n 0) (\<lambda>_.
        write_head))))) (\<lambda>_.
     bindK (modifyK (\<lambda>s. s\<lparr>logs := (logs s)\<lparr>l_busy := False\<rparr>\<rparr>)) (\<lambda>_.
     modifyK (wakeup Chan_log))))"

text \<open>The slot a sector has, or gets, in the log.\<close>

definition log_slot :: "logst \<Rightarrow> nat \<Rightarrow> nat" where
  "log_slot l sector =
     (case find (\<lambda>i. l_sector l i = sector) [0..<nat (l_n l)] of
        Some i \<Rightarrow> i
      | None \<Rightarrow> nat (l_n l))"

definition log_write :: "nat \<Rightarrow> unit km" where
  "log_write b =
     bindK (getsK logs) (\<lambda>l.
     if l_n l \<ge> int LOGSIZE \<or> l_n l \<ge> int (l_size l) - 1 then panicK ''too big a transaction''
     else if \<not> l_busy l then panicK ''write outside of trans''
     else
       bindK (bsector b) (\<lambda>sector.
       let i = log_slot l sector in
       bindK (set_sector i sector) (\<lambda>_.
       bindK (bdev b) (\<lambda>dev.
       bindK (bread dev (l_start l + i + 1)) (\<lambda>lbuf.
       bindK (bdata b) (\<lambda>d.
       bindK (set_bdata lbuf d) (\<lambda>_.
       bindK (bwrite lbuf) (\<lambda>_.
       bindK (brelse lbuf) (\<lambda>_.
       bindK (whenK (int i = l_n l) (set_n (l_n l + 1))) (\<lambda>_.
       set_dirty b))))))))))"

section \<open>Specification of the operations\<close>

definition apply_writes :: "(nat \<Rightarrow> blk) \<Rightarrow> (nat \<times> blk) list \<Rightarrow> nat \<Rightarrow> blk" where
  "apply_writes d ws = foldl (\<lambda>d (k, v). d(k := v)) d ws"

definition enc_sectors :: "blk \<Rightarrow> (nat \<Rightarrow> nat) \<Rightarrow> nat \<Rightarrow> blk" where
  "enc_sectors d f n = foldl (\<lambda>d i. put32 d (4 + 4 * i) (word_of_nat (f i))) d [0..<n]"

definition enc_head :: "blk \<Rightarrow> logst \<Rightarrow> blk" where
  "enc_head d l = enc_sectors (put32 d 0 (word_of_int (l_n l))) (l_sector l) (nat (l_n l))"

lemma apply_writes_simps [simp]:
  "apply_writes d [] = d"
  "apply_writes d ((k, v) # ws) = apply_writes (d(k := v)) ws"
  "apply_writes d (ws @ us) = apply_writes (apply_writes d ws) us"
  by (simp_all add: apply_writes_def)

lemma apply_writes_other: "k \<notin> fst ` set ws \<Longrightarrow> apply_writes d ws k = d k"
  by (induction ws arbitrary: d) auto

text \<open>A block gets the last content written to it; with distinct sectors, the only one.\<close>

lemma apply_writes_in:
  "distinct (map fst ws) \<Longrightarrow> (k, v) \<in> set ws \<Longrightarrow> apply_writes d ws k = v"
proof (induction ws arbitrary: d)
  case (Cons w ws)
  then show ?case
    by (cases w) (auto simp: apply_writes_other image_iff)
qed simp

text \<open>A block written through to disk.\<close>

definition put_block :: "nat \<Rightarrow> blk \<Rightarrow> bcabs \<Rightarrow> bcabs" where
  "put_block k d A = A\<lparr>av_view := (av_view A)(k := d), av_disk := (av_disk A)(k := d),
     av_pinned := av_pinned A - {k}, av_trace := av_trace A @ [(k, d)]\<rparr>"

lemma put_block_fields [simp]:
  "av_view (put_block k d A) = (av_view A)(k := d)"
  "av_disk (put_block k d A) = (av_disk A)(k := d)"
  "av_pinned (put_block k d A) = av_pinned A - {k}"
  "av_trace (put_block k d A) = av_trace A @ [(k, d)]"
  "av_held (put_block k d A) = av_held A"
  "av_size (put_block k d A) = av_size A"
  "av_rest (put_block k d A) = av_rest A"
  by (simp_all add: put_block_def)

abbreviation alog :: "bcabs \<Rightarrow> logst" where
  "alog A \<equiv> logs (av_rest A)"

definition with_log :: "(logst \<Rightarrow> logst) \<Rightarrow> bcabs \<Rightarrow> bcabs" where
  "with_log g A = A\<lparr>av_rest := (av_rest A)\<lparr>logs := g (alog A)\<rparr>\<rparr>"

lemma with_log_fields [simp]:
  "av_view (with_log g A) = av_view A" "av_disk (with_log g A) = av_disk A"
  "av_pinned (with_log g A) = av_pinned A" "av_trace (with_log g A) = av_trace A"
  "av_held (with_log g A) = av_held A" "av_size (with_log g A) = av_size A"
  "alog (with_log g A) = g (alog A)"
  by (simp_all add: with_log_def)

lemma bind_logs:
  assumes "hoare (bc.at A) (f (h (alog A))) Q"
  shows "hoare (bc.at A) (bindK (getsK (\<lambda>s. h (logs s))) f) Q"
  by (rule bind_gets_rest) (use assms in simp_all)

lemma bind_set_n:
  assumes "hoare (bc.at (with_log (\<lambda>l. l\<lparr>l_n := n\<rparr>) A)) (f ()) Q"
  shows "hoare (bc.at A) (bindK (set_n n) f) Q"
  unfolding set_n_def by (rule bind_set_logs) (use assms in \<open>simp add: with_log_def\<close>)

lemma bind_set_sector:
  assumes "i < LOGSIZE"
    and "hoare (bc.at (with_log (\<lambda>l. l\<lparr>l_sector := (l_sector l)(i := k)\<rparr>) A)) (f ()) Q"
  shows "hoare (bc.at A) (bindK (set_sector i k) f) Q"
  unfolding set_sector_def if_P [OF assms(1)]
  by (rule bind_set_logs [where g = "\<lambda>l. l\<lparr>l_sector := (l_sector l)(i := k)\<rparr>"])
    (use assms(2) in \<open>simp only: with_log_def\<close>)

lemma readsb_at:
  assumes "av_held A 1 = None" and "1 < av_size A" and "room A 1"
  shows "hoare (bc.at A) (readsb 1) (\<lambda>sb s. sb = get_sb (av_view A 1) \<and> bc.at A s)"
  unfolding readsb_def
  by (rule bc.read_block [OF assms]) (simp add: hoare_def)

lemma write_head_at:
  assumes dev: "l_dev (alog A) = 1" and n: "nat (l_n (alog A)) \<le> LOGSIZE"
    and k: "av_held A (l_start (alog A)) = None" "l_start (alog A) < av_size A" "room A (l_start (alog A))"
  shows "hoare (bc.at A) write_head (\<lambda>_. bc.at
           (put_block (l_start (alog A)) (enc_head (av_view A (l_start (alog A))) (alog A)) A))"
proof -
  let ?k = "l_start (alog A)" and ?f = "l_sector (alog A)" and ?n = "nat (l_n (alog A))"
  let ?d = "put32 (av_view A ?k) 0 (word_of_int (l_n (alog A)))"
  let ?I = "\<lambda>b i. A\<lparr>av_held := (av_held A)(?k \<mapsto> b), av_view := (av_view A)(?k := enc_sectors ?d ?f i)\<rparr>"
  have loop: "hoare (bc.at (?I b 0)) (forK [0..<?n] (\<lambda>i.
       if i < LOGSIZE
       then bindK (bdata b) (\<lambda>d. set_bdata b (put32 d (4 + 4 * i) (word_of_nat (?f i))))
       else faultK ''log.lh.sector'')) (\<lambda>_. bc.at (?I b ?n))" for b
  proof (rule hoare_for [where P = "\<lambda>i. bc.at (?I b i)"])
    fix i
    assume "i < ?n"
    with n have "i < LOGSIZE" by simp
    moreover have "hoare (bc.at (?I b i)) (bindK (bdata b) (\<lambda>d. set_bdata b
        (put32 d (4 + 4 * i) (word_of_nat (?f i))))) (\<lambda>_. bc.at (?I b (Suc i)))"
      by (rule bc.bind_getd [where k = ?k], simp, rule hoare_last, rule bc.bind_setd [where k = ?k])
        (simp_all add: enc_sectors_def hoare_def)
    ultimately show "hoare (bc.at (?I b i)) (if i < LOGSIZE
       then bindK (bdata b) (\<lambda>d. set_bdata b (put32 d (4 + 4 * i) (word_of_nat (?f i))))
       else faultK ''log.lh.sector'') (\<lambda>_. bc.at (?I b (Suc i)))" by simp
  qed
  show ?thesis
    unfolding write_head_def
    apply (rule bind_logs)
    apply (simp only: dev id_apply)
    apply (rule bc.bind_rd [OF k])
    apply (rule bc.bind_getd [where k = ?k], simp)
    apply (rule bc.bind_setd [where k = ?k], simp)
    apply (rule hoare_bind)
     apply (rule hoare_pre [OF loop])
     apply (simp add: enc_sectors_def)
    apply (rule bc.bind_wr [where k = ?k], simp)
    apply (rule hoare_post [OF bc.rel_last [where k = ?k]])
    by (use k in \<open>simp_all add: settled_def put_block_def enc_head_def fun_upd_idem\<close>)
qed

text \<open>\<open>install_trans\<close> copies the log blocks to their home sectors. \<open>entries\<close> lists the
  writes it makes.\<close>

definition entries :: "(nat \<Rightarrow> blk) \<Rightarrow> logst \<Rightarrow> (nat \<times> blk) list" where
  "entries d l = map (\<lambda>i. (l_sector l i, d (l_start l + i + 1))) [0..<nat (l_n l)]"

definition log_area :: "logst \<Rightarrow> nat set" where
  "log_area l = {l_start l ..< l_start l + l_size l}"

text \<open>A header that \<open>log_write\<close> can have built: the sectors are distinct, lie on the disk and
  outside the log, and their copies fit into the log.\<close>

definition wf_log :: "nat \<Rightarrow> logst \<Rightarrow> bool" where
  "wf_log sz l \<longleftrightarrow>
     l_dev l = 1 \<and> nat (l_n l) \<le> LOGSIZE \<and> nat (l_n l) < l_size l \<and> l_start l + l_size l \<le> sz \<and>
     distinct (map (l_sector l) [0..<nat (l_n l)]) \<and>
     (\<forall>i<nat (l_n l). l_sector l i < sz \<and> l_sector l i \<notin> log_area l)"

definition put_blocks :: "(nat \<times> blk) list \<Rightarrow> bcabs \<Rightarrow> bcabs" where
  "put_blocks ws A = A\<lparr>av_view := apply_writes (av_view A) ws, av_disk := apply_writes (av_disk A) ws,
     av_pinned := av_pinned A - fst ` set ws, av_trace := av_trace A @ ws\<rparr>"

lemma put_blocks_fields [simp]:
  "av_view (put_blocks ws A) = apply_writes (av_view A) ws"
  "av_disk (put_blocks ws A) = apply_writes (av_disk A) ws"
  "av_pinned (put_blocks ws A) = av_pinned A - fst ` set ws"
  "av_trace (put_blocks ws A) = av_trace A @ ws"
  "av_held (put_blocks ws A) = av_held A"
  "av_size (put_blocks ws A) = av_size A"
  "av_rest (put_blocks ws A) = av_rest A"
  by (simp_all add: put_blocks_def)

lemma put_blocks_Nil [simp]: "put_blocks [] A = A"
  by (simp add: put_blocks_def)

lemma put_blocks_snoc: "put_blocks (ws @ [(k, d)]) A = put_block k d (put_blocks ws A)"
  by (simp add: put_blocks_def put_block_def Diff_insert [of _ k "fst ` set ws"])

lemma wf_logD:
  assumes "wf_log sz l" and "i < nat (l_n l)"
  shows "l_sector l i < sz" "l_start l + i + 1 < sz" "l_sector l i \<noteq> l_start l"
    "\<And>j. j < nat (l_n l) \<Longrightarrow> l_sector l i \<noteq> l_start l + j + 1"
    "\<And>j. j < nat (l_n l) \<Longrightarrow> l_sector l i = l_sector l j \<Longrightarrow> i = j"
proof -
  from assms have w: "nat (l_n l) < l_size l" "l_start l + l_size l \<le> sz"
    "distinct (map (l_sector l) [0..<nat (l_n l)])"
    "l_sector l i < sz" "l_sector l i \<notin> log_area l"
    unfolding wf_log_def by blast+
  show "l_sector l i < sz" by (rule w)
  show "l_start l + i + 1 < sz" using w(1,2) assms(2) by linarith
  show "l_sector l i \<noteq> l_start l" using w(1,5) by (auto simp: log_area_def)
  show "l_sector l i \<noteq> l_start l + j + 1" if "j < nat (l_n l)" for j
    using w(1,5) that by (auto simp: log_area_def)
  show "i = j" if "j < nat (l_n l)" "l_sector l i = l_sector l j" for j
    using w(3) that assms(2) unfolding distinct_map by (auto dest: inj_onD)
qed

lemma install_step:
  assumes a: "av_held A a = None" "a < av_size A" "room A a"
    and b: "av_held A b = None" "b < av_size A" "a \<noteq> b"
    and r: "b \<in> av_pinned A \<or> card (insert a (dom (av_held A) \<union> av_pinned A)) < NBUF"
  shows "hoare (bc.at A)
     (bindK (bread 1 a) (\<lambda>lbuf. bindK (bread 1 b) (\<lambda>dbuf. bindK (bdata lbuf) (\<lambda>d.
      bindK (set_bdata dbuf d) (\<lambda>_. bindK (bwrite dbuf) (\<lambda>_. bindK (brelse lbuf) (\<lambda>_.
      brelse dbuf))))))) (\<lambda>_. bc.at (put_block b (av_view A a) A))"
proof (rule bc.hoare_at_settled [OF _ a(1)])
  assume st: "settled A a"
  show ?thesis
    apply (rule bc.bind_rd [OF a])
    apply (rule bc.bind_rd)
       apply (use b r in \<open>simp_all add: room_def\<close>) [3]
    apply (rule bc.bind_getd [where k = a], use b in simp)
    apply (rule bc.bind_setd [where k = b], simp)
    apply (rule bc.bind_wr [where k = b], simp)
    apply (rule bc.bind_rel [where k = a])
      apply (use b st in \<open>simp_all add: settled_def\<close>) [2]
    apply (rule hoare_post [OF bc.rel_last [where k = b]])
      apply (use b in \<open>simp_all add: settled_def\<close>) [2]
    using a(1) b(1) by (simp add: put_block_def fun_upd_idem)
qed

lemma install_trans_at:
  assumes wf: "wf_log (av_size A) (alog A)" and h: "av_held A = Map.empty"
    and p: "card (av_pinned A) < NBUF" "finite (av_pinned A)"
    and pin: "(\<forall>i<nat (l_n (alog A)). l_sector (alog A) i \<in> av_pinned A) \<or> av_pinned A = {}"
  shows "hoare (bc.at A) install_trans (\<lambda>_. bc.at (put_blocks (entries (av_view A) (alog A)) A))"
proof -
  let ?l = "alog A"
  let ?n = "nat (l_n ?l)"
  let ?e = "\<lambda>i. take i (entries (av_view A) ?l)"
  have dev: "l_dev ?l = 1" using wf by (simp add: wf_log_def)
  have e: "?e (Suc i) = ?e i @ [(l_sector ?l i, av_view A (l_start ?l + i + 1))]" if "i < ?n" for i
    using that by (simp add: entries_def take_Suc_conv_app_nth)
  have fe: "fst ` set (?e i) = l_sector ?l ` {..<i}" if "i \<le> ?n" for i
    using that by (simp add: entries_def take_map image_image atLeast0LessThan)
  have loop: "hoare (bc.at (put_blocks (?e 0) A)) (forK [0..<?n] (\<lambda>tail.
       bindK (getsK logs) (\<lambda>l.
       bindK (bread (l_dev l) (l_start l + tail + 1)) (\<lambda>lbuf.
       bindK (bread (l_dev l) (l_sector l tail)) (\<lambda>dbuf.
       bindK (bdata lbuf) (\<lambda>d.
       bindK (set_bdata dbuf d) (\<lambda>_.
       bindK (bwrite dbuf) (\<lambda>_.
       bindK (brelse lbuf) (\<lambda>_.
       brelse dbuf)))))))))
     (\<lambda>_. bc.at (put_blocks (?e ?n) A))"
  proof (rule hoare_for [where P = "\<lambda>i. bc.at (put_blocks (?e i) A)"])
    fix i
    assume i: "i < ?n"
    note w = wf_logD [OF wf i]
    let ?A = "put_blocks (?e i) A" and ?a = "l_start ?l + i + 1" and ?b = "l_sector ?l i"
    have pc: "card (av_pinned ?A) < NBUF"
      using p card_mono [of "av_pinned A" "av_pinned ?A"] by simp
    have "l_sector ?l j \<noteq> ?a" if "j < i" for j using wf_logD(4) [OF wf _ i, of j] that i by simp
    then have "?a \<notin> l_sector ?l ` {..<i}" by fastforce
    then have src: "av_view ?A ?a = av_view A ?a" using fe [of i] i by (simp add: apply_writes_other)
    have "?b \<noteq> l_sector ?l j" if "j < i" for j using w(5) [of j] that i by auto
    then have "?b \<notin> fst ` set (?e i)" using fe [of i] i by auto
    then have r: "?b \<in> av_pinned ?A \<or> card (insert ?a (dom (av_held ?A) \<union> av_pinned ?A)) < NBUF"
      using pin i h by (elim disjE) (simp_all add: NBUF_def)
    have ab: "?a \<noteq> ?b" using w(4) [OF i] by simp
    show "hoare (bc.at ?A) (bindK (getsK logs) (\<lambda>l.
       bindK (bread (l_dev l) (l_start l + i + 1)) (\<lambda>lbuf.
       bindK (bread (l_dev l) (l_sector l i)) (\<lambda>dbuf.
       bindK (bdata lbuf) (\<lambda>d.
       bindK (set_bdata dbuf d) (\<lambda>_.
       bindK (bwrite dbuf) (\<lambda>_.
       bindK (brelse lbuf) (\<lambda>_.
       brelse dbuf)))))))) (\<lambda>_. bc.at (put_blocks (?e (Suc i)) A))"
      unfolding e [OF i] put_blocks_snoc src [symmetric]
      apply (rule bind_logs [where h = "\<lambda>l. l"])
      apply (simp only: put_blocks_fields(7) dev)
      by (rule install_step) (use w(1,2) ab h pc r in \<open>simp_all add: room_def dom_def\<close>)
  qed
  have "?e ?n = entries (av_view A) ?l" by (simp add: entries_def)
  with loop show ?thesis
    unfolding install_trans_def by (intro bind_logs [where h = l_n]) simp
qed

text \<open>The header as \<open>read_head\<close> decodes it.\<close>

definition dec_n :: "blk \<Rightarrow> int" where
  "dec_n d = sint (get32 d 0)"

definition dec_head :: "blk \<Rightarrow> logst \<Rightarrow> logst" where
  "dec_head d l = l\<lparr>l_n := dec_n d,
     l_sector := (\<lambda>i. if i < nat (dec_n d) then unat (get32 d (4 + 4 * i)) else l_sector l i)\<rparr>"

lemma with_log_with_log: "with_log f (with_log g A) = with_log (\<lambda>l. f (g l)) A"
  by (simp add: with_log_def)

lemma with_log_cong: "f (alog A) = g (alog A) \<Longrightarrow> with_log f A = with_log g A"
  by (simp add: with_log_def)

lemma read_head_at:
  assumes dev: "l_dev (alog A) = 1" and n: "nat (dec_n (av_view A (l_start (alog A)))) \<le> LOGSIZE"
    and k: "av_held A (l_start (alog A)) = None" "l_start (alog A) < av_size A" "room A (l_start (alog A))"
  shows "hoare (bc.at A) read_head
           (\<lambda>_. bc.at (with_log (dec_head (av_view A (l_start (alog A)))) A))"
proof -
  let ?k = "l_start (alog A)" and ?h = "av_view A (l_start (alog A))"
  let ?n = "nat (dec_n ?h)"
  let ?g = "\<lambda>i l. l\<lparr>l_n := dec_n ?h,
     l_sector := (\<lambda>j. if j < i then unat (get32 ?h (4 + 4 * j)) else l_sector l j)\<rparr>"
  let ?I = "\<lambda>b i. with_log (?g i) (A\<lparr>av_held := (av_held A)(?k \<mapsto> b)\<rparr>)"
  have loop: "hoare (bc.at (?I b 0)) (forK [0..<?n] (\<lambda>i. set_sector i (unat (get32 ?h (4 + 4 * i)))))
      (\<lambda>_. bc.at (?I b ?n))" for b
  proof (rule hoare_for [where P = "\<lambda>i. bc.at (?I b i)"])
    fix i
    assume i: "i < ?n"
    have "(?g i l)\<lparr>l_sector := (l_sector (?g i l))(i := unat (get32 ?h (4 + 4 * i)))\<rparr> = ?g (Suc i) l" for l :: logst
      by (auto simp: fun_eq_iff)
    then have eq: "with_log (\<lambda>l. l\<lparr>l_sector := (l_sector l)(i := unat (get32 ?h (4 + 4 * i)))\<rparr>) (?I b i)
        = ?I b (Suc i)" by (simp only: with_log_with_log)
    show "hoare (bc.at (?I b i)) (set_sector i (unat (get32 ?h (4 + 4 * i)))) (\<lambda>_. bc.at (?I b (Suc i)))"
      by (rule hoare_last, rule bind_set_sector) (use i n eq in \<open>simp_all add: hoare_def\<close>)
  qed
  show ?thesis
  proof (rule bc.hoare_at_settled [OF _ k(1)])
    assume st: "settled A ?k"
    show ?thesis
      unfolding read_head_def
      apply (rule bind_logs [where h = "\<lambda>l. l"])
      apply (simp only: dev)
      apply (rule bc.bind_rd [OF k])
      apply (rule bc.bind_getd_eq [where k = ?k and v = ?h], simp, simp)
      apply (rule bind_set_n)
      apply (rule hoare_bind)
       apply (rule hoare_pre [OF loop [unfolded dec_n_def]])
       apply (simp add: dec_n_def)
      apply (rule hoare_post [OF bc.rel_last [where k = ?k]])
      using st k(1) by (simp_all add: settled_def with_log_def dec_head_def fun_upd_idem dec_n_def
          cong: if_cong)
  qed
qed

lemma wf_log_start: "wf_log sz l \<Longrightarrow> l_start l < sz"
  by (auto simp: wf_log_def)

lemma entries_keys: "fst ` set (entries d l) = l_sector l ` {..<nat (l_n l)}"
  by (simp add: entries_def image_image atLeast0LessThan)

lemma start_not_entry: "wf_log sz l \<Longrightarrow> l_start l \<notin> fst ` set (entries d l)"
  using wf_logD(3) [of sz l] by (metis entries_keys imageE lessThan_iff)

lemma enc_head_0 [simp]: "enc_head d (l\<lparr>l_n := 0\<rparr>) = put32 d 0 0"
  by (simp add: enc_head_def enc_sectors_def)

lemma room_empty: "av_held A = Map.empty \<Longrightarrow> card (av_pinned A) < NBUF \<Longrightarrow> room A k"
  by (simp add: room_def)

text \<open>\<open>install_trans(); log.lh.n = 0; write_head()\<close>, the common tail of commit and recovery.\<close>

lemma install_clear_at:
  assumes wf: "wf_log (av_size A) (alog A)" and h: "av_held A = Map.empty"
    and p: "card (av_pinned A) < NBUF" "finite (av_pinned A)"
    and pin: "(\<forall>i<nat (l_n (alog A)). l_sector (alog A) i \<in> av_pinned A) \<or> av_pinned A = {}"
  shows "hoare (bc.at A) (bindK install_trans (\<lambda>_. bindK (set_n 0) (\<lambda>_. write_head)))
     (\<lambda>_. bc.at (put_block (l_start (alog A)) (put32 (av_view A (l_start (alog A))) 0 0)
       (put_blocks (entries (av_view A) (alog A)) (with_log (\<lambda>l. l\<lparr>l_n := 0\<rparr>) A))))"
proof -
  let ?k = "l_start (alog A)" and ?e = "entries (av_view A) (alog A)"
  let ?B = "with_log (\<lambda>l. l\<lparr>l_n := 0\<rparr>) (put_blocks ?e A)"
  have B: "?B = put_blocks ?e (with_log (\<lambda>l. l\<lparr>l_n := 0\<rparr>) A)"
    by (simp add: with_log_def put_blocks_def)
  have v: "av_view ?B ?k = av_view A ?k"
    using start_not_entry [OF wf] by (simp add: apply_writes_other)
  have c: "card (av_pinned ?B) < NBUF"
    using p card_mono [of "av_pinned A" "av_pinned ?B"] by simp
  have "hoare (bc.at ?B) write_head (\<lambda>_. bc.at (put_block ?k (put32 (av_view A ?k) 0 0) ?B))"
    by (rule hoare_post [OF write_head_at])
      (use wf h c v in \<open>simp_all add: wf_log_def room_def wf_log_start [OF wf] dom_def\<close>)
  then show ?thesis
    unfolding B [symmetric]
    by (intro hoare_bind [OF install_trans_at [OF wf h p pin]] bind_set_n)
qed

lemma recover_at:
  fixes A :: bcabs
  defines "l \<equiv> dec_head (av_view A (l_start (alog A))) (alog A)"
  assumes wf: "wf_log (av_size A) l" and h: "av_held A = Map.empty" and p: "av_pinned A = {}"
  shows "hoare (bc.at A) recover_from_log
     (\<lambda>_. bc.at (put_block (l_start l) (put32 (av_view A (l_start l)) 0 0)
       (put_blocks (entries (av_view A) l) (with_log (\<lambda>_. l\<lparr>l_n := 0\<rparr>) A))))"
proof -
  have st: "l_start l = l_start (alog A)" "l_dev l = l_dev (alog A)" "l_n l = dec_n (av_view A (l_start (alog A)))"
    by (simp_all add: l_def dec_head_def)
  let ?B = "with_log (dec_head (av_view A (l_start (alog A)))) A"
  have al: "alog ?B = l" by (simp add: l_def)
  have w: "with_log (\<lambda>l. l\<lparr>l_n := 0\<rparr>) ?B = with_log (\<lambda>_. l\<lparr>l_n := 0\<rparr>) A"
    unfolding with_log_with_log by (rule with_log_cong) (simp add: l_def)
  have "hoare (bc.at A) read_head (\<lambda>_. bc.at ?B)"
    by (rule read_head_at)
      (use wf h p wf_log_start [OF wf] in \<open>simp_all add: wf_log_def st room_def NBUF_def\<close>)
  moreover have "hoare (bc.at ?B) (bindK install_trans (\<lambda>_. bindK (set_n 0) (\<lambda>_. write_head)))
     (\<lambda>_. bc.at (put_block (l_start l) (put32 (av_view A (l_start l)) 0 0)
       (put_blocks (entries (av_view A) l) (with_log (\<lambda>_. l\<lparr>l_n := 0\<rparr>) A))))"
    using install_clear_at [of ?B] wf h p unfolding al w by (simp add: NBUF_def)
  ultimately show ?thesis unfolding recover_from_log_def by (rule hoare_bind)
qed

lemma wakeup_at: "hoare (bc.at A) (modifyK (wakeup c)) (\<lambda>_. bc.at A)"
  by (simp add: hoare_def bc.at_def)

lemma bind_set_busy:
  assumes "hoare (bc.at (with_log (\<lambda>l. l\<lparr>l_busy := v\<rparr>) A)) (f ()) Q"
  shows "hoare (bc.at A) (bindK (modifyK (\<lambda>s. s\<lparr>logs := (logs s)\<lparr>l_busy := v\<rparr>\<rparr>)) f) Q"
  by (rule bind_set_logs) (use assms in \<open>simp add: with_log_def\<close>)

text \<open>The state after a commit that had something to write: header, home blocks, header.\<close>

definition committed :: "bcabs \<Rightarrow> bcabs" where
  "committed A =
     (let l = alog A; k = l_start l; h = enc_head (av_view A k) l
      in put_block k (put32 h 0 0) (put_blocks (entries (av_view A) l) (put_block k h
           (with_log (\<lambda>l. l\<lparr>l_n := 0, l_busy := False\<rparr>) A))))"

lemma commit_at:
  assumes wf: "wf_log (av_size A) (alog A)" and h: "av_held A = Map.empty"
    and p: "card (av_pinned A) < NBUF" "finite (av_pinned A)"
    and pin: "\<forall>i<nat (l_n (alog A)). l_sector (alog A) i \<in> av_pinned A"
    and n: "l_n (alog A) > 0"
  shows "hoare (bc.at A) commit_trans (\<lambda>_. bc.at (committed A))"
proof -
  let ?k = "l_start (alog A)"
  let ?h = "enc_head (av_view A ?k) (alog A)"
  let ?B = "put_block ?k ?h A"
  have wh: "hoare (bc.at A) write_head (\<lambda>_. bc.at ?B)"
    by (rule write_head_at) (use wf h p wf_log_start [OF wf] in \<open>simp_all add: wf_log_def room_def\<close>)
  have e: "entries (av_view ?B) (alog A) = entries (av_view A) (alog A)"
    by (simp add: entries_def)
  have c: "card (av_pinned ?B) < NBUF" using p card_mono [of "av_pinned A" "av_pinned ?B"] by simp
  have pin': "\<forall>i<nat (l_n (alog A)). l_sector (alog A) i \<in> av_pinned ?B"
    using pin wf_logD(3) [OF wf] by simp
  have ic: "hoare (bc.at ?B) (bindK install_trans (\<lambda>_. bindK (set_n 0) (\<lambda>_. write_head)))
     (\<lambda>_. bc.at (put_block ?k (put32 ?h 0 0)
       (put_blocks (entries (av_view A) (alog A)) (with_log (\<lambda>l. l\<lparr>l_n := 0\<rparr>) ?B))))"
    using install_clear_at [of ?B] wf h p(2) c pin' e by simp
  have eq: "with_log (\<lambda>l. l\<lparr>l_busy := False\<rparr>) (put_block ?k (put32 ?h 0 0)
       (put_blocks (entries (av_view A) (alog A)) (with_log (\<lambda>l. l\<lparr>l_n := 0\<rparr>) ?B))) = committed A"
    by (simp add: committed_def Let_def with_log_def put_block_def put_blocks_def)
  show ?thesis
    unfolding commit_trans_def
    apply (rule bind_logs [where h = l_n])
    apply (rule hoare_bind_when)
     apply (rule hoare_bind [OF hoare_bind [OF wh ic]])
     apply (rule bind_set_busy)
     unfolding eq apply (rule wakeup_at)
    using n by simp
qed

lemma commit_nothing_at:
  assumes "l_n (alog A) \<le> 0"
  shows "hoare (bc.at A) commit_trans (\<lambda>_. bc.at (with_log (\<lambda>l. l\<lparr>l_busy := False\<rparr>) A))"
  unfolding commit_trans_def
  apply (rule bind_logs [where h = l_n])
  apply (rule hoare_bind_when)
  using assms apply simp
  apply (rule bind_set_busy)
  by (rule wakeup_at)

text \<open>\<open>log_write\<close> copies the block into its slot of the log and pins the buffer.\<close>

definition log_written :: "nat \<Rightarrow> bcabs \<Rightarrow> bcabs" where
  "log_written k A =
     (let l = alog A; i = log_slot l k; B = put_block (l_start l + i + 1) (av_view A k)
        (with_log (\<lambda>l. l\<lparr>l_sector := (l_sector l)(i := k), l_n := max (l_n l) (int i + 1)\<rparr>) A)
      in B\<lparr>av_pinned := insert k (av_pinned B)\<rparr>)"

lemma log_slot_le: "log_slot l k \<le> nat (l_n l)"
  by (auto simp: log_slot_def find_upt_Some_iff split: option.split)

lemma log_write_at:
  assumes h: "av_held A k = Some b" and busy: "l_busy (alog A)"
    and n: "0 \<le> l_n (alog A)" "l_n (alog A) < int LOGSIZE" "l_n (alog A) < int (l_size (alog A)) - 1"
    and j: "av_held A (l_start (alog A) + log_slot (alog A) k + 1) = None"
      "l_start (alog A) + log_slot (alog A) k + 1 < av_size A"
      "room A (l_start (alog A) + log_slot (alog A) k + 1)"
  shows "hoare (bc.at A) (log_write b) (\<lambda>_. bc.at (log_written k A))"
proof -
  let ?i = "log_slot (alog A) k"
  let ?j = "l_start (alog A) + ?i + 1"
  have i: "?i < LOGSIZE" "int ?i \<le> l_n (alog A)" using log_slot_le [of "alog A" k] n by linarith+
  have ne: "?j \<noteq> k" using h j(1) by auto
  let ?B = "put_block ?j (av_view A k) (with_log (\<lambda>l. l\<lparr>l_sector := (l_sector l)(?i := k)\<rparr>) A)"
  have pin: "hoare (bc.at C) (set_dirty b) (\<lambda>_. bc.at (C\<lparr>av_pinned := insert k (av_pinned C)\<rparr>))"
    if "av_held C k = Some b" for C
    by (rule hoare_last, rule bc.bind_pin [where k = k]) (use that in \<open>simp_all add: hoare_def\<close>)
  have B: "av_held ?B k = Some b" using h by simp
  have fin: "hoare (bc.at ?B) (bindK (whenK (int ?i = l_n (alog A)) (set_n (l_n (alog A) + 1)))
        (\<lambda>_. set_dirty b)) (\<lambda>_. bc.at (log_written k A))"
  proof (rule hoare_bind_when)
    assume "int ?i = l_n (alog A)"
    then have "with_log (\<lambda>l. l\<lparr>l_n := l_n (alog A) + 1\<rparr>) ?B = put_block ?j (av_view A k)
       (with_log (\<lambda>l. l\<lparr>l_sector := (l_sector l)(?i := k), l_n := max (l_n l) (int ?i + 1)\<rparr>) A)"
      by (simp add: with_log_def put_block_def max_def)
    with pin [of "with_log (\<lambda>l. l\<lparr>l_n := l_n (alog A) + 1\<rparr>) ?B"] B
    show "hoare (bc.at ?B) (bindK (set_n (l_n (alog A) + 1)) (\<lambda>_. set_dirty b))
            (\<lambda>_. bc.at (log_written k A))"
      by (intro bind_set_n) (simp add: log_written_def Let_def)
  next
    assume "int ?i \<noteq> l_n (alog A)"
    then have "?B = put_block ?j (av_view A k)
       (with_log (\<lambda>l. l\<lparr>l_sector := (l_sector l)(?i := k), l_n := max (l_n l) (int ?i + 1)\<rparr>) A)"
      using i(2) by (simp add: with_log_def put_block_def max_def)
    with pin [OF B] show "hoare (bc.at ?B) (set_dirty b) (\<lambda>_. bc.at (log_written k A))"
      by (simp add: log_written_def Let_def)
  qed
  have guard: "\<not> (l_n (alog A) \<ge> int LOGSIZE \<or> l_n (alog A) \<ge> int (l_size (alog A)) - 1)"
    "\<not> \<not> l_busy (alog A)" using n busy by auto
  show ?thesis
    unfolding log_write_def
    apply (rule bind_logs [where h = "\<lambda>l. l"])
    unfolding if_not_P [OF guard(1)] if_not_P [OF guard(2)] Let_def
    apply (rule bc.bind_key(2) [OF h])
    apply (rule bind_set_sector [OF i(1)])
    apply (rule bc.bind_key(1) [where k = k], simp add: h)
    apply (rule bc.bind_rd)
       apply (use j in \<open>simp_all add: room_def\<close>) [3]
    apply (rule bc.bind_getd_eq [where k = k and v = "av_view A k"])
      apply (use h ne in \<open>simp_all\<close>) [2]
    apply (rule bc.bind_setd [where k = ?j], simp)
    apply (rule bc.bind_wr [where k = ?j], simp)
    apply (rule bc.bind_rel [where k = ?j])
      apply (simp_all add: settled_def) [2]
    apply (rule hoare_pre [OF fin])
    using j(1) by (simp add: with_log_def put_block_def fun_upd_idem)
qed

end
