(* ===== verification/Log_Crash.thy ===== *)
theory Log_Crash
  imports Log
begin

text \<open>
  Crash safety of the log. A transaction is \<open>begin_trans\<close>, any number of block updates in the
  idiom that the comment above \<open>log_write\<close> prescribes, and \<open>commit_trans\<close>. A crash cuts the
  sequence of sector writes at an arbitrary point; after it the kernel boots with an empty cache
  and runs \<open>recover_from_log\<close>. The theorem is that the blocks outside the log then hold the
  old contents or the new ones, never a mixture.
\<close>

section \<open>A transaction\<close>

text \<open>\<open>bp = bread(...); modify bp->data[]; log_write(bp); brelse(bp)\<close>.\<close>

definition log_update :: "nat \<Rightarrow> blk \<Rightarrow> unit km" where
  "log_update k d =
     bindK (bread 1 k) (\<lambda>bp.
     bindK (set_bdata bp d) (\<lambda>_.
     bindK (log_write bp) (\<lambda>_.
     brelse bp)))"

primrec log_updates :: "(nat \<times> blk) list \<Rightarrow> unit km" where
  "log_updates [] = returnK ()"
| "log_updates (u # us) = bindK (log_update (fst u) (snd u)) (\<lambda>_. log_updates us)"

definition run_trans :: "(nat \<times> blk) list \<Rightarrow> unit km" where
  "run_trans us = bindK begin_trans (\<lambda>_. bindK (log_updates us) (\<lambda>_. commit_trans))"

section \<open>The header on disk\<close>

lemma enc_sectors_Suc:
  "enc_sectors d f (Suc n) = put32 (enc_sectors d f n) (4 + 4 * n) (word_of_nat (f n))"
  by (simp add: enc_sectors_def)

lemma get32_enc_sectors_0 [simp]: "get32 (enc_sectors d f n) 0 = get32 d 0"
  by (induction n) (simp_all add: enc_sectors_Suc, simp add: enc_sectors_def)

lemma get32_enc_sectors: "i < n \<Longrightarrow> get32 (enc_sectors d f n) (4 + 4 * i) = word_of_nat (f i)"
proof (induction n)
  case (Suc n)
  then show ?case by (cases "i = n") (simp_all add: enc_sectors_Suc)
qed simp

lemma sint_small: "0 \<le> n \<Longrightarrow> n < 2147483648 \<Longrightarrow> sint (word_of_int n :: uint) = n"
  by (simp add: signed_of_int signed_take_bit_int_eq_self)

text \<open>Round trip of the header through the disk.\<close>

lemma dec_enc_head:
  assumes "0 \<le> l_n l" and "nat (l_n l) \<le> LOGSIZE"
    and "\<And>i. i < nat (l_n l) \<Longrightarrow> l_sector l i < 2 ^ 32"
  shows "dec_n (enc_head d l) = l_n l"
    and "i < nat (l_n l) \<Longrightarrow> unat (get32 (enc_head d l) (4 + 4 * i)) = l_sector l i"
proof -
  have "l_n l < 2147483648" using assms(1,2) by (simp add: LOGSIZE_def)
  with assms(1) show "dec_n (enc_head d l) = l_n l"
    by (simp add: dec_n_def enc_head_def sint_small)
  show "unat (get32 (enc_head d l) (4 + 4 * i)) = l_sector l i" if "i < nat (l_n l)"
    using assms(3) [OF that] that
    by (simp add: enc_head_def get32_enc_sectors unat_of_nat)
qed

lemma dec_n_cleared [simp]: "dec_n (put32 d 0 0) = 0"
  by (simp add: dec_n_def)

lemma apply_writes_cong: "d j = d' j \<Longrightarrow> apply_writes d ws j = apply_writes d' ws j"
proof (induction ws arbitrary: d d')
  case (Cons w ws)
  obtain k v where w: "w = (k, v)" by (cases w)
  have "(d(k := v)) j = (d'(k := v)) j" using Cons.prems by simp
  then have "apply_writes (d(k := v)) ws j = apply_writes (d'(k := v)) ws j" by (rule Cons.IH)
  then show ?case by (simp only: w apply_writes_simps)
qed simp

section \<open>Inside a transaction\<close>

text \<open>\<open>d0\<close> and \<open>tr0\<close> are the disk and the trace of writes when the transaction began. Since
  then only blocks of the log behind its header have been written.\<close>

definition in_trans :: "(nat \<Rightarrow> blk) \<Rightarrow> (nat \<times> blk) list \<Rightarrow> bcabs \<Rightarrow> bool" where
  "in_trans d0 tr0 A \<longleftrightarrow>
     av_held A = Map.empty \<and> wf_log (av_size A) (alog A) \<and> av_size A \<le> 2 ^ 32 \<and>
     l_busy (alog A) \<and> 0 \<le> l_n (alog A) \<and>
     av_pinned A = l_sector (alog A) ` {..<nat (l_n (alog A))} \<and>
     (\<forall>i<nat (l_n (alog A)). av_view A (l_start (alog A) + i + 1) = av_view A (l_sector (alog A) i)) \<and>
     dec_n (d0 (l_start (alog A))) = 0 \<and>
     (\<exists>tr. av_trace A = tr0 @ tr \<and> av_disk A = apply_writes d0 tr \<and>
        (\<forall>w\<in>set tr. l_start (alog A) < fst w \<and> fst w < l_start (alog A) + l_size (alog A)))"

text \<open>The shape of the log after \<open>log_write\<close>: the sector has a slot, and all other slots are
  as before.\<close>

definition logged :: "nat \<Rightarrow> logst \<Rightarrow> logst" where
  "logged k l = l\<lparr>l_sector := (l_sector l)(log_slot l k := k), l_n := max (l_n l) (int (log_slot l k) + 1)\<rparr>"

lemma log_slot_cases:
  assumes "0 \<le> l_n l"
  obtains i where "log_slot l k = i" "i < nat (l_n l)" "l_sector l i = k" "logged k l = l"
  | "log_slot l k = nat (l_n l)" "k \<notin> l_sector l ` {..<nat (l_n l)}"
    "l_n (logged k l) = l_n l + 1" "l_sector (logged k l) = (l_sector l)(nat (l_n l) := k)"
proof (cases "find (\<lambda>i. l_sector l i = k) [0..<nat (l_n l)]")
  case None
  then have "log_slot l k = nat (l_n l)" by (simp add: log_slot_def)
  moreover from None have "k \<notin> l_sector l ` {..<nat (l_n l)}" by (auto simp: find_upt_None_iff)
  ultimately show thesis using that(2) assms by (simp add: logged_def)
next
  case (Some i)
  then have "i < nat (l_n l)" "l_sector l i = k" by (auto simp: find_upt_Some_iff)
  moreover from Some have "log_slot l k = i" by (simp add: log_slot_def)
  ultimately have s: "log_slot l k = i" "i < nat (l_n l)" "l_sector l i = k" by blast+
  then have "(l_sector l)(i := k) = l_sector l" "max (l_n l) (int i + 1) = l_n l" by auto
  with s that(1) show thesis by (simp add: logged_def)
qed

lemma logged_consts [simp]:
  "l_start (logged k l) = l_start l" "l_size (logged k l) = l_size l" "l_dev (logged k l) = l_dev l"
  "l_busy (logged k l) = l_busy l" "log_area (logged k l) = log_area l"
  by (simp_all add: logged_def log_area_def)

lemma logged_keys:
  assumes "0 \<le> l_n l"
  shows "l_sector (logged k l) ` {..<nat (l_n (logged k l))} = insert k (l_sector l ` {..<nat (l_n l)})"
    and "log_slot l k < nat (l_n (logged k l))" and "l_sector (logged k l) (log_slot l k) = k"
    and "0 \<le> l_n (logged k l)"
    and "i < nat (l_n (logged k l)) \<Longrightarrow> i \<noteq> log_slot l k \<Longrightarrow>
           i < nat (l_n l) \<and> l_sector (logged k l) i = l_sector l i"
proof -
  have e: "nat (l_n l + 1) = Suc (nat (l_n l))" using assms by simp
  show "l_sector (logged k l) ` {..<nat (l_n (logged k l))} = insert k (l_sector l ` {..<nat (l_n l)})"
    using assms by (cases rule: log_slot_cases [of l k]) (force simp: e lessThan_Suc)+
  show "log_slot l k < nat (l_n (logged k l))" "l_sector (logged k l) (log_slot l k) = k"
    "0 \<le> l_n (logged k l)"
    using assms by (cases rule: log_slot_cases [of l k]; simp)+
  show "i < nat (l_n l) \<and> l_sector (logged k l) i = l_sector l i"
    if "i < nat (l_n (logged k l))" "i \<noteq> log_slot l k"
    using assms that by (cases rule: log_slot_cases [of l k]) auto
qed

lemma card_keys:
  assumes "wf_log sz l"
  shows "card (l_sector l ` {..<nat (l_n l)}) = nat (l_n l)"
proof -
  have "distinct (map (l_sector l) [0..<nat (l_n l)])" using assms by (simp add: wf_log_def)
  then have "inj_on (l_sector l) {..<nat (l_n l)}" by (simp add: distinct_map atLeast0LessThan)
  then show ?thesis by (simp add: card_image)
qed

lemma wf_logged:
  assumes wf: "wf_log sz l" and n: "0 \<le> l_n l" and k: "k < sz" "k \<notin> log_area l"
    and room: "nat (l_n (logged k l)) \<le> LOGSIZE" "nat (l_n (logged k l)) < l_size l"
  shows "wf_log sz (logged k l)"
proof -
  have "inj_on (l_sector (logged k l)) {..<nat (l_n (logged k l))}"
  proof (cases rule: log_slot_cases [OF n, of k])
    case (1 i)
    then show ?thesis using wf by (simp add: wf_log_def distinct_map atLeast0LessThan)
  next
    case 2
    have "inj_on (l_sector l) {..<nat (l_n l)}"
      using wf by (simp add: wf_log_def distinct_map atLeast0LessThan)
    moreover have "nat (l_n l + 1) = Suc (nat (l_n l))" using n by simp
    ultimately show ?thesis using 2 by (auto simp: lessThan_Suc inj_on_def)
  qed
  then have "distinct (map (l_sector (logged k l)) [0..<nat (l_n (logged k l))])"
    by (simp add: distinct_map atLeast0LessThan)
  moreover have "l_sector (logged k l) i < sz \<and> l_sector (logged k l) i \<notin> log_area l"
    if "i < nat (l_n (logged k l))" for i
  proof -
    have "l_sector (logged k l) i \<in> insert k (l_sector l ` {..<nat (l_n l)})"
      unfolding logged_keys(1) [OF n, symmetric] using that by blast
    with wf k show ?thesis by (auto simp: wf_log_def)
  qed
  ultimately show ?thesis using wf room by (simp add: wf_log_def)
qed

section \<open>An update inside a transaction\<close>

lemma log_written_fields:
  "alog (log_written k A) = logged k (alog A)"
  "av_view (log_written k A) = (av_view A)(l_start (alog A) + log_slot (alog A) k + 1 := av_view A k)"
  "av_disk (log_written k A) = (av_disk A)(l_start (alog A) + log_slot (alog A) k + 1 := av_view A k)"
  "av_pinned (log_written k A) = insert k (av_pinned A - {l_start (alog A) + log_slot (alog A) k + 1})"
  "av_trace (log_written k A) = av_trace A @ [(l_start (alog A) + log_slot (alog A) k + 1, av_view A k)]"
  "av_held (log_written k A) = av_held A" "av_size (log_written k A) = av_size A"
  by (simp_all add: log_written_def logged_def Let_def)

lemma in_trans_update:
  fixes d :: blk
  assumes t: "in_trans d0 tr0 A" and k: "k < av_size A" "k \<notin> log_area (alog A)"
    and room: "nat (l_n (logged k (alog A))) \<le> LOGSIZE" "nat (l_n (logged k (alog A))) < l_size (alog A)"
  defines "B \<equiv> log_written k (A\<lparr>av_view := (av_view A)(k := d)\<rparr>)"
  shows "in_trans d0 tr0 B" and "\<And>j. j \<notin> log_area (alog A) \<Longrightarrow> av_view B j = ((av_view A)(k := d)) j"
    and "alog B = logged k (alog A)" and "av_size B = av_size A"
proof -
  let ?l = "alog A" and ?i = "log_slot (alog A) k"
  let ?j = "l_start (alog A) + ?i + 1"
  have n: "0 \<le> l_n ?l" and wf: "wf_log (av_size A) ?l" using t by (simp_all add: in_trans_def)
  note lk = logged_keys [OF n, where k = k]
  note f = log_written_fields [of k "A\<lparr>av_view := (av_view A)(k := d)\<rparr>", folded B_def, simplified]
  show al: "alog B = logged k ?l" "av_size B = av_size A" by (simp_all add: f)
  have ja: "?j \<in> log_area ?l" using lk(2) room(2) by (simp add: log_area_def)
  then show vw: "av_view B j = ((av_view A)(k := d)) j" if "j \<notin> log_area ?l" for j
    using that by (auto simp: f)
  have wf': "wf_log (av_size B) (alog B)"
    unfolding al by (rule wf_logged [OF wf n k room])
  have slots: "av_view B (l_start ?l + i + 1) = av_view B (l_sector (logged k ?l) i)"
    if i: "i < nat (l_n (logged k ?l))" for i
  proof (cases "i = ?i")
    case True
    then show ?thesis using k(2) ja by (auto simp: f lk(3))
  next
    case False
    with lk(5) [OF i] have o: "i < nat (l_n ?l)" "l_sector (logged k ?l) i = l_sector ?l i" by auto
    then have "av_view A (l_start ?l + i + 1) = av_view A (l_sector ?l i)"
      using t by (simp add: in_trans_def)
    moreover have "l_sector ?l i \<noteq> k"
      using wf_logD(5) [OF wf' [unfolded al] i lk(2)] False o(2) lk(3) by auto
    moreover have "l_sector ?l i \<noteq> ?j" "l_start ?l + i + 1 \<noteq> k"
      using wf_logD(4) [OF wf' [unfolded al] i, of ?i] lk(2) o k(2) i room(2) by (auto simp: log_area_def)
    ultimately show ?thesis using False by (simp add: f o)
  qed
  have np: "?j \<notin> l_sector ?l ` {..<nat (l_n ?l)}"
    using wf ja by (auto simp: wf_log_def)
  have "\<exists>tr. av_trace B = tr0 @ tr \<and> av_disk B = apply_writes d0 tr \<and>
        (\<forall>w\<in>set tr. l_start ?l < fst w \<and> fst w < l_start ?l + l_size ?l)"
  proof -
    obtain tr where tr: "av_trace A = tr0 @ tr" "av_disk A = apply_writes d0 tr"
      "\<forall>w\<in>set tr. l_start ?l < fst w \<and> fst w < l_start ?l + l_size ?l"
      using t by (auto simp: in_trans_def)
    then show ?thesis using ja by (intro exI [of _ "tr @ [(?j, d)]"]) (auto simp: f log_area_def)
  qed
  with t wf' slots np lk show "in_trans d0 tr0 B"
    by (simp add: in_trans_def al f)
qed

lemma log_update_at:
  assumes t: "in_trans d0 tr0 A" and k: "k < av_size A" "k \<notin> log_area (alog A)"
    and n: "l_n (alog A) < int LOGSIZE - 1" "LOGSIZE \<le> l_size (alog A)"
    and c: "card (insert k (av_pinned A)) < NBUF"
  shows "hoare (bc.at A) (log_update k d) (\<lambda>_. bc.at (log_written k (A\<lparr>av_view := (av_view A)(k := d)\<rparr>)))"
proof -
  let ?l = "alog A"
  let ?j = "l_start ?l + log_slot ?l k + 1"
  have f: "finite (av_pinned A)" "av_held A = Map.empty" "l_busy ?l" "0 \<le> l_n ?l" "wf_log (av_size A) ?l"
    using t by (simp_all add: in_trans_def)
  have s: "log_slot ?l k + 1 < l_size ?l" using log_slot_le [of ?l k] n f(4) by linarith
  then have j: "?j \<noteq> k" "?j < av_size A"
    using k f(5) by (auto simp: log_area_def wf_log_def)
  have pc: "card (av_pinned A) < NBUF"
    using c f(1) card_insert_le [of "av_pinned A" k] by linarith
  show ?thesis
    unfolding log_update_def
    apply (rule bc.bind_rd)
       apply (use f k pc in \<open>simp_all add: room_def\<close>) [3]
    apply (rule bc.bind_setd [where k = k], simp)
    apply (rule hoare_bind [OF log_write_at [where k = k]])
           apply (use f n j c in \<open>simp_all add: room_def\<close>) [8]
    apply (rule hoare_post [OF bc.rel_last [where k = k]])
      apply (simp_all add: log_written_fields settled_def) [2]
    using f(2) by (cases A) (simp add: log_written_def Let_def put_block_def with_log_def)
qed

text \<open>What a sequence of updates does to the abstract state.\<close>

definition updated :: "bcabs \<Rightarrow> (nat \<times> blk) list \<Rightarrow> bcabs \<Rightarrow> bool" where
  "updated A us B \<longleftrightarrow>
     av_size B = av_size A \<and> l_start (alog B) = l_start (alog A) \<and> l_size (alog B) = l_size (alog A) \<and>
     l_dev (alog B) = l_dev (alog A) \<and> av_pinned B = av_pinned A \<union> fst ` set us \<and>
     (\<forall>k. k \<notin> log_area (alog A) \<longrightarrow> av_view B k = apply_writes (av_view A) us k)"

lemma updated_area: "updated A us B \<Longrightarrow> log_area (alog B) = log_area (alog A)"
  by (simp add: updated_def log_area_def)

lemma updated_trans:
  assumes "updated A us B" and "updated B vs C"
  shows "updated A (us @ vs) C"
proof -
  have "av_view C k = apply_writes (av_view A) (us @ vs) k" if "k \<notin> log_area (alog A)" for k
  proof -
    have "av_view C k = apply_writes (av_view B) vs k"
      using assms(2) that updated_area [OF assms(1)] by (simp add: updated_def)
    also have "\<dots> = apply_writes (apply_writes (av_view A) us) vs k"
      by (rule apply_writes_cong) (use assms(1) that in \<open>simp add: updated_def\<close>)
    finally show ?thesis by simp
  qed
  then show ?thesis using assms by (simp add: updated_def Un_assoc image_Un)
qed

lemma updated_one:
  assumes t: "in_trans d0 tr0 A" and k: "k < av_size A" "k \<notin> log_area (alog A)"
    and room: "nat (l_n (logged k (alog A))) \<le> LOGSIZE" "nat (l_n (logged k (alog A))) < l_size (alog A)"
  shows "updated A [(k, d)] (log_written k (A\<lparr>av_view := (av_view A)(k := d)\<rparr>))" (is "updated A _ ?B")
proof -
  note B = in_trans_update [OF t k room, where d = d]
  have n: "0 \<le> l_n (alog A)" "av_pinned A = l_sector (alog A) ` {..<nat (l_n (alog A))}"
    using t by (simp_all add: in_trans_def)
  have "av_pinned ?B = l_sector (alog ?B) ` {..<nat (l_n (alog ?B))}"
    using B(1) by (simp only: in_trans_def)
  then have "av_pinned ?B = av_pinned A \<union> {k}"
    unfolding B(3) logged_keys(1) [OF n(1)] n(2) by blast
  with B(2-4) show ?thesis by (simp add: updated_def)
qed

lemma log_updates_at:
  assumes "in_trans d0 tr0 A" and "\<forall>u\<in>set us. fst u < av_size A \<and> fst u \<notin> log_area (alog A)"
    and "card (av_pinned A \<union> fst ` set us) < LOGSIZE - 1" and "LOGSIZE \<le> l_size (alog A)"
  shows "hoare (bc.at A) (log_updates us)
           (\<lambda>_ s. \<exists>B. bc.at B s \<and> in_trans d0 tr0 B \<and> updated A us B)"
  using assms
proof (induction us arbitrary: A)
  case Nil
  then show ?case by (auto simp: hoare_def updated_def)
next
  case (Cons u us)
  obtain k d where u: "u = (k, d)" by (cases u)
  let ?B = "log_written k (A\<lparr>av_view := (av_view A)(k := d)\<rparr>)"
  have k: "k < av_size A" "k \<notin> log_area (alog A)" using Cons.prems(2) u by simp_all
  have f: "0 \<le> l_n (alog A)" "wf_log (av_size A) (alog A)"
    "av_pinned A = l_sector (alog A) ` {..<nat (l_n (alog A))}"
    using Cons.prems(1) by (simp_all add: in_trans_def)
  then have fin: "finite (av_pinned A)" by simp
  have c1: "card (av_pinned A) < LOGSIZE - 1" "card (insert k (av_pinned A)) < LOGSIZE - 1"
    by (rule le_less_trans [OF card_mono Cons.prems(3)]; use fin u in auto)+
  have "card (av_pinned A) = nat (l_n (alog A))" using card_keys [OF f(2)] f(3) by simp
  then have n: "l_n (alog A) < int LOGSIZE - 1" using c1(1) f(1) by (simp add: LOGSIZE_def)
  have step: "hoare (bc.at A) (log_update k d) (\<lambda>_. bc.at ?B)"
    by (rule log_update_at [OF Cons.prems(1) k n Cons.prems(4)])
      (use c1 in \<open>simp add: NBUF_def LOGSIZE_def\<close>)
  have "l_n (logged k (alog A)) \<le> l_n (alog A) + 1"
    using f(1) by (cases rule: log_slot_cases [of "alog A" k]) simp_all
  then have room: "nat (l_n (logged k (alog A))) \<le> LOGSIZE"
    "nat (l_n (logged k (alog A))) < l_size (alog A)" using n Cons.prems(4) by (simp_all add: LOGSIZE_def)
  note B = in_trans_update(1) [OF Cons.prems(1) k room, where d = d]
    and up = updated_one [OF Cons.prems(1) k room, where d = d]
  have IH: "hoare (bc.at ?B) (log_updates us)
      (\<lambda>_ s. \<exists>C. bc.at C s \<and> in_trans d0 tr0 C \<and> updated ?B us C)"
  proof (rule Cons.IH [OF B])
    show "\<forall>u\<in>set us. fst u < av_size ?B \<and> fst u \<notin> log_area (alog ?B)" "LOGSIZE \<le> l_size (alog ?B)"
      using Cons.prems(2,4) up updated_area [OF up] by (simp_all add: updated_def)
    have "av_pinned ?B \<union> fst ` set us = av_pinned A \<union> fst ` set (u # us)"
      using up u by (simp add: updated_def)
    with Cons.prems(3) show "card (av_pinned ?B \<union> fst ` set us) < LOGSIZE - 1" by simp
  qed
  have "hoare (bc.at A) (bindK (log_update k d) (\<lambda>_. log_updates us))
      (\<lambda>_ s. \<exists>C. bc.at C s \<and> in_trans d0 tr0 C \<and> updated A (u # us) C)"
    by (rule hoare_bind [OF step], rule hoare_post [OF IH]) (use updated_trans [OF up] u in auto)
  then show ?case by (simp add: u)
qed

section \<open>Recovery\<close>

text \<open>What recovery makes of a disk, as a function.\<close>

definition recover_disk :: "logst \<Rightarrow> (nat \<Rightarrow> blk) \<Rightarrow> nat \<Rightarrow> blk" where
  "recover_disk l d = (apply_writes d (entries d (dec_head (d (l_start l)) l)))
     (l_start l := put32 (d (l_start l)) 0 0)"

text \<open>The kernel after a boot: the cache holds nothing that is not on disk.\<close>

definition booted :: "kernel \<Rightarrow> bool" where
  "booted s \<longleftrightarrow> bc_inv s \<and> bc_held s = Map.empty \<and> bc_pinned s = {}"

lemma booted_view: "booted s \<Longrightarrow> bc_view s = memdisk s"
  using bc.idle_settled [of s] by (auto simp: booted_def settled_def bc_abs_def fun_eq_iff)

lemma recover_impl:
  assumes b: "booted r" and wf: "wf_log (disksize r) (dec_head (memdisk r (l_start (logs r))) (logs r))"
  shows "\<exists>t. recover_from_log r = Ok () t \<and> memdisk t = recover_disk (logs r) (memdisk r) \<and> booted t \<and>
           l_n (logs t) = 0"
proof -
  let ?A = "bc_abs r" and ?l = "dec_head (memdisk r (l_start (logs r))) (logs r)"
  have f: "av_view ?A = memdisk r" "av_disk ?A = memdisk r" "alog ?A = logs r" "av_size ?A = disksize r"
    "av_held ?A = Map.empty" "av_pinned ?A = {}"
    using b booted_view [OF b] by (simp_all add: bc_abs_def booted_def)
  have s: "l_start ?l = l_start (logs r)" by (simp add: dec_head_def)
  have "bc.at ?A r" using b by (simp add: bc.at_def booted_def)
  with recover_at [of ?A] wf obtain t where t: "recover_from_log r = Ok () t"
    "bc.at (put_block (l_start ?l) (put32 (memdisk r (l_start ?l)) 0 0)
       (put_blocks (entries (memdisk r) ?l) (with_log (\<lambda>_. ?l\<lparr>l_n := 0\<rparr>) ?A))) t"
    unfolding f by (auto simp: hoare_def)
  from t(2) have i: "bc_inv t" and a: "bc_abs t = put_block (l_start ?l) (put32 (memdisk r (l_start ?l)) 0 0)
       (put_blocks (entries (memdisk r) ?l) (with_log (\<lambda>_. ?l\<lparr>l_n := 0\<rparr>) ?A))"
    by (simp_all add: bc.at_def)
  have "av_disk (bc_abs t) = recover_disk (logs r) (memdisk r)"
    "av_held (bc_abs t) = Map.empty" "av_pinned (bc_abs t) = {}" "l_n (alog (bc_abs t)) = 0"
    unfolding a put_block_fields put_blocks_fields with_log_fields f
    by (simp_all add: recover_disk_def s)
  with i t(1) show ?thesis by (simp add: booted_def)
qed

section \<open>Every crash point\<close>

definition recovers :: "nat \<Rightarrow> logst \<Rightarrow> (nat \<Rightarrow> blk) \<Rightarrow> (nat \<Rightarrow> blk) \<Rightarrow> bool" where
  "recovers sz l d h \<longleftrightarrow>
     wf_log sz (dec_head (d (l_start l)) l) \<and> (\<forall>k. k \<notin> log_area l \<longrightarrow> recover_disk l d k = h k)"

definition same_place :: "logst \<Rightarrow> logst \<Rightarrow> bool" where
  "same_place l l' \<longleftrightarrow> l_start l' = l_start l \<and> l_size l' = l_size l \<and> l_dev l' = l_dev l"

lemma start_in_area: "wf_log sz l \<Longrightarrow> l_start l \<in> log_area l"
  by (auto simp: wf_log_def log_area_def)

text \<open>A disk whose header says \<open>n = 0\<close> recovers to itself.\<close>

lemma recovers_idle:
  assumes wf: "wf_log sz l" and l': "same_place l l'" and z: "dec_n (d (l_start l)) = 0"
  shows "recovers sz l' d d"
proof -
  have "l_start l \<in> log_area l'" using start_in_area [OF wf] l' by (simp add: log_area_def same_place_def)
  moreover have "wf_log sz (dec_head (d (l_start l)) l')"
    using wf l' z by (simp add: wf_log_def dec_head_def same_place_def)
  moreover have "entries d (dec_head (d (l_start l)) l') = []"
    using z by (simp add: entries_def dec_head_def)
  ultimately show ?thesis
    using l' by (auto simp: recovers_def recover_disk_def same_place_def)
qed

text \<open>A disk with the header of \<open>l\<close> and all the log blocks recovers to the installed blocks,
  whichever of them had been installed before.\<close>

lemma recovers_replay:
  assumes wf: "wf_log sz l" and l': "same_place l l'" and n: "0 \<le> l_n l" "sz \<le> 2 ^ 32"
    and h: "d (l_start l) = enc_head x l"
    and e: "\<And>i. i < nat (l_n l) \<Longrightarrow> d (l_start l + i + 1) = v (l_start l + i + 1)"
    and o: "\<And>k. k \<notin> log_area l \<Longrightarrow> k \<notin> fst ` set (entries v l) \<Longrightarrow> d k = d' k"
  shows "recovers sz l' d (apply_writes d' (entries v l))"
proof -
  let ?h = "dec_head (d (l_start l)) l'"
  have k32: "l_sector l i < 2 ^ 32" if "i < nat (l_n l)" for i
    using wf_logD(1) [OF wf that] n(2) by linarith
  have "nat (l_n l) \<le> LOGSIZE" using wf by (simp add: wf_log_def)
  note de = dec_enc_head [OF n(1) this k32, where d = x]
  have hn: "l_n ?h = l_n l" and hs: "\<And>i. i < nat (l_n l) \<Longrightarrow> l_sector ?h i = l_sector l i"
    and hp: "l_start ?h = l_start l" "l_size ?h = l_size l" "l_dev ?h = l_dev l" "log_area ?h = log_area l"
    using de l' by (simp_all add: dec_head_def h same_place_def log_area_def)
  have ms: "map (l_sector ?h) [0..<nat (l_n l)] = map (l_sector l) [0..<nat (l_n l)]"
    using hs by simp
  have wf': "wf_log sz ?h" using wf hs unfolding wf_log_def hn hp ms by simp
  have en: "entries d ?h = entries v l" using hs e by (simp add: entries_def hn hp)
  have dist: "distinct (map fst (entries v l))"
    using wf by (simp add: wf_log_def entries_def comp_def)
  have "recover_disk l' d k = apply_writes d' (entries v l) k" if k: "k \<notin> log_area l'" for k
  proof -
    have area: "log_area l' = log_area l" using l' by (simp add: log_area_def same_place_def)
    have "k \<noteq> l_start l" using k start_in_area [OF wf] area by auto
    then have "recover_disk l' d k = apply_writes d (entries v l) k"
      using l' en by (simp add: recover_disk_def same_place_def)
    also have "\<dots> = apply_writes d' (entries v l) k"
    proof (cases "k \<in> fst ` set (entries v l)")
      case True
      then obtain w where "(k, w) \<in> set (entries v l)" by force
      then show ?thesis by (simp add: apply_writes_in [OF dist])
    next
      case False
      then show ?thesis using o k area by (simp add: apply_writes_other)
    qed
    finally show ?thesis .
  qed
  with wf' l' show ?thesis by (simp add: recovers_def same_place_def)
qed

text \<open>The blocks that a commit installs are the contents that the users of the cache see.\<close>

lemma install_view:
  assumes t: "in_trans d0 tr0 A" and s: "\<And>k. settled A k" and k: "k \<notin> log_area (alog A)"
  shows "apply_writes (av_disk A) (entries (av_view A) (alog A)) k = av_view A k"
proof (cases "k \<in> fst ` set (entries (av_view A) (alog A))")
  case True
  have wf: "wf_log (av_size A) (alog A)" using t by (simp add: in_trans_def)
  have dist: "distinct (map fst (entries (av_view A) (alog A)))"
    using wf by (simp add: wf_log_def entries_def comp_def)
  from True obtain i where i: "i < nat (l_n (alog A))" "k = l_sector (alog A) i"
    by (auto simp: entries_keys)
  then have "(k, av_view A (l_start (alog A) + i + 1)) \<in> set (entries (av_view A) (alog A))"
    by (auto simp: entries_def)
  then have "apply_writes (av_disk A) (entries (av_view A) (alog A)) k = av_view A (l_start (alog A) + i + 1)"
    by (rule apply_writes_in [OF dist])
  also have "\<dots> = av_view A k" using t i by (simp add: in_trans_def)
  finally show ?thesis .
next
  case False
  then have "k \<notin> av_pinned A" using t by (simp add: in_trans_def entries_keys)
  then show ?thesis using s [of k] False by (simp add: apply_writes_other settled_def)
qed

text \<open>Before the commit point only log blocks have been written.\<close>

lemma body_writes:
  assumes "\<forall>w\<in>set tr. l_start l < fst w \<and> fst w < l_start l + l_size l"
    and "k = l_start l \<or> k \<notin> log_area l"
  shows "apply_writes d0 (take m tr) k = d0 k"
proof (rule apply_writes_other)
  have "fst ` set tr \<subseteq> log_area l - {l_start l}" using assms(1) by (force simp: log_area_def)
  then have "fst ` set (take m tr) \<subseteq> log_area l - {l_start l}" using set_take_subset by fastforce
  then show "k \<notin> fst ` set (take m tr)" using assms(2) by blast
qed

lemma recovers_before:
  assumes t: "in_trans d0 tr0 A" and l': "same_place (alog A) l'"
    and tr: "\<forall>w\<in>set tr. l_start (alog A) < fst w \<and> fst w < l_start (alog A) + l_size (alog A)"
  shows "recovers (av_size A) l' (apply_writes d0 (take m tr)) d0"
proof -
  let ?d = "apply_writes d0 (take m tr)"
  have wf: "wf_log (av_size A) (alog A)" and z: "dec_n (d0 (l_start (alog A))) = 0"
    using t by (simp_all add: in_trans_def)
  have "recovers (av_size A) l' ?d ?d"
    by (rule recovers_idle [OF wf l']) (use body_writes [OF tr] z in simp)
  moreover have "log_area l' = log_area (alog A)" using l' by (simp add: log_area_def same_place_def)
  ultimately show ?thesis using body_writes [OF tr] by (simp add: recovers_def)
qed

text \<open>The writes of a commit, cut at any point.\<close>

lemma commit_crash:
  assumes t: "in_trans d0 tr0 A" and s: "\<And>k. settled A k" and l': "same_place (alog A) l'"
    and tr: "av_disk A = apply_writes d0 tr"
      "\<forall>w\<in>set tr. l_start (alog A) < fst w \<and> fst w < l_start (alog A) + l_size (alog A)"
  defines "h \<equiv> enc_head (av_view A (l_start (alog A))) (alog A)"
  defines "full \<equiv> tr @ (l_start (alog A), h) # entries (av_view A) (alog A) @
             [(l_start (alog A), put32 h 0 0)]"
  shows "recovers (av_size A) l' (apply_writes d0 (take m full)) d0 \<or>
         recovers (av_size A) l' (apply_writes d0 (take m full)) (av_view A)"
proof -
  let ?l = "alog A" and ?e = "entries (av_view A) (alog A)" and ?k = "l_start (alog A)"
  have wf: "wf_log (av_size A) ?l" and n: "0 \<le> l_n ?l" "av_size A \<le> 2 ^ 32" and z: "dec_n (d0 ?k) = 0"
    using t by (simp_all add: in_trans_def)
  have area: "log_area l' = log_area ?l" using l' by (simp add: log_area_def same_place_def)
  have new: "apply_writes (av_disk A) ?e k = av_view A k" if "k \<notin> log_area ?l" for k
    by (rule install_view [OF t s that])
  consider (before) "m \<le> length tr" | (installing) "length tr < m" "m \<le> length tr + 1 + length ?e"
    | (finished) "m > length tr + 1 + length ?e" by linarith
  then show ?thesis
  proof cases
    case before
    then show ?thesis using recovers_before [OF t l' tr(2)] by (simp add: full_def)
  next
    case installing
    define j where "j = m - length tr - 1"
    have j: "m = length tr + 1 + j" "j \<le> length ?e" using installing by (simp_all add: j_def)
    let ?d = "apply_writes ((av_disk A)(?k := h)) (take j ?e)"
    have sub: "fst ` set (take j ?e) \<subseteq> fst ` set ?e" using set_take_subset by fastforce
    have st: "?k \<notin> fst ` set (take j ?e)" using start_not_entry [OF wf] sub by blast
    have "recovers (av_size A) l' ?d (apply_writes (av_disk A) ?e)"
    proof (rule recovers_replay [OF wf l' n])
      show "?d ?k = enc_head (av_view A ?k) ?l" using st by (simp add: apply_writes_other h_def)
    next
      fix i
      assume i: "i < nat (l_n ?l)"
      have "?k + i + 1 \<in> log_area ?l" using i wf by (auto simp: wf_log_def log_area_def)
      then have np: "?k + i + 1 \<notin> fst ` set ?e" "?k + i + 1 \<notin> av_pinned A"
        using wf t by (auto simp: wf_log_def entries_keys in_trans_def)
      then have "?d (?k + i + 1) = av_disk A (?k + i + 1)"
        using sub by (subst apply_writes_other) auto
      then show "?d (?k + i + 1) = av_view A (?k + i + 1)"
        using s [of "?k + i + 1"] np by (simp add: settled_def)
    next
      fix k
      assume "k \<notin> log_area ?l" "k \<notin> fst ` set ?e"
      then show "?d k = av_disk A k"
        using sub start_in_area [OF wf] by (subst apply_writes_other) auto
    qed
    then have "recovers (av_size A) l' ?d (av_view A)" using new area by (simp add: recovers_def)
    moreover have "apply_writes d0 (take m full) = ?d"
      using j tr(1) by (simp add: full_def)
    ultimately show ?thesis by simp
  next
    case finished
    let ?d = "(apply_writes ((av_disk A)(?k := h)) ?e)(?k := put32 h 0 0)"
    have "recovers (av_size A) l' ?d ?d" by (rule recovers_idle [OF wf l']) simp
    moreover have "?d k = av_view A k" if "k \<notin> log_area ?l" for k
    proof -
      have ne: "k \<noteq> ?k" using that start_in_area [OF wf] by auto
      have "apply_writes ((av_disk A)(?k := h)) ?e k = apply_writes (av_disk A) ?e k"
        by (rule apply_writes_cong) (use ne in simp)
      with ne new [OF that] show ?thesis by simp
    qed
    ultimately have "recovers (av_size A) l' ?d (av_view A)" using area by (simp add: recovers_def)
    moreover have "take m full = full" using finished by (simp add: full_def)
    then have "apply_writes d0 (take m full) = ?d" using tr(1) by (simp add: full_def)
    ultimately show ?thesis by simp
  qed
qed

section \<open>Atomicity of a transaction\<close>

definition log_ready :: "kernel \<Rightarrow> bool" where
  "log_ready s \<longleftrightarrow> booted s \<and> disksize s \<le> 2 ^ 32 \<and> wf_log (disksize s) (logs s) \<and>
     LOGSIZE \<le> l_size (logs s) \<and> l_n (logs s) = 0 \<and> \<not> l_busy (logs s) \<and>
     dec_n (memdisk s (l_start (logs s))) = 0"

lemma begin_trans_at:
  assumes "log_ready s"
  shows "\<exists>t. begin_trans s = Ok () t \<and> bc.at (with_log (\<lambda>l. l\<lparr>l_busy := True\<rparr>) (bc_abs s)) t \<and>
     in_trans (memdisk s) (wtrace s) (with_log (\<lambda>l. l\<lparr>l_busy := True\<rparr>) (bc_abs s))"
proof -
  let ?t = "s\<lparr>logs := (logs s)\<lparr>l_busy := True\<rparr>\<rparr>"
  have "bc_inv ?t = bc_inv s" by (rule bc_frame) simp_all
  moreover have "bc_abs ?t = (bc_abs s)\<lparr>av_rest := rest ?t\<rparr>" by (rule bc_frame) simp_all
  moreover have "rest ?t = (rest s)\<lparr>logs := (logs s)\<lparr>l_busy := True\<rparr>\<rparr>"
    by (simp add: rest_def procs_data_def)
  ultimately have "bc.at (with_log (\<lambda>l. l\<lparr>l_busy := True\<rparr>) (bc_abs s)) ?t"
    using assms by (simp add: bc.at_def with_log_def log_ready_def booted_def)
  moreover have "begin_trans s = Ok () ?t" using assms by (simp add: begin_trans_def log_ready_def)
  moreover have "in_trans (memdisk s) (wtrace s) (with_log (\<lambda>l. l\<lparr>l_busy := True\<rparr>) (bc_abs s))"
    using assms by (simp add: in_trans_def log_ready_def booted_def wf_log_def log_area_def)
  ultimately show ?thesis by blast
qed

lemma committed_fields:
  fixes A :: bcabs
  defines "l \<equiv> alog A"
  defines "h \<equiv> enc_head (av_view A (l_start l)) l"
  shows "av_trace (committed A) = av_trace A @ (l_start l, h) # entries (av_view A) l @ [(l_start l, put32 h 0 0)]"
    and "av_disk (committed A) = apply_writes (av_disk A)
           ((l_start l, h) # entries (av_view A) l @ [(l_start l, put32 h 0 0)])"
    and "alog (committed A) = l\<lparr>l_n := 0, l_busy := False\<rparr>"
    and "av_pinned (committed A) = av_pinned A - fst ` set (entries (av_view A) l) - {l_start l}"
    and "av_held (committed A) = av_held A" and "av_size (committed A) = av_size A"
    and "av_rest (committed A) = (av_rest A)\<lparr>logs := l\<lparr>l_n := 0, l_busy := False\<rparr>\<rparr>"
  by (auto simp: committed_def Let_def l_def h_def with_log_def put_block_def put_blocks_def)

text \<open>One transaction on a ready log: it returns, leaves the log ready, and every crash point
  recovers.\<close>

lemma commit_atomic:
  assumes t: "in_trans d0 tr0 A" and at: "bc.at A s" and c: "card (av_pinned A) < NBUF"
    and ls: "LOGSIZE \<le> l_size (alog A)"
  shows "\<exists>t tr. commit_trans s = Ok () t \<and> wtrace t = tr0 @ tr \<and> memdisk t = apply_writes d0 tr \<and>
     log_ready t \<and> same_place (alog A) (logs t) \<and> disksize t = av_size A \<and>
     rest t = (av_rest A)\<lparr>logs := logs t\<rparr> \<and>
     (\<forall>k. k \<notin> log_area (alog A) \<longrightarrow> memdisk t k = av_view A k) \<and>
     (\<forall>m l'. same_place (alog A) l' \<longrightarrow>
        recovers (av_size A) l' (apply_writes d0 (take m tr)) d0 \<or>
        recovers (av_size A) l' (apply_writes d0 (take m tr)) (av_view A))"
proof -
  let ?l = "alog A"
  obtain tr where tr: "av_trace A = tr0 @ tr" "av_disk A = apply_writes d0 tr"
    "\<forall>w\<in>set tr. l_start ?l < fst w \<and> fst w < l_start ?l + l_size ?l"
    using t by (auto simp: in_trans_def)
  have f: "wf_log (av_size A) ?l" "av_held A = Map.empty" "0 \<le> l_n ?l" "av_size A \<le> 2 ^ 32"
    "av_pinned A = l_sector ?l ` {..<nat (l_n ?l)}" "dec_n (d0 (l_start ?l)) = 0"
    using t by (simp_all add: in_trans_def)
  have wf0: "wf_log (av_size A) (?l\<lparr>l_n := 0, l_busy := False\<rparr>)"
    using f(1) by (auto simp: wf_log_def)
  have s: "settled A k" for k using bc.at_settled [OF at] f(2) by simp
  have "\<exists>B tr'. hoare (bc.at A) commit_trans (\<lambda>_. bc.at B) \<and> av_trace B = tr0 @ tr' \<and>
     av_disk B = apply_writes d0 tr' \<and> av_held B = Map.empty \<and> av_pinned B = {} \<and>
     av_size B = av_size A \<and> av_rest B = (av_rest A)\<lparr>logs := ?l\<lparr>l_n := 0, l_busy := False\<rparr>\<rparr> \<and>
     dec_n (av_disk B (l_start ?l)) = 0 \<and> (\<forall>k. k \<notin> log_area ?l \<longrightarrow> av_disk B k = av_view A k) \<and>
     (\<forall>m l'. same_place ?l l' \<longrightarrow> recovers (av_size A) l' (apply_writes d0 (take m tr')) d0 \<or>
        recovers (av_size A) l' (apply_writes d0 (take m tr')) (av_view A))"
  proof (cases "l_n ?l = 0")
    case True
    have "hoare (bc.at A) commit_trans (\<lambda>_. bc.at (with_log (\<lambda>l. l\<lparr>l_busy := False\<rparr>) A))"
      by (rule commit_nothing_at) (use True in simp)
    moreover have "av_disk A k = av_view A k" for k
      using s [of k] f(5) True by (simp add: settled_def)
    moreover have "dec_n (av_disk A (l_start ?l)) = 0"
      using body_writes [OF tr(3), of "l_start ?l" d0 "length tr"] tr(2) f(6) by simp
    moreover have "?l\<lparr>l_busy := False\<rparr> = ?l\<lparr>l_n := 0, l_busy := False\<rparr>" using True by (cases ?l) simp
    ultimately show ?thesis
      using tr f True recovers_before [OF t _ tr(3)]
      by (intro exI [of _ "A\<lparr>av_rest := (av_rest A)\<lparr>logs := ?l\<lparr>l_n := 0, l_busy := False\<rparr>\<rparr>\<rparr>"] exI [of _ tr])
        (simp add: with_log_def)
  next
    case False
    let ?h = "enc_head (av_view A (l_start ?l)) ?l"
    let ?ws = "(l_start ?l, ?h) # entries (av_view A) ?l @ [(l_start ?l, put32 ?h 0 0)]"
    note cf = committed_fields [of A]
    have "hoare (bc.at A) commit_trans (\<lambda>_. bc.at (committed A))"
      by (rule commit_at) (use f c False in simp_all)
    moreover have "av_disk (committed A) k = av_view A k" if "k \<notin> log_area ?l" for k
    proof -
      have ne: "k \<noteq> l_start ?l" using that start_in_area [OF f(1)] by auto
      have "apply_writes ((av_disk A)(l_start ?l := ?h)) (entries (av_view A) ?l) k =
          apply_writes (av_disk A) (entries (av_view A) ?l) k"
        by (rule apply_writes_cong) (use ne in simp)
      with ne install_view [OF t s that] show ?thesis by (simp add: cf(2))
    qed
    moreover have "av_pinned (committed A) = {}" using f(5) by (simp add: cf(4) entries_keys)
    moreover have "\<forall>m l'. same_place ?l l' \<longrightarrow>
        recovers (av_size A) l' (apply_writes d0 (take m (tr @ ?ws))) d0 \<or>
        recovers (av_size A) l' (apply_writes d0 (take m (tr @ ?ws))) (av_view A)"
      using commit_crash [OF t s _ tr(2,3)] by blast
    ultimately show ?thesis
      using cf f tr by (intro exI [of _ "committed A"] exI [of _ "tr @ ?ws"]) simp
  qed
  then obtain B tr' where B: "hoare (bc.at A) commit_trans (\<lambda>_. bc.at B)" "av_trace B = tr0 @ tr'"
     "av_disk B = apply_writes d0 tr'" "av_held B = Map.empty" "av_pinned B = {}"
     "av_size B = av_size A" "av_rest B = (av_rest A)\<lparr>logs := ?l\<lparr>l_n := 0, l_busy := False\<rparr>\<rparr>"
     "dec_n (av_disk B (l_start ?l)) = 0" "\<forall>k. k \<notin> log_area ?l \<longrightarrow> av_disk B k = av_view A k"
     and cr: "\<forall>m l'. same_place ?l l' \<longrightarrow> recovers (av_size A) l' (apply_writes d0 (take m tr')) d0 \<or>
        recovers (av_size A) l' (apply_writes d0 (take m tr')) (av_view A)" by blast
  obtain u where u: "commit_trans s = Ok () u" "bc_inv u" "bc_abs u = B"
    using B(1) at by (auto simp: hoare_def bc.at_def)
  have g: "wtrace u = tr0 @ tr'" "memdisk u = apply_writes d0 tr'" "bc_held u = Map.empty" "bc_pinned u = {}"
    "disksize u = av_size A" and r: "rest u = (av_rest A)\<lparr>logs := ?l\<lparr>l_n := 0, l_busy := False\<rparr>\<rparr>"
    using B u(3) by auto
  have lu: "logs u = ?l\<lparr>l_n := 0, l_busy := False\<rparr>" using arg_cong [OF r, of logs] by simp
  have "log_ready u" using g lu wf0 f(4) ls u(2) B(3,8) by (simp add: log_ready_def booted_def)
  with u(1) g r lu B(3,9) cr show ?thesis
    by (intro exI [of _ u] exI [of _ tr']) (simp add: same_place_def)
qed

text \<open>Small machines for the examples: a disk of 64 sectors whose last ten are the log, with given contents,
  and the one with a blank disk.\<close>

definition disk_kernel :: "(nat \<Rightarrow> blk) \<Rightarrow> kernel" where
  "disk_kernel d = (binit (memideinit d 32768 zero_kernel))
     \<lparr>logs := zero_log\<lparr>l_start := 54, l_size := 10, l_dev := 1\<rparr>\<rparr>"

lemma disk_kernel_fields [simp]:
  "disksize (disk_kernel d) = 64" "logs (disk_kernel d) = zero_log\<lparr>l_start := 54, l_size := 10, l_dev := 1\<rparr>"
  "memdisk (disk_kernel d) = d" "wtrace (disk_kernel d) = []"
  by (simp_all add: disk_kernel_def binit_def Let_def memideinit_def zero_kernel_def)

lemma disk_kernel_booted: "booted (disk_kernel d)"
proof -
  let ?z = "memideinit d 32768 zero_kernel"
  have z: "\<forall>b<NBUF. \<not> b_busy (bufs ?z b) \<and> \<not> b_dirty (bufs ?z b)"
    by (simp add: memideinit_def zero_kernel_def zero_buf_def)
  have "bc_inv (disk_kernel d) = bc_inv (binit ?z)"
    by (rule bc_frame) (simp_all add: disk_kernel_def)
  moreover have "slot (disk_kernel d) k = None" for k
    using binit_inv(2) [OF z, of k] by (simp add: slot_def disk_kernel_def)
  ultimately show ?thesis
    using binit_inv(1) [OF z] by (simp add: booted_def bc_held_def bc_pinned_def fun_eq_iff)
qed

lemma disk_kernel_ready: "d 54 = (\<lambda>_. 0) \<Longrightarrow> log_ready (disk_kernel d)"
  using disk_kernel_booted
  by (simp add: log_ready_def wf_log_def zero_log_def LOGSIZE_def dec_n_def get32_def)

definition small_kernel :: kernel where
  "small_kernel = disk_kernel (\<lambda>_ _. 0)"

lemma small_kernel_fields [simp]:
  "disksize small_kernel = 64" "logs small_kernel = zero_log\<lparr>l_start := 54, l_size := 10, l_dev := 1\<rparr>"
  "memdisk small_kernel = (\<lambda>_ _. 0)" "wtrace small_kernel = []"
  by (simp_all add: small_kernel_def)

lemma small_kernel_ready: "log_ready small_kernel"
  unfolding small_kernel_def by (rule disk_kernel_ready) simp

text \<open>C1. A transaction is atomic under crashes. On a ready log, \<open>begin_trans\<close>, block updates of
  at most \<open>LOGSIZE - 2\<close> different home sectors and \<open>commit_trans\<close> return normally, leave the log
  ready for the next transaction and leave the new contents on disk. Cut the sequence of sector
  writes at any point \<open>m\<close>, boot with an empty cache and run \<open>recover_from_log\<close>: it returns, and
  the blocks outside the log are all as before the transaction or all as after it.\<close>

theorem trans_crash_atomic:
  assumes "log_ready s" and "\<forall>u\<in>set us. fst u < disksize s \<and> fst u \<notin> log_area (logs s)"
    and "card (fst ` set us) < LOGSIZE - 1"
  shows "\<exists>t tr. run_trans us s = Ok () t \<and> log_ready t \<and> wtrace t = wtrace s @ tr \<and>
     memdisk t = apply_writes (memdisk s) tr \<and>
     (\<forall>k. k \<notin> log_area (logs s) \<longrightarrow> memdisk t k = apply_writes (memdisk s) us k) \<and>
     (\<forall>m r. booted r \<and> disksize r = disksize s \<and> same_place (logs s) (logs r) \<and>
            memdisk r = apply_writes (memdisk s) (take m tr) \<longrightarrow>
        (\<exists>r'. recover_from_log r = Ok () r' \<and>
           ((\<forall>k. k \<notin> log_area (logs s) \<longrightarrow> memdisk r' k = memdisk s k) \<or>
            (\<forall>k. k \<notin> log_area (logs s) \<longrightarrow> memdisk r' k = apply_writes (memdisk s) us k))))"
proof -
  let ?A = "with_log (\<lambda>l. l\<lparr>l_busy := True\<rparr>) (bc_abs s)"
  have b: "booted s" "LOGSIZE \<le> l_size (logs s)" using assms(1) by (simp_all add: log_ready_def)
  have view: "av_view ?A = memdisk s" using booted_view [OF b(1)] by simp
  have area: "log_area (alog ?A) = log_area (logs s)" by (simp add: log_area_def)
  have pin: "av_pinned ?A = {}" using b(1) by (simp add: booted_def)
  obtain s1 where s1: "begin_trans s = Ok () s1" "bc.at ?A s1" "in_trans (memdisk s) (wtrace s) ?A"
    using begin_trans_at [OF assms(1)] by blast
  have "hoare (bc.at ?A) (log_updates us)
     (\<lambda>_ t. \<exists>B. bc.at B t \<and> in_trans (memdisk s) (wtrace s) B \<and> updated ?A us B)"
    by (rule log_updates_at [OF s1(3)]) (use assms(2,3) b(2) pin area in simp_all)
  then obtain s2 B where s2: "log_updates us s1 = Ok () s2" "bc.at B s2"
    "in_trans (memdisk s) (wtrace s) B" "updated ?A us B" using s1(2) by (auto simp: hoare_def)
  have place: "same_place (logs s) (alog B)" "av_size B = disksize s" "LOGSIZE \<le> l_size (alog B)"
    "log_area (alog B) = log_area (logs s)"
    using s2(4) b(2) by (simp_all add: updated_def same_place_def log_area_def)
  have "av_pinned B = fst ` set us" using s2(4) pin by (simp add: updated_def)
  then have c: "card (av_pinned B) < NBUF" using assms(3) by (simp add: LOGSIZE_def NBUF_def)
  have new: "av_view B k = apply_writes (memdisk s) us k" if "k \<notin> log_area (logs s)" for k
    using s2(4) that area view by (simp add: updated_def)
  obtain t tr where t: "commit_trans s2 = Ok () t" "wtrace t = wtrace s @ tr"
    "memdisk t = apply_writes (memdisk s) tr" "log_ready t"
    "\<forall>k. k \<notin> log_area (alog B) \<longrightarrow> memdisk t k = av_view B k"
    and cr: "\<And>m l'. same_place (alog B) l' \<Longrightarrow>
        recovers (av_size B) l' (apply_writes (memdisk s) (take m tr)) (memdisk s) \<or>
        recovers (av_size B) l' (apply_writes (memdisk s) (take m tr)) (av_view B)"
    using commit_atomic [OF s2(3,2) c place(3)] by blast
  have crash: "\<exists>r'. recover_from_log r = Ok () r' \<and>
           ((\<forall>k. k \<notin> log_area (logs s) \<longrightarrow> memdisk r' k = memdisk s k) \<or>
            (\<forall>k. k \<notin> log_area (logs s) \<longrightarrow> memdisk r' k = apply_writes (memdisk s) us k))"
    if r: "booted r" "disksize r = disksize s" "same_place (logs s) (logs r)"
      "memdisk r = apply_writes (memdisk s) (take m tr)" for m r
  proof -
    have sp: "same_place (alog B) (logs r)" using r(3) place(1) by (simp add: same_place_def)
    have ar: "log_area (logs r) = log_area (logs s)" using r(3) by (simp add: same_place_def log_area_def)
    obtain h where h: "recovers (disksize r) (logs r) (memdisk r) h"
      "(\<forall>k. k \<notin> log_area (logs s) \<longrightarrow> h k = memdisk s k) \<or>
       (\<forall>k. k \<notin> log_area (logs s) \<longrightarrow> h k = apply_writes (memdisk s) us k)"
      using cr [OF sp, of m, unfolded place(2) r(4) [symmetric] r(2) [symmetric]] new by (elim disjE) blast+
    then obtain r' where "recover_from_log r = Ok () r'" "memdisk r' = recover_disk (logs r) (memdisk r)"
      using recover_impl [OF r(1)] by (auto simp: recovers_def)
    with h ar show ?thesis by (auto simp: recovers_def)
  qed
  have "run_trans us s = Ok () t" using s1(1) s2(1) t(1) by (simp add: run_trans_def bindK_def)
  moreover have "\<forall>k. k \<notin> log_area (logs s) \<longrightarrow> memdisk t k = apply_writes (memdisk s) us k"
    using t(5) new place(4) by simp
  ultimately show ?thesis using t(2-4) crash by blast
qed

theorem trans_crash_atomic_witness:
  "log_ready small_kernel \<and>
   (\<exists>t tr. run_trans [(20, \<lambda>_. 1), (21, \<lambda>_. 2), (20, \<lambda>_. 3)] small_kernel = Ok () t \<and> log_ready t \<and>
      wtrace t = tr \<and> memdisk t 20 = (\<lambda>_. 3) \<and> memdisk t 21 = (\<lambda>_. 2) \<and>
      (\<forall>m r. booted r \<and> disksize r = 64 \<and> same_place (logs small_kernel) (logs r) \<and>
             memdisk r = apply_writes (\<lambda>_ _. 0) (take m tr) \<longrightarrow>
         (\<exists>r'. recover_from_log r = Ok () r' \<and>
            (memdisk r' 20 = (\<lambda>_. 0) \<and> memdisk r' 21 = (\<lambda>_. 0) \<or>
             memdisk r' 20 = (\<lambda>_. 3) \<and> memdisk r' 21 = (\<lambda>_. 2)))))"
proof -
  let ?us = "[(20, \<lambda>_. 1), (21, \<lambda>_. 2), (20, \<lambda>_. 3)] :: (nat \<times> blk) list"
  have out: "20 \<notin> log_area (logs small_kernel)" "21 \<notin> log_area (logs small_kernel)"
    by (simp_all add: log_area_def)
  have us: "\<forall>u\<in>set ?us. fst u < disksize small_kernel \<and> fst u \<notin> log_area (logs small_kernel)"
    "card (fst ` set ?us) < LOGSIZE - 1"
    using out by (simp_all add: LOGSIZE_def card_insert_if)
  have new: "apply_writes (memdisk small_kernel) ?us 20 = (\<lambda>_. 3)"
    "apply_writes (memdisk small_kernel) ?us 21 = (\<lambda>_. 2)"
    by (simp_all add: apply_writes_def)
  obtain t tr where t: "run_trans ?us small_kernel = Ok () t" "log_ready t"
    "wtrace t = wtrace small_kernel @ tr"
    "\<forall>k. k \<notin> log_area (logs small_kernel) \<longrightarrow> memdisk t k = apply_writes (memdisk small_kernel) ?us k"
    "\<forall>m r. booted r \<and> disksize r = disksize small_kernel \<and> same_place (logs small_kernel) (logs r) \<and>
            memdisk r = apply_writes (memdisk small_kernel) (take m tr) \<longrightarrow>
        (\<exists>r'. recover_from_log r = Ok () r' \<and>
           ((\<forall>k. k \<notin> log_area (logs small_kernel) \<longrightarrow> memdisk r' k = memdisk small_kernel k) \<or>
            (\<forall>k. k \<notin> log_area (logs small_kernel) \<longrightarrow> memdisk r' k = apply_writes (memdisk small_kernel) ?us k)))"
    using trans_crash_atomic [OF small_kernel_ready us] by blast
  have "memdisk t 20 = (\<lambda>_. 3)" "memdisk t 21 = (\<lambda>_. 2)" using t(4) out new by simp_all
  moreover have "\<exists>r'. recover_from_log r = Ok () r' \<and>
            (memdisk r' 20 = (\<lambda>_. 0) \<and> memdisk r' 21 = (\<lambda>_. 0) \<or>
             memdisk r' 20 = (\<lambda>_. 3) \<and> memdisk r' 21 = (\<lambda>_. 2))"
    if hyp: "booted r" "disksize r = 64" "same_place (logs small_kernel) (logs r)"
       "memdisk r = apply_writes (\<lambda>_ _. 0) (take m tr)" for m r
  proof -
    obtain r' where r': "recover_from_log r = Ok () r'"
      "(\<forall>k. k \<notin> log_area (logs small_kernel) \<longrightarrow> memdisk r' k = memdisk small_kernel k) \<or>
       (\<forall>k. k \<notin> log_area (logs small_kernel) \<longrightarrow> memdisk r' k = apply_writes (memdisk small_kernel) ?us k)"
      using t(5) [rule_format, of r m] hyp unfolding small_kernel_fields by blast
    from r'(2) have "memdisk r' 20 = (\<lambda>_. 0) \<and> memdisk r' 21 = (\<lambda>_. 0) \<or>
             memdisk r' 20 = (\<lambda>_. 3) \<and> memdisk r' 21 = (\<lambda>_. 2)"
      using out new by (elim disjE) simp_all
    with r'(1) show ?thesis by blast
  qed
  moreover have "wtrace t = tr" using t(3) by simp
  ultimately show ?thesis using small_kernel_ready t(1,2) by blast
qed

end
