(* ===== verification/Trans.thy ===== *)
theory Trans
  imports Log_Crash
begin

text \<open>
  What the log and the cache together promise to the file system. The abstract state shows the
  home blocks, the buffers held, the blocks modified but not yet logged and the blocks logged in
  the current transaction; the log area itself is hidden. The interface is the locale
  \<open>transaction\<close>; one interpretation covers the code inside and outside transactions.
\<close>

section \<open>Abstract state\<close>

record txabs =
  tx_view :: "nat \<Rightarrow> blk"
  tx_held :: "nat \<Rightarrow> nat option"
  tx_dirty :: "nat set"
  tx_logged :: "nat set"
  tx_size :: nat
  tx_rest :: kernel

abbreviation tx_log :: "txabs \<Rightarrow> logst" where
  "tx_log T \<equiv> logs (tx_rest T)"

text \<open>Sector \<open>k\<close> can be read: it is a home block that nobody holds, and the cache has a buffer
  for it.\<close>

definition readable :: "txabs \<Rightarrow> nat \<Rightarrow> bool" where
  "readable T k \<longleftrightarrow> tx_held T k = None \<and> k < tx_size T \<and> k \<notin> log_area (tx_log T) \<and>
     (k \<in> tx_logged T \<or> card (dom (tx_held T) \<union> tx_logged T) < NBUF)"

text \<open>The log has room for block \<open>k\<close>, and the cache for the log's copy of it.\<close>

definition loggable :: "txabs \<Rightarrow> nat \<Rightarrow> bool" where
  "loggable T k \<longleftrightarrow> card (insert k (tx_logged T)) < LOGSIZE - 1 \<and>
     card (insert k (dom (tx_held T) \<union> tx_logged T)) < NBUF"

definition tx_write :: "nat \<Rightarrow> blk \<Rightarrow> txabs \<Rightarrow> txabs" where
  "tx_write k d T = T\<lparr>tx_view := (tx_view T)(k := d), tx_logged := insert k (tx_logged T)\<rparr>"

lemma tx_write_fields [simp]:
  "tx_view (tx_write k d T) = (tx_view T)(k := d)"
  "tx_logged (tx_write k d T) = insert k (tx_logged T)"
  "tx_held (tx_write k d T) = tx_held T" "tx_dirty (tx_write k d T) = tx_dirty T"
  "tx_size (tx_write k d T) = tx_size T" "tx_rest (tx_write k d T) = tx_rest T"
  by (simp_all add: tx_write_def)

definition holding :: "nat \<Rightarrow> nat \<Rightarrow> txabs \<Rightarrow> txabs" where
  "holding k b T = T\<lparr>tx_held := (tx_held T)(k \<mapsto> b)\<rparr>"

lemma holding_fields [simp]:
  "tx_view (holding k b T) = tx_view T" "tx_logged (holding k b T) = tx_logged T"
  "tx_held (holding k b T) = (tx_held T)(k \<mapsto> b)" "tx_dirty (holding k b T) = tx_dirty T"
  "tx_size (holding k b T) = tx_size T" "tx_rest (holding k b T) = tx_rest T"
  by (simp_all add: holding_def)

text \<open>Room for \<open>m\<close> more blocks in the log and in the cache.\<close>

definition budget :: "txabs \<Rightarrow> nat \<Rightarrow> bool" where
  "budget T m \<longleftrightarrow> finite (tx_logged T) \<and> finite (dom (tx_held T)) \<and>
     card (tx_logged T) + m < LOGSIZE - 1 \<and> card (dom (tx_held T) \<union> tx_logged T) + m < NBUF"

definition home :: "txabs \<Rightarrow> nat \<Rightarrow> bool" where
  "home T k \<longleftrightarrow> k < tx_size T \<and> k \<notin> log_area (tx_log T)"

lemma home_simps [simp]:
  "home (tx_write j d T) k = home T k" "home (holding j b T) k = home T k"
  by (simp_all add: home_def)

lemma budget_readable: "budget T m \<Longrightarrow> home T k \<Longrightarrow> tx_held T k = None \<Longrightarrow> readable T k"
  by (simp add: budget_def home_def readable_def)

lemma budget_loggable:
  assumes "budget T (Suc m)"
  shows "loggable T k"
proof -
  have "card (insert k (tx_logged T)) \<le> Suc (card (tx_logged T))"
    "card (insert k (dom (tx_held T) \<union> tx_logged T)) \<le> Suc (card (dom (tx_held T) \<union> tx_logged T))"
    by (rule card_insert_le_m1, simp, simp)+
  with assms show ?thesis unfolding budget_def loggable_def by linarith
qed

lemma budget_write:
  assumes "budget T (Suc m)"
  shows "budget (tx_write k d T) m"
proof -
  have "card (insert k (tx_logged T)) \<le> Suc (card (tx_logged T))"
    "card (insert k (dom (tx_held T) \<union> tx_logged T)) \<le> Suc (card (dom (tx_held T) \<union> tx_logged T))"
    by (rule card_insert_le_m1, simp, simp)+
  with assms show ?thesis unfolding budget_def by simp
qed

lemma budget_rewrite: "budget T m \<Longrightarrow> k \<in> tx_logged T \<Longrightarrow> budget (tx_write k d T) m"
  by (simp add: budget_def insert_absorb)

lemma budget_holding:
  assumes "budget T (Suc m)"
  shows "budget (holding k b T) m"
proof -
  have "card (insert k (dom (tx_held T) \<union> tx_logged T)) \<le> Suc (card (dom (tx_held T) \<union> tx_logged T))"
    by (rule card_insert_le_m1) simp_all
  with assms show ?thesis unfolding budget_def by simp
qed

lemma budget_mono: "budget T m \<Longrightarrow> n \<le> m \<Longrightarrow> budget T n"
  by (simp add: budget_def)

section \<open>The interface\<close>

locale transaction =
  fixes st :: "txabs \<Rightarrow> kernel \<Rightarrow> bool"
    and rd :: "nat \<Rightarrow> nat km"
    and getd :: "nat \<Rightarrow> blk km"
    and setd :: "nat \<Rightarrow> blk \<Rightarrow> unit km"
    and lw :: "nat \<Rightarrow> unit km"
    and rel :: "nat \<Rightarrow> unit km"
  assumes rd_law: "readable T k \<Longrightarrow>
      hoare (st T) (rd k) (\<lambda>b. st (T\<lparr>tx_held := (tx_held T)(k \<mapsto> b)\<rparr>))"
    and getd_law: "tx_held T k = Some b \<Longrightarrow> hoare (st T) (getd b) (\<lambda>d s. d = tx_view T k \<and> st T s)"
    and setd_law: "tx_held T k = Some b \<Longrightarrow> l_busy (tx_log T) \<Longrightarrow>
      hoare (st T) (setd b d) (\<lambda>_. st (T\<lparr>tx_view := (tx_view T)(k := d), tx_dirty := insert k (tx_dirty T)\<rparr>))"
    and lw_law: "tx_held T k = Some b \<Longrightarrow> l_busy (tx_log T) \<Longrightarrow> loggable T k \<Longrightarrow>
      hoare (st T) (lw b) (\<lambda>_. st (T\<lparr>tx_logged := insert k (tx_logged T), tx_dirty := tx_dirty T - {k}\<rparr>))"
    and rel_law: "tx_held T k = Some b \<Longrightarrow> k \<notin> tx_dirty T \<Longrightarrow>
      hoare (st T) (rel b) (\<lambda>_. st (T\<lparr>tx_held := (tx_held T)(k := None)\<rparr>))"
    and dirty_held: "st T s \<Longrightarrow> tx_dirty T \<subseteq> dom (tx_held T)"
begin

lemma bind_rd:
  assumes "readable T k" and "\<And>b. hoare (st (T\<lparr>tx_held := (tx_held T)(k \<mapsto> b)\<rparr>)) (f b) Q"
  shows "hoare (st T) (bindK (rd k) f) Q"
  by (rule hoare_bind [OF rd_law assms(2)]) (rule assms(1))

lemma bind_getd:
  assumes "tx_held T k = Some b" and "v = tx_view T k" and "hoare (st T) (f v) Q"
  shows "hoare (st T) (bindK (getd b) f) Q"
proof (rule hoare_bind [OF getd_law [OF assms(1)]])
  show "hoare (\<lambda>s. d = tx_view T k \<and> st T s) (f d) Q" for d
    using assms(2,3) by (simp add: hoare_def)
qed

lemma bind_setd:
  assumes "tx_held T k = Some b" and "l_busy (tx_log T)"
    and "hoare (st (T\<lparr>tx_view := (tx_view T)(k := d), tx_dirty := insert k (tx_dirty T)\<rparr>)) (f ()) Q"
  shows "hoare (st T) (bindK (setd b d) f) Q"
  by (rule hoare_bind [OF setd_law [OF assms(1,2)]]) (use assms(3) in simp)

lemma bind_lw:
  assumes "tx_held T k = Some b" and "l_busy (tx_log T)" and "loggable T k"
    and "hoare (st (T\<lparr>tx_logged := insert k (tx_logged T), tx_dirty := tx_dirty T - {k}\<rparr>)) (f ()) Q"
  shows "hoare (st T) (bindK (lw b) f) Q"
  by (rule hoare_bind [OF lw_law [OF assms(1-3)]]) (use assms(4) in simp)

lemma bind_rel:
  assumes "tx_held T k = Some b" and "k \<notin> tx_dirty T"
    and "hoare (st (T\<lparr>tx_held := (tx_held T)(k := None)\<rparr>)) (f ()) Q"
  shows "hoare (st T) (bindK (rel b) f) Q"
  by (rule hoare_bind [OF rel_law [OF assms(1,2)]]) (use assms(3) in simp)

lemma hoare_clean:
  assumes "tx_held T k = None" and "k \<notin> tx_dirty T \<Longrightarrow> hoare (st T) m Q"
  shows "hoare (st T) m Q"
  using assms dirty_held by (fastforce simp: hoare_def)

text \<open>The three shapes of the clients' code: read a block, look at it, and either release it or
  modify, log and release it.\<close>

lemma read_then:
  assumes r: "readable T k"
    and h: "\<And>b. k \<notin> tx_dirty T \<Longrightarrow> hoare (st (holding k b T)) (h b (tx_view T k)) Q"
  shows "hoare (st T) (bindK (rd k) (\<lambda>b. bindK (getd b) (h b))) Q"
proof (rule hoare_clean)
  show "tx_held T k = None" using r by (simp add: readable_def)
  assume "k \<notin> tx_dirty T"
  then show ?thesis
    by (intro bind_rd [OF r] bind_getd [where k = k]) (use h in \<open>simp_all add: holding_def\<close>)
qed

lemma read_done:
  assumes "tx_held T k = None" and "k \<notin> tx_dirty T" and "hoare (st T) (f ()) Q"
  shows "hoare (st (holding k b T)) (bindK (rel b) f) Q"
  by (rule bind_rel [where k = k]) (use assms in \<open>simp_all add: holding_def fun_upd_idem\<close>)

lemma update_done:
  assumes r: "tx_held T k = None" "k \<notin> tx_dirty T" "l_busy (tx_log T)" "loggable T k"
    and f: "hoare (st (tx_write k d T)) (f ()) Q"
  shows "hoare (st (holding k b T)) (bindK (setd b d) (\<lambda>_. bindK (lw b) (\<lambda>_. bindK (rel b) f))) Q"
  by (intro bind_setd [where k = k] bind_lw [where k = k] bind_rel [where k = k])
    (use assms in \<open>simp_all add: fun_upd_idem loggable_def tx_write_def holding_def\<close>)

lemma update_last:
  assumes r: "tx_held T k = None" "k \<notin> tx_dirty T" "l_busy (tx_log T)" "loggable T k"
    and f: "\<And>s. st (tx_write k d T) s \<Longrightarrow> Q () s"
  shows "hoare (st (holding k b T)) (bindK (setd b d) (\<lambda>_. bindK (lw b) (\<lambda>_. rel b))) Q"
  using update_done [OF r, of d returnK Q b] f by (simp add: bindK_returnK hoare_def)

lemma overwrite_then:
  assumes r: "readable T k" "l_busy (tx_log T)" "loggable T k"
    and f: "hoare (st (tx_write k d T)) (f ()) Q"
  shows "hoare (st T) (bindK (rd k) (\<lambda>b. bindK (setd b d) (\<lambda>_. bindK (lw b) (\<lambda>_. bindK (rel b) f)))) Q"
proof (rule hoare_clean)
  show h: "tx_held T k = None" using r by (simp add: readable_def)
  assume "k \<notin> tx_dirty T"
  then show ?thesis
    by (intro bind_rd [OF r(1)]) (use update_done [OF h] r f in \<open>simp add: holding_def\<close>)
qed

end

section \<open>The log and the cache implement the interface\<close>

text \<open>\<open>D\<close> are the held blocks that were modified and not logged since. Outside a transaction the
  log is empty and nothing is modified.\<close>

definition tx_inv :: "(nat \<Rightarrow> blk) \<Rightarrow> (nat \<times> blk) list \<Rightarrow> nat set \<Rightarrow> bcabs \<Rightarrow> bool" where
  "tx_inv d0 tr0 D A \<longleftrightarrow>
     wf_log (av_size A) (alog A) \<and> av_size A \<le> 2 ^ 32 \<and> LOGSIZE \<le> l_size (alog A) \<and>
     0 \<le> l_n (alog A) \<and> (\<not> l_busy (alog A) \<longrightarrow> l_n (alog A) = 0 \<and> D = {}) \<and>
     av_pinned A = l_sector (alog A) ` {..<nat (l_n (alog A))} \<and>
     dom (av_held A) \<subseteq> {..<av_size A} - log_area (alog A) \<and> D \<subseteq> dom (av_held A) \<and>
     (\<forall>i<nat (l_n (alog A)). l_sector (alog A) i \<notin> D \<longrightarrow>
        av_view A (l_start (alog A) + i + 1) = av_view A (l_sector (alog A) i)) \<and>
     (\<forall>k. k \<notin> av_pinned A \<and> k \<notin> D \<longrightarrow> av_view A k = av_disk A k) \<and>
     dec_n (d0 (l_start (alog A))) = 0 \<and>
     (\<exists>tr. av_trace A = tr0 @ tr \<and> av_disk A = apply_writes d0 tr \<and>
        (\<forall>w\<in>set tr. l_start (alog A) < fst w \<and> fst w < l_start (alog A) + l_size (alog A)))"

lemma tx_invD:
  assumes "tx_inv d0 tr0 D A"
  shows tx_wf: "wf_log (av_size A) (alog A)" and tx_sizes: "av_size A \<le> 2 ^ 32" "LOGSIZE \<le> l_size (alog A)"
    and tx_n: "0 \<le> l_n (alog A)" and tx_idle: "\<not> l_busy (alog A) \<Longrightarrow> l_n (alog A) = 0 \<and> D = {}"
    and tx_pinned: "av_pinned A = l_sector (alog A) ` {..<nat (l_n (alog A))}"
    and tx_held_home: "dom (av_held A) \<subseteq> {..<av_size A} - log_area (alog A)" and tx_dirty_held: "D \<subseteq> dom (av_held A)"
    and tx_slots: "j < nat (l_n (alog A)) \<Longrightarrow> l_sector (alog A) j \<notin> D \<Longrightarrow>
        av_view A (l_start (alog A) + j + 1) = av_view A (l_sector (alog A) j)"
    and tx_clean: "k \<notin> av_pinned A \<Longrightarrow> k \<notin> D \<Longrightarrow> av_view A k = av_disk A k"
    and tx_head: "dec_n (d0 (l_start (alog A))) = 0"
    and tx_writes: "\<exists>tr. av_trace A = tr0 @ tr \<and> av_disk A = apply_writes d0 tr \<and>
        (\<forall>w\<in>set tr. l_start (alog A) < fst w \<and> fst w < l_start (alog A) + l_size (alog A))"
  using assms unfolding tx_inv_def by blast+

lemma tx_invI:
  assumes "wf_log (av_size A) (alog A)" and "av_size A \<le> 2 ^ 32" and "LOGSIZE \<le> l_size (alog A)"
    and "0 \<le> l_n (alog A)" and "\<not> l_busy (alog A) \<Longrightarrow> l_n (alog A) = 0 \<and> D = {}"
    and "av_pinned A = l_sector (alog A) ` {..<nat (l_n (alog A))}"
    and "dom (av_held A) \<subseteq> {..<av_size A} - log_area (alog A)" and "D \<subseteq> dom (av_held A)"
    and "\<And>j. j < nat (l_n (alog A)) \<Longrightarrow> l_sector (alog A) j \<notin> D \<Longrightarrow>
        av_view A (l_start (alog A) + j + 1) = av_view A (l_sector (alog A) j)"
    and "\<And>k. k \<notin> av_pinned A \<Longrightarrow> k \<notin> D \<Longrightarrow> av_view A k = av_disk A k"
    and "dec_n (d0 (l_start (alog A))) = 0"
    and "\<exists>tr. av_trace A = tr0 @ tr \<and> av_disk A = apply_writes d0 tr \<and>
        (\<forall>w\<in>set tr. l_start (alog A) < fst w \<and> fst w < l_start (alog A) + l_size (alog A))"
  shows "tx_inv d0 tr0 D A"
  using assms unfolding tx_inv_def by blast

definition hide_log :: "logst \<Rightarrow> logst" where
  "hide_log l = l\<lparr>l_n := 0, l_sector := (\<lambda>_. 0)\<rparr>"

lemma hide_log_fields [simp]:
  "l_start (hide_log l) = l_start l" "l_size (hide_log l) = l_size l" "l_busy (hide_log l) = l_busy l"
  "l_dev (hide_log l) = l_dev l" "log_area (hide_log l) = log_area l"
  by (simp_all add: hide_log_def log_area_def)

definition home_view :: "nat set \<Rightarrow> (nat \<Rightarrow> blk) \<Rightarrow> nat \<Rightarrow> blk" where
  "home_view L v = (\<lambda>k. if k \<in> L then (\<lambda>_. 0) else v k)"

lemma home_view_simps [simp]:
  "k \<notin> L \<Longrightarrow> home_view L v k = v k"
  "k \<notin> L \<Longrightarrow> home_view L (v(k := d)) = (home_view L v)(k := d)"
  "k \<in> L \<Longrightarrow> home_view L (v(k := d)) = home_view L v"
  by (auto simp: home_view_def)

definition tx_of :: "nat set \<Rightarrow> bcabs \<Rightarrow> txabs" where
  "tx_of D A = \<lparr>tx_view = home_view (log_area (alog A)) (av_view A),
     tx_held = av_held A, tx_dirty = D, tx_logged = av_pinned A, tx_size = av_size A,
     tx_rest = (av_rest A)\<lparr>logs := hide_log (alog A)\<rparr>\<rparr>"

lemma tx_of_fields [simp]:
  "tx_view (tx_of D A) = home_view (log_area (alog A)) (av_view A)"
  "tx_held (tx_of D A) = av_held A" "tx_dirty (tx_of D A) = D" "tx_logged (tx_of D A) = av_pinned A"
  "tx_size (tx_of D A) = av_size A" "tx_rest (tx_of D A) = (av_rest A)\<lparr>logs := hide_log (alog A)\<rparr>"
  by (simp_all add: tx_of_def)

definition tx_at :: "(nat \<Rightarrow> blk) \<Rightarrow> (nat \<times> blk) list \<Rightarrow> txabs \<Rightarrow> kernel \<Rightarrow> bool" where
  "tx_at d0 tr0 T s \<longleftrightarrow> (\<exists>D. bc_inv s \<and> tx_inv d0 tr0 D (bc_abs s) \<and> T = tx_of D (bc_abs s))"

lemma hoare_tx:
  assumes "\<And>D A. tx_inv d0 tr0 D A \<Longrightarrow> T = tx_of D A \<Longrightarrow>
     hoare (bc.at A) m (\<lambda>x. bc.at (B D A x)) \<and>
     (\<forall>x. tx_inv d0 tr0 (D' D A x) (B D A x) \<and> T' x = tx_of (D' D A x) (B D A x))"
  shows "hoare (tx_at d0 tr0 T) m (\<lambda>x. tx_at d0 tr0 (T' x))"
proof (rule hoareI)
  fix s
  assume "tx_at d0 tr0 T s"
  then obtain D where s: "bc_inv s" "tx_inv d0 tr0 D (bc_abs s)" "T = tx_of D (bc_abs s)"
    by (auto simp: tx_at_def)
  then have "bc.at (bc_abs s) s" by (simp add: bc.at_def)
  with assms [OF s(2,3)] obtain x t where t: "m s = Ok x t" "bc.at (B D (bc_abs s) x) t"
    by (auto simp: hoare_def)
  then have "bc_inv t" "bc_abs t = B D (bc_abs s) x" by (simp_all add: bc.at_def)
  with conjunct2 [OF assms [OF s(2,3)], rule_format, of x] have "tx_at d0 tr0 (T' x) t"
    unfolding tx_at_def by (intro exI [of _ "D' D (bc_abs s) x"]) simp
  with t(1) show "\<exists>x t. m s = Ok x t \<and> tx_at d0 tr0 (T' x) t" by blast
qed

lemma tx_inv_frame:
  assumes "tx_inv d0 tr0 D A" and "dom h \<subseteq> {..<av_size A} - log_area (alog A)" and "D \<subseteq> dom h"
  shows "tx_inv d0 tr0 D (A\<lparr>av_held := h\<rparr>)"
  using assms by (simp add: tx_inv_def)

lemma tx_rd:
  assumes "readable T k"
  shows "hoare (tx_at d0 tr0 T) (bread 1 k) (\<lambda>b. tx_at d0 tr0 (T\<lparr>tx_held := (tx_held T)(k \<mapsto> b)\<rparr>))"
proof (rule hoare_tx [where B = "\<lambda>D A b. A\<lparr>av_held := (av_held A)(k \<mapsto> b)\<rparr>" and D' = "\<lambda>D A b. D"],
    intro conjI allI)
  fix D A b
  assume i: "tx_inv d0 tr0 D A" and T: "T = tx_of D A"
  have r: "av_held A k = None" "k < av_size A" "room A k" "k \<notin> log_area (alog A)"
    using assms by (simp_all add: T readable_def room_def)
  show "tx_inv d0 tr0 D (A\<lparr>av_held := (av_held A)(k \<mapsto> b)\<rparr>)"
    by (rule tx_inv_frame [OF i]) (use tx_held_home [OF i] tx_dirty_held [OF i] r(2,4) in auto)
  show "T\<lparr>tx_held := (tx_held T)(k \<mapsto> b)\<rparr> = tx_of D (A\<lparr>av_held := (av_held A)(k \<mapsto> b)\<rparr>)"
    by (simp add: T tx_of_def)
  show "hoare (bc.at A) (bread 1 k) (\<lambda>b. bc.at (A\<lparr>av_held := (av_held A)(k \<mapsto> b)\<rparr>))"
    by (rule hoare_last, rule bc.bind_rd [OF r(1-3)]) (simp add: hoare_def)
qed

lemma tx_rel:
  assumes "tx_held T k = Some b" and "k \<notin> tx_dirty T"
  shows "hoare (tx_at d0 tr0 T) (brelse b) (\<lambda>_. tx_at d0 tr0 (T\<lparr>tx_held := (tx_held T)(k := None)\<rparr>))"
proof (rule hoare_tx [where B = "\<lambda>D A _. A\<lparr>av_held := (av_held A)(k := None)\<rparr>" and D' = "\<lambda>D A _. D"],
    intro conjI allI)
  fix D A
  assume i: "tx_inv d0 tr0 D A" and T: "T = tx_of D A"
  have h: "av_held A k = Some b" "k \<notin> D" using assms by (simp_all add: T)
  show "tx_inv d0 tr0 D (A\<lparr>av_held := (av_held A)(k := None)\<rparr>)"
    by (rule tx_inv_frame [OF i]) (use tx_held_home [OF i] tx_dirty_held [OF i] h in auto)
  show "T\<lparr>tx_held := (tx_held T)(k := None)\<rparr> = tx_of D (A\<lparr>av_held := (av_held A)(k := None)\<rparr>)"
    by (simp add: T tx_of_def)
  have "settled A k" using tx_clean [OF i, of k] h by (auto simp: settled_def)
  then show "hoare (bc.at A) (brelse b) (\<lambda>_. bc.at (A\<lparr>av_held := (av_held A)(k := None)\<rparr>))"
    by (rule bc.rel_last [OF h(1)])
qed

lemma tx_setd:
  assumes "tx_held T k = Some b" and "l_busy (tx_log T)"
  shows "hoare (tx_at d0 tr0 T) (set_bdata b d)
     (\<lambda>_. tx_at d0 tr0 (T\<lparr>tx_view := (tx_view T)(k := d), tx_dirty := insert k (tx_dirty T)\<rparr>))"
proof (rule hoare_tx [where B = "\<lambda>D A _. A\<lparr>av_view := (av_view A)(k := d)\<rparr>" and D' = "\<lambda>D A _. insert k D"],
    intro conjI allI)
  fix D A
  assume i: "tx_inv d0 tr0 D A" and T: "T = tx_of D A"
  let ?B = "A\<lparr>av_view := (av_view A)(k := d)\<rparr>"
  have h: "av_held A k = Some b" "l_busy (alog A)" using assms by (simp_all add: T)
  have k: "k \<notin> log_area (alog A)" using tx_held_home [OF i] h by auto
  have body: "l_start (alog A) + j + 1 \<noteq> k" if "j < nat (l_n (alog A))" for j
    using tx_wf [OF i] k that by (auto simp: wf_log_def log_area_def)
  show "tx_inv d0 tr0 (insert k D) ?B"
  proof (rule tx_invI)
    fix j
    assume j: "j < nat (l_n (alog ?B))" "l_sector (alog ?B) j \<notin> insert k D"
    with tx_slots [OF i, of j] body [of j]
    show "av_view ?B (l_start (alog ?B) + j + 1) = av_view ?B (l_sector (alog ?B) j)" by simp
  next
    show "dom (av_held ?B) \<subseteq> {..<av_size ?B} - log_area (alog ?B)" using tx_held_home [OF i] by simp
  qed (use tx_wf [OF i] tx_sizes [OF i] tx_n [OF i] tx_pinned [OF i] tx_dirty_held [OF i]
      tx_clean [OF i] tx_head [OF i] tx_writes [OF i] h in auto)
  show "T\<lparr>tx_view := (tx_view T)(k := d), tx_dirty := insert k (tx_dirty T)\<rparr> = tx_of (insert k D) ?B"
    using k by (simp add: T tx_of_def)
  show "hoare (bc.at A) (set_bdata b d) (\<lambda>_. bc.at ?B)"
    by (rule hoare_last, rule bc.bind_setd [OF h(1)]) (simp add: hoare_def)
qed

lemma tx_getd:
  assumes "tx_held T k = Some b"
  shows "hoare (tx_at d0 tr0 T) (bdata b) (\<lambda>d s. d = tx_view T k \<and> tx_at d0 tr0 T s)"
proof (rule hoareI)
  fix s
  assume s: "tx_at d0 tr0 T s"
  then obtain D where D: "bc_inv s" "tx_inv d0 tr0 D (bc_abs s)" "T = tx_of D (bc_abs s)"
    by (auto simp: tx_at_def)
  with assms have h: "bc_held s k = Some b" by simp
  then have "k \<notin> log_area (logs s)" using tx_held_home [OF D(2)] by auto
  then have "tx_view T k = b_data (bufs s b)" using held_facts(8) [OF D(1) h] by (simp add: D(3))
  with s show "\<exists>x t. bdata b s = Ok x t \<and> x = tx_view T k \<and> tx_at d0 tr0 T t"
    by (simp add: bdata_def)
qed

text \<open>\<open>log_write\<close> keeps the invariant: the copy in the log matches the block again.\<close>

lemma tx_inv_log_written:
  assumes i: "tx_inv d0 tr0 D A" and h: "av_held A k = Some b" and busy: "l_busy (alog A)"
    and room: "nat (l_n (logged k (alog A))) \<le> LOGSIZE" "nat (l_n (logged k (alog A))) < l_size (alog A)"
  shows "tx_inv d0 tr0 (D - {k}) (log_written k A)"
    and "l_start (alog A) + log_slot (alog A) k + 1 \<in> log_area (alog A)"
    and "av_pinned (log_written k A) = insert k (av_pinned A)"
proof -
  let ?l = "alog A" and ?i = "log_slot (alog A) k" and ?B = "log_written k A"
  let ?j = "l_start (alog A) + ?i + 1"
  note n = tx_n [OF i] and wf = tx_wf [OF i]
  note lk = logged_keys [OF n, where k = k] and f = log_written_fields [of k A]
  have k: "k \<notin> log_area ?l" "k < av_size A" using tx_held_home [OF i] h by auto
  show ja: "?j \<in> log_area ?l" using lk(2) room(2) by (simp add: log_area_def)
  have wf': "wf_log (av_size A) (logged k ?l)" by (rule wf_logged [OF wf n k(2,1) room])
  have np: "?j \<notin> av_pinned A" using wf ja tx_pinned [OF i] by (auto simp: wf_log_def)
  then show pin: "av_pinned ?B = insert k (av_pinned A)" by (simp add: f)
  have out: "x \<noteq> ?j" if "x \<notin> log_area ?l" for x using ja that by auto
  show "tx_inv d0 tr0 (D - {k}) ?B"
  proof (rule tx_invI)
    show "av_pinned ?B = l_sector (alog ?B) ` {..<nat (l_n (alog ?B))}"
      unfolding pin f(1) lk(1) tx_pinned [OF i] ..
    show "dom (av_held ?B) \<subseteq> {..<av_size ?B} - log_area (alog ?B)" using tx_held_home [OF i] by (simp add: f)
    show "\<exists>tr. av_trace ?B = tr0 @ tr \<and> av_disk ?B = apply_writes d0 tr \<and>
        (\<forall>w\<in>set tr. l_start (alog ?B) < fst w \<and> fst w < l_start (alog ?B) + l_size (alog ?B))"
    proof -
      obtain tr where tr: "av_trace A = tr0 @ tr" "av_disk A = apply_writes d0 tr"
        "\<forall>w\<in>set tr. l_start ?l < fst w \<and> fst w < l_start ?l + l_size ?l"
        using tx_writes [OF i] by blast
      then show ?thesis using ja
        by (intro exI [of _ "tr @ [(?j, av_view A k)]"]) (auto simp: f log_area_def)
    qed
    show "av_view ?B x = av_disk ?B x" if "x \<notin> av_pinned ?B" "x \<notin> D - {k}" for x
      using tx_clean [OF i, of x] that pin by (auto simp: f)
  next
    fix j
    assume j: "j < nat (l_n (alog ?B))" "l_sector (alog ?B) j \<notin> D - {k}"
    show "av_view ?B (l_start (alog ?B) + j + 1) = av_view ?B (l_sector (alog ?B) j)"
    proof (cases "j = ?i")
      case True
      then show ?thesis using out [OF k(1)] by (simp add: f lk(3))
    next
      case False
      have j': "j < nat (l_n (logged k ?l))" using j(1) by (simp add: f)
      from lk(5) [OF j' False] have o: "j < nat (l_n ?l)" "l_sector (logged k ?l) j = l_sector ?l j" by auto
      have "l_sector ?l j \<noteq> k"
        using wf_logD(5) [OF wf' j' lk(2)] False o(2) lk(3) by auto
      then have "av_view A (l_start ?l + j + 1) = av_view A (l_sector ?l j)"
        using tx_slots [OF i o(1)] j(2) o(2) by (simp add: f)
      moreover have "l_sector ?l j \<noteq> ?j"
        using wf_logD(4) [OF wf' j' lk(2)] o(2) by simp
      ultimately show ?thesis using False by (simp add: f o)
    qed
  qed (use wf' tx_sizes [OF i] lk(4) busy tx_dirty_held [OF i] tx_head [OF i] in \<open>auto simp: f\<close>)
qed

lemma tx_lw:
  assumes "tx_held T k = Some b" and "l_busy (tx_log T)" and "loggable T k"
  shows "hoare (tx_at d0 tr0 T) (log_write b)
     (\<lambda>_. tx_at d0 tr0 (T\<lparr>tx_logged := insert k (tx_logged T), tx_dirty := tx_dirty T - {k}\<rparr>))"
proof (rule hoare_tx [where B = "\<lambda>D A _. log_written k A" and D' = "\<lambda>D A _. D - {k}"], intro conjI allI)
  fix D A
  assume i: "tx_inv d0 tr0 D A" and T: "T = tx_of D A"
  let ?l = "alog A" and ?j = "l_start (alog A) + log_slot (alog A) k + 1"
  have h: "av_held A k = Some b" "l_busy ?l" using assms by (simp_all add: T)
  have c: "card (insert k (av_pinned A)) < LOGSIZE - 1"
    "card (insert k (dom (av_held A) \<union> av_pinned A)) < NBUF"
    using assms(3) by (simp_all add: T loggable_def)
  note n = tx_n [OF i]
  have "nat (l_n (logged k ?l)) \<le> card (insert k (av_pinned A))"
  proof (cases rule: log_slot_cases [OF n, of k])
    case (1 x)
    then have "k \<in> av_pinned A" unfolding tx_pinned [OF i] by (intro image_eqI [of _ _ x]) simp_all
    then show ?thesis using card_keys [OF tx_wf [OF i]] tx_pinned [OF i] 1 by (simp add: insert_absorb)
  next
    case 2
    then show ?thesis using card_keys [OF tx_wf [OF i]] tx_pinned [OF i] n by simp
  qed
  then have lt: "nat (l_n (logged k ?l)) < LOGSIZE - 1" using c(1) by simp
  then have room: "nat (l_n (logged k ?l)) \<le> LOGSIZE" "nat (l_n (logged k ?l)) < l_size ?l"
    using tx_sizes(2) [OF i] by linarith+
  have le: "l_n ?l \<le> l_n (logged k ?l)" by (simp add: logged_def)
  note B = tx_inv_log_written [OF i h room]
  show "tx_inv d0 tr0 (D - {k}) (log_written k A)" by (rule B)
  have js: "?j < av_size A" "av_held A ?j = None"
    using B(2) tx_wf [OF i] tx_held_home [OF i] by (auto simp: wf_log_def log_area_def)
  show "hoare (bc.at A) (log_write b) (\<lambda>_. bc.at (log_written k A))"
  proof (rule log_write_at [OF h n])
    show "l_n ?l < int LOGSIZE" "l_n ?l < int (l_size ?l) - 1"
      using le lt tx_sizes(2) [OF i] by (simp_all add: LOGSIZE_def)
    have "k \<in> dom (av_held A)" using h by auto
    then show "room A ?j" using c(2) by (simp add: room_def insert_absorb)
  qed (use js in simp_all)
  have k: "k \<notin> log_area ?l" using tx_held_home [OF i] h by auto
  show "T\<lparr>tx_logged := insert k (tx_logged T), tx_dirty := tx_dirty T - {k}\<rparr> = tx_of (D - {k}) (log_written k A)"
  proof -
    have "av_rest (log_written k A) = (av_rest A)\<lparr>logs := logged k ?l\<rparr>"
      by (simp add: log_written_def Let_def with_log_def put_block_def logged_def)
    moreover have "hide_log (logged k ?l) = hide_log ?l" by (simp add: hide_log_def logged_def)
    ultimately show ?thesis using B(2,3) by (simp add: T tx_of_def log_written_fields)
  qed
qed

interpretation tx: transaction "tx_at d0 tr0" "bread 1" bdata set_bdata log_write brelse
  for d0 tr0
proof
  show "tx_dirty T \<subseteq> dom (tx_held T)" if hyp: "tx_at d0 tr0 T s" for T s
  proof -
    obtain D where "tx_inv d0 tr0 D (bc_abs s)" "T = tx_of D (bc_abs s)"
      using hyp by (auto simp: tx_at_def)
    then show ?thesis using tx_dirty_held [of d0 tr0 D "bc_abs s"] by simp
  qed
qed (rule tx_rd tx_getd tx_setd tx_lw tx_rel; assumption)+

section \<open>The rest of the kernel state\<close>

lemma tx_at_rest: "tx_at d0 tr0 T s \<Longrightarrow> tx_rest T = (rest s)\<lparr>logs := hide_log (logs s)\<rparr>"
  by (auto simp: tx_at_def)

lemma tx_gets:
  assumes "\<And>s. h s = h ((rest s)\<lparr>logs := hide_log (logs s)\<rparr>)" and "hoare (tx_at d0 tr0 T) (f (h (tx_rest T))) Q"
  shows "hoare (tx_at d0 tr0 T) (bindK (getsK h) f) Q"
proof (rule hoareI)
  fix s
  assume s: "tx_at d0 tr0 T s"
  have "h s = h (tx_rest T)" unfolding tx_at_rest [OF s] by (rule assms(1))
  with s assms(2) show "\<exists>x t. bindK (getsK h) f s = Ok x t \<and> Q x t" by (simp add: hoare_def)
qed

lemma tx_gets_inodes:
  assumes "hoare (tx_at d0 tr0 T) (f (h (inodes (tx_rest T)))) Q"
  shows "hoare (tx_at d0 tr0 T) (bindK (getsK (\<lambda>s. h (inodes s))) f) Q"
  by (rule tx_gets) (use assms in simp_all)

definition tx_set_inodes :: "(nat \<Rightarrow> inode) \<Rightarrow> txabs \<Rightarrow> txabs" where
  "tx_set_inodes I T = T\<lparr>tx_rest := (tx_rest T)\<lparr>inodes := I\<rparr>\<rparr>"

lemma tx_set_inodes_fields [simp]:
  "tx_view (tx_set_inodes I T) = tx_view T" "tx_held (tx_set_inodes I T) = tx_held T"
  "tx_dirty (tx_set_inodes I T) = tx_dirty T" "tx_logged (tx_set_inodes I T) = tx_logged T"
  "tx_size (tx_set_inodes I T) = tx_size T" "tx_log (tx_set_inodes I T) = tx_log T"
  "inodes (tx_rest (tx_set_inodes I T)) = I"
  "readable (tx_set_inodes I T) = readable T" "loggable (tx_set_inodes I T) = loggable T"
  by (simp_all add: tx_set_inodes_def readable_def loggable_def fun_eq_iff)

lemma tx_at_set_inodes:
  assumes "tx_at d0 tr0 T s"
  shows "tx_at d0 tr0 (tx_set_inodes I T) (s\<lparr>inodes := I\<rparr>)"
proof -
  let ?s = "s\<lparr>inodes := I\<rparr>"
  obtain D where D: "bc_inv s" "tx_inv d0 tr0 D (bc_abs s)" "T = tx_of D (bc_abs s)"
    using assms by (auto simp: tx_at_def)
  have "rest ?s = (rest s)\<lparr>inodes := I\<rparr>" by (simp add: rest_def procs_data_def)
  moreover have "bc_inv ?s = bc_inv s" "bc_abs ?s = (bc_abs s)\<lparr>av_rest := rest ?s\<rparr>"
    by (rule bc_frame; simp)+
  ultimately have "bc_inv ?s" and a: "bc_abs ?s = (bc_abs s)\<lparr>av_rest := (rest s)\<lparr>inodes := I\<rparr>\<rparr>"
    using D(1) by simp_all
  moreover have "tx_inv d0 tr0 D (bc_abs ?s)" using D(2) unfolding a tx_inv_def by simp
  moreover have "tx_set_inodes I T = tx_of D (bc_abs ?s)"
    unfolding a D(3) tx_of_def tx_set_inodes_def by simp
  ultimately show ?thesis unfolding tx_at_def by blast
qed

lemma tx_modify_inodes:
  assumes "hoare (tx_at d0 tr0 (tx_set_inodes (g (inodes (tx_rest T))) T)) (f ()) Q"
  shows "hoare (tx_at d0 tr0 T) (bindK (modifyK (\<lambda>s. s\<lparr>inodes := g (inodes s)\<rparr>)) f) Q"
proof (rule hoareI)
  fix s
  assume s: "tx_at d0 tr0 T s"
  then have "inodes (tx_rest T) = inodes s" by (simp add: tx_at_rest)
  with tx_at_set_inodes [OF s] assms
  show "\<exists>x t. bindK (modifyK (\<lambda>s. s\<lparr>inodes := g (inodes s)\<rparr>)) f s = Ok x t \<and> Q x t"
    by (simp add: hoare_def)
qed

lemma tx_wakeup:
  assumes "hoare (tx_at d0 tr0 T) (f ()) Q"
  shows "hoare (tx_at d0 tr0 T) (bindK (modifyK (wakeup c)) f) Q"
  using assms by (simp add: hoare_def tx_at_def)

text \<open>Updates of other parts of the state.\<close>

lemma tx_at_frame:
  assumes at: "tx_at d0 tr0 T s" and t: "bufs t = bufs s" "memdisk t = memdisk s" "disksize t = disksize s"
    "wtrace t = wtrace s" "logs t = logs s"
  shows "tx_at d0 tr0 (T\<lparr>tx_rest := (rest t)\<lparr>logs := hide_log (logs t)\<rparr>\<rparr>) t"
proof -
  obtain D where D: "bc_inv s" "tx_inv d0 tr0 D (bc_abs s)" "T = tx_of D (bc_abs s)"
    using at by (auto simp: tx_at_def)
  have a: "bc_inv t" "bc_abs t = (bc_abs s)\<lparr>av_rest := rest t\<rparr>"
    using bc_frame [OF t(1-4)] D(1) by simp_all
  have l: "alog (bc_abs t) = alog (bc_abs s)" by (simp add: t(5))
  have "tx_inv d0 tr0 D (bc_abs t)" using D(2) unfolding tx_inv_def l by (simp add: a(2))
  moreover have "T\<lparr>tx_rest := (rest t)\<lparr>logs := hide_log (logs t)\<rparr>\<rparr> = tx_of D (bc_abs t)"
    unfolding D(3) tx_of_def l by (simp add: a(2) t(5))
  ultimately show ?thesis using a(1) unfolding tx_at_def by blast
qed

section \<open>The state between transactions\<close>

definition idle :: "kernel \<Rightarrow> txabs" where
  "idle s = \<lparr>tx_view = home_view (log_area (logs s)) (memdisk s), tx_held = Map.empty, tx_dirty = {},
     tx_logged = {}, tx_size = disksize s, tx_rest = (rest s)\<lparr>logs := hide_log (logs s)\<rparr>\<rparr>"

lemma tx_idle_start:
  assumes "log_ready s"
  shows "tx_at (memdisk s) (wtrace s) (idle s) s"
proof -
  have b: "booted s" using assms by (simp add: log_ready_def)
  have v: "bc_view s = memdisk s" by (rule booted_view [OF b])
  have "tx_inv (memdisk s) (wtrace s) {} (bc_abs s)"
    by (rule tx_invI) (use assms v in \<open>simp_all add: log_ready_def booted_def\<close>)
  moreover have "idle s = tx_of {} (bc_abs s)"
    using b v by (simp add: idle_def tx_of_def booted_def)
  ultimately show ?thesis using b by (auto simp: tx_at_def booted_def)
qed

lemma tx_idle_end:
  assumes at: "tx_at d0 tr0 T t" and T: "tx_held T = Map.empty" "tx_logged T = {}" "\<not> l_busy (tx_log T)"
  shows "log_ready t" and "k \<notin> log_area (logs t) \<Longrightarrow> memdisk t k = tx_view T k"
proof -
  obtain D where D: "bc_inv t" "tx_inv d0 tr0 D (bc_abs t)" "T = tx_of D (bc_abs t)"
    using at by (auto simp: tx_at_def)
  have e: "bc_held t = Map.empty" "bc_pinned t = {}" "\<not> l_busy (logs t)" using T by (simp_all add: D(3))
  have i: "l_n (logs t) = 0" "D = {}" using tx_idle [OF D(2)] e(3) by simp_all
  obtain tr where tr: "memdisk t = apply_writes d0 tr" "\<forall>w\<in>set tr. l_start (logs t) < fst w"
    using tx_writes [OF D(2)] by auto
  have "memdisk t (l_start (logs t)) = d0 (l_start (logs t))"
    unfolding tr(1) by (rule apply_writes_other) (use tr(2) in auto)
  then show "log_ready t"
    using D(1) e i tx_wf [OF D(2)] tx_sizes [OF D(2)] tx_head [OF D(2)] by (simp add: log_ready_def booted_def)
  show "memdisk t k = tx_view T k" if "k \<notin> log_area (logs t)"
    using tx_clean [OF D(2), of k] e i that by (simp add: D(3))
qed

section \<open>Any operation between begin and commit is atomic\<close>

definition opened :: "kernel \<Rightarrow> txabs" where
  "opened s = \<lparr>tx_view = home_view (log_area (logs s)) (memdisk s), tx_held = Map.empty, tx_dirty = {},
     tx_logged = {}, tx_size = disksize s,
     tx_rest = (rest s)\<lparr>logs := hide_log ((logs s)\<lparr>l_busy := True\<rparr>)\<rparr>\<rparr>"

lemma tx_begin:
  assumes r: "log_ready s"
  shows "\<exists>t. begin_trans s = Ok () t \<and> tx_at (memdisk s) (wtrace s) (opened s) t"
proof -
  let ?A = "with_log (\<lambda>l. l\<lparr>l_busy := True\<rparr>) (bc_abs s)"
  have b: "booted s" "LOGSIZE \<le> l_size (logs s)" using r by (simp_all add: log_ready_def)
  obtain t where t: "begin_trans s = Ok () t" "bc.at ?A t" "in_trans (memdisk s) (wtrace s) ?A"
    using begin_trans_at [OF r] by blast
  have v: "bc_view s = memdisk s" by (rule booted_view [OF b(1)])
  have "tx_inv (memdisk s) (wtrace s) {} ?A"
    by (rule tx_invI) (use t(3) b v in \<open>simp_all add: in_trans_def booted_def\<close>)
  moreover have "opened s = tx_of {} ?A"
    using b v by (simp add: opened_def tx_of_def with_log_def booted_def log_area_def hide_log_def)
  ultimately show ?thesis using t(1,2) by (auto simp: tx_at_def bc.at_def)
qed

lemma tx_commit:
  assumes at: "tx_at d0 tr0 T s" and h: "tx_held T = Map.empty" and busy: "l_busy (tx_log T)"
    and c: "card (tx_logged T) < NBUF"
  shows "\<exists>t tr. commit_trans s = Ok () t \<and> wtrace t = tr0 @ tr \<and> memdisk t = apply_writes d0 tr \<and>
     log_ready t \<and> same_place (tx_log T) (logs t) \<and> disksize t = tx_size T \<and>
     rest t = (tx_rest T)\<lparr>logs := logs t\<rparr> \<and>
     (\<forall>k. k \<notin> log_area (tx_log T) \<longrightarrow> memdisk t k = tx_view T k) \<and>
     (\<forall>m l'. same_place (tx_log T) l' \<longrightarrow>
        recovers (tx_size T) l' (apply_writes d0 (take m tr)) d0 \<or>
        recovers (tx_size T) l' (apply_writes d0 (take m tr)) (tx_view T))"
proof -
  obtain D where D: "bc_inv s" "tx_inv d0 tr0 D (bc_abs s)" "T = tx_of D (bc_abs s)"
    using at by (auto simp: tx_at_def)
  let ?A = "bc_abs s"
  have "D = {}" using tx_dirty_held [OF D(2)] h by (simp add: D(3))
  then have it: "in_trans d0 tr0 ?A"
    using D h busy tx_invD [OF D(2)] unfolding in_trans_def by simp
  have view: "k \<notin> log_area (tx_log T) \<Longrightarrow> tx_view T k = av_view ?A k" for k by (simp add: D(3))
  have rec: "recovers (av_size ?A) l' d (tx_view T)"
    if "recovers (av_size ?A) l' d (av_view ?A)" "same_place (tx_log T) l'" for l' d
    using that view by (simp add: recovers_def log_area_def same_place_def)
  have sp: "same_place (tx_log T) l' = same_place (alog ?A) l'" for l' by (simp add: D(3) same_place_def)
  have sz: "tx_size T = av_size ?A" "log_area (tx_log T) = log_area (alog ?A)" by (simp_all add: D(3))
  obtain t tr where t: "commit_trans s = Ok () t" "wtrace t = tr0 @ tr" "memdisk t = apply_writes d0 tr"
     "log_ready t" "same_place (alog ?A) (logs t)" "disksize t = av_size ?A"
     and rt: "rest t = (av_rest ?A)\<lparr>logs := logs t\<rparr>" and v: "\<forall>k. k \<notin> log_area (alog ?A) \<longrightarrow> memdisk t k = av_view ?A k"
     and cr: "\<forall>m l'. same_place (alog ?A) l' \<longrightarrow>
        recovers (av_size ?A) l' (apply_writes d0 (take m tr)) d0 \<or>
        recovers (av_size ?A) l' (apply_writes d0 (take m tr)) (av_view ?A)"
    using commit_atomic [OF it, of s] D(1) c tx_sizes(2) [OF D(2)] by (auto simp: bc.at_def D(3))
  have "\<forall>k. k \<notin> log_area (tx_log T) \<longrightarrow> memdisk t k = tx_view T k" using v view sz by simp
  moreover have "\<forall>m l'. same_place (tx_log T) l' \<longrightarrow>
        recovers (tx_size T) l' (apply_writes d0 (take m tr)) d0 \<or>
        recovers (tx_size T) l' (apply_writes d0 (take m tr)) (tx_view T)"
    using cr rec unfolding sp sz by blast
  moreover have "rest t = (tx_rest T)\<lparr>logs := logs t\<rparr>" using rt by (simp add: D(3))
  ultimately show ?thesis using t(1-6) unfolding sp sz by blast
qed

definition atomically :: "'a km \<Rightarrow> 'a km" where
  "atomically m = bindK begin_trans (\<lambda>_. bindK m (\<lambda>x. bindK commit_trans (\<lambda>_. returnK x)))"

text \<open>After a crash at any of the writes \<open>tr\<close> that followed state \<open>s\<close>, recovery gives the home
  blocks of \<open>s\<close> or the blocks \<open>d\<close>.\<close>

definition crash_atomic :: "kernel \<Rightarrow> (nat \<times> blk) list \<Rightarrow> (nat \<Rightarrow> blk) \<Rightarrow> bool" where
  "crash_atomic s tr d \<longleftrightarrow>
     (\<forall>m r. booted r \<and> disksize r = disksize s \<and> same_place (logs s) (logs r) \<and>
            memdisk r = apply_writes (memdisk s) (take m tr) \<longrightarrow>
        (\<exists>r'. recover_from_log r = Ok () r' \<and>
           ((\<forall>k. k \<notin> log_area (logs s) \<longrightarrow> memdisk r' k = memdisk s k) \<or>
            (\<forall>k. k \<notin> log_area (logs s) \<longrightarrow> memdisk r' k = d k))))"

lemma crash_atomicI:
  assumes "\<And>m l'. same_place (logs s) l' \<Longrightarrow>
        recovers (disksize s) l' (apply_writes (memdisk s) (take m tr)) (memdisk s) \<or>
        recovers (disksize s) l' (apply_writes (memdisk s) (take m tr)) d"
  shows "crash_atomic s tr d"
  unfolding crash_atomic_def
proof (intro allI impI, elim conjE)
  fix m r
  assume r: "booted r" "disksize r = disksize s" "same_place (logs s) (logs r)"
    "memdisk r = apply_writes (memdisk s) (take m tr)"
  have ar: "log_area (logs r) = log_area (logs s)" using r(3) by (simp add: same_place_def log_area_def)
  obtain h where h: "recovers (disksize r) (logs r) (memdisk r) h" "h = memdisk s \<or> h = d"
    using assms [OF r(3), of m] r(2,4) by auto
  then obtain r' where "recover_from_log r = Ok () r'" "memdisk r' = recover_disk (logs r) (memdisk r)"
    using recover_impl [OF r(1)] by (auto simp: recovers_def)
  with h ar show "\<exists>r'. recover_from_log r = Ok () r' \<and>
           ((\<forall>k. k \<notin> log_area (logs s) \<longrightarrow> memdisk r' k = memdisk s k) \<or>
            (\<forall>k. k \<notin> log_area (logs s) \<longrightarrow> memdisk r' k = d k))"
    by (auto simp: recovers_def)
qed

lemma atomically_ok:
  assumes r: "log_ready s"
    and op: "hoare (tx_at (memdisk s) (wtrace s) (opened s)) m (\<lambda>x t. \<exists>T. tx_at (memdisk s) (wtrace s) T t \<and>
       tx_held T = Map.empty \<and> card (tx_logged T) < NBUF \<and> tx_size T = disksize s \<and>
       tx_log T = tx_log (opened s) \<and> V x T)"
  shows "\<exists>x t tr T. atomically m s = Ok x t \<and> V x T \<and> log_ready t \<and> wtrace t = wtrace s @ tr \<and>
     rest t = (tx_rest T)\<lparr>logs := logs t\<rparr> \<and> same_place (logs s) (logs t) \<and>
     (\<forall>k. k \<notin> log_area (logs s) \<longrightarrow> memdisk t k = tx_view T k) \<and> crash_atomic s tr (tx_view T)"
proof -
  obtain s1 where s1: "begin_trans s = Ok () s1" "tx_at (memdisk s) (wtrace s) (opened s) s1"
    using tx_begin [OF r] by blast
  from op s1(2) obtain x s2 T where T: "m s1 = Ok x s2" "tx_at (memdisk s) (wtrace s) T s2"
    "tx_held T = Map.empty" "card (tx_logged T) < NBUF" "tx_size T = disksize s"
    "tx_log T = tx_log (opened s)" "V x T" by (auto simp: hoare_def)
  have l: "l_busy (tx_log T)" "same_place (tx_log T) l' = same_place (logs s) l'"
    "log_area (tx_log T) = log_area (logs s)" for l'
    by (simp_all add: T(6) opened_def same_place_def log_area_def)
  obtain t tr where t: "commit_trans s2 = Ok () t" "wtrace t = wtrace s @ tr" "log_ready t"
     "rest t = (tx_rest T)\<lparr>logs := logs t\<rparr>" "same_place (logs s) (logs t)"
     "\<forall>k. k \<notin> log_area (logs s) \<longrightarrow> memdisk t k = tx_view T k"
     "\<forall>m l'. same_place (logs s) l' \<longrightarrow>
        recovers (disksize s) l' (apply_writes (memdisk s) (take m tr)) (memdisk s) \<or>
        recovers (disksize s) l' (apply_writes (memdisk s) (take m tr)) (tx_view T)"
    using tx_commit [OF T(2,3) l(1) T(4)] unfolding l(2,3) T(5) by blast
  have "crash_atomic s tr (tx_view T)" by (rule crash_atomicI) (use t(7) in blast)
  moreover have "atomically m s = Ok x t" using s1(1) T(1) t(1) by (simp add: atomically_def bindK_def)
  ultimately show ?thesis using t(2-6) T(7) by blast
qed

end
