(* ===== verification/Blocks.thy ===== *)
theory Blocks
  imports Trans
begin

text \<open>
  The block allocator of kernel/fs.c (\<open>bzero\<close>, \<open>balloc\<close>, \<open>bfree\<close>) over the free bitmap, and
  what it promises the inode layer.
\<close>

section \<open>Bits of a bitmap block\<close>

definition bit_mask :: "nat \<Rightarrow> uchar" where
  "bit_mask bi = push_bit (bi mod 8) 1"

definition bit_used :: "blk \<Rightarrow> nat \<Rightarrow> bool" where
  "bit_used d bi \<longleftrightarrow> d (bi div 8) AND bit_mask bi \<noteq> 0"

definition mark_used :: "blk \<Rightarrow> nat \<Rightarrow> blk" where
  "mark_used d bi = d(bi div 8 := d (bi div 8) OR bit_mask bi)"

definition mark_free :: "blk \<Rightarrow> nat \<Rightarrow> blk" where
  "mark_free d bi = d(bi div 8 := d (bi div 8) AND NOT (bit_mask bi))"

lemma bit_used_iff: "bit_used d bi \<longleftrightarrow> bit (d (bi div 8)) (bi mod 8)"
proof -
  have "d (bi div 8) AND bit_mask bi = (if bit (d (bi div 8)) (bi mod 8) then bit_mask bi else 0)"
    by (rule bit_word_eqI) (auto simp: bit_mask_def bit_simps)
  moreover have "bit (bit_mask bi) (bi mod 8)" by (simp add: bit_mask_def bit_simps)
  then have "bit_mask bi \<noteq> 0" by auto
  ultimately show ?thesis by (simp add: bit_used_def)
qed

lemma div_mod_8: "(i div 8 = j div 8 \<and> i mod 8 = j mod 8) \<longleftrightarrow> i = (j :: nat)"
  by (metis div_mult_mod_eq)

lemma bit_used_mark_used: "bit_used (mark_used d i) j \<longleftrightarrow> j = i \<or> bit_used d j"
proof (cases "i div 8 = j div 8")
  case True
  have "bit (bit_mask i) (j mod 8) \<longleftrightarrow> i mod 8 = j mod 8"
    by (auto simp: bit_mask_def bit_simps)
  with True div_mod_8 [of i j] show ?thesis
    by (auto simp: bit_used_iff mark_used_def bit_simps)
next
  case False
  then show ?thesis by (auto simp: bit_used_iff mark_used_def)
qed

lemma bit_used_mark_free: "bit_used (mark_free d i) j \<longleftrightarrow> j \<noteq> i \<and> bit_used d j"
proof (cases "i div 8 = j div 8")
  case True
  have "bit (bit_mask i) (j mod 8) \<longleftrightarrow> i mod 8 = j mod 8"
    by (auto simp: bit_mask_def bit_simps)
  with True div_mod_8 [of i j] show ?thesis
    by (auto simp: bit_used_iff mark_free_def bit_simps)
next
  case False
  then show ?thesis by (auto simp: bit_used_iff mark_free_def)
qed

lemma mark_free_used:
  assumes "\<not> bit_used d i"
  shows "mark_free (mark_used d i) i = d"
proof -
  have "\<not> bit (d (i div 8)) (i mod 8)" using assms by (simp add: bit_used_iff)
  then have "(d (i div 8) OR bit_mask i) AND NOT (bit_mask i) = d (i div 8)"
    by (intro bit_word_eqI) (auto simp: bit_mask_def bit_simps)
  then show ?thesis by (simp add: mark_free_def mark_used_def)
qed

section \<open>Operations\<close>

definition bzero :: "nat \<Rightarrow> nat \<Rightarrow> unit km" where
  "bzero dev bno =
     bindK (bread dev bno) (\<lambda>bp.
     bindK (set_bdata bp (\<lambda>_. 0)) (\<lambda>_.
     bindK (log_write bp) (\<lambda>_.
     brelse bp)))"

text \<open>The outer loop of \<open>balloc\<close> runs over the first blocks of the bitmap blocks; the inner one
  is a search for the first clear bit.\<close>

primrec balloc_loop :: "nat \<Rightarrow> superblock \<Rightarrow> nat list \<Rightarrow> nat km" where
  "balloc_loop dev sb [] = panicK ''balloc: out of blocks''"
| "balloc_loop dev sb (b # bs) =
     bindK (bread dev (BBLOCK b (unat (sb_ninodes sb)))) (\<lambda>bp.
     bindK (bdata bp) (\<lambda>d.
     case find (\<lambda>bi. \<not> bit_used d bi) [0..<min BPB (unat (sb_size sb) - b)] of
       Some bi \<Rightarrow>
         bindK (set_bdata bp (mark_used d bi)) (\<lambda>_.
         bindK (log_write bp) (\<lambda>_.
         bindK (brelse bp) (\<lambda>_.
         bindK (bzero dev (b + bi)) (\<lambda>_.
         returnK (b + bi)))))
     | None \<Rightarrow>
         bindK (brelse bp) (\<lambda>_.
         balloc_loop dev sb bs)))"

text \<open>\<open>for(b = 0; b < sb.size; b += BPB)\<close>.\<close>

definition bitmap_starts :: "superblock \<Rightarrow> nat list" where
  "bitmap_starts sb = map (\<lambda>i. i * BPB) [0..<(unat (sb_size sb) + BPB - 1) div BPB]"

definition balloc :: "nat \<Rightarrow> nat km" where
  "balloc dev = bindK (readsb dev) (\<lambda>sb. balloc_loop dev sb (bitmap_starts sb))"

definition bfree :: "nat \<Rightarrow> nat \<Rightarrow> unit km" where
  "bfree dev b =
     bindK (readsb dev) (\<lambda>sb.
     bindK (bread dev (BBLOCK b (unat (sb_ninodes sb)))) (\<lambda>bp.
     bindK (bdata bp) (\<lambda>d.
     if \<not> bit_used d (b mod BPB) then panicK ''freeing free block''
     else
       bindK (set_bdata bp (mark_free d (b mod BPB))) (\<lambda>_.
       bindK (log_write bp) (\<lambda>_.
       brelse bp)))))"

section \<open>The bitmap\<close>

abbreviation sblock :: "(nat \<Rightarrow> blk) \<Rightarrow> superblock" where
  "sblock V \<equiv> get_sb (V 1)"

definition bitmap_block :: "(nat \<Rightarrow> blk) \<Rightarrow> nat \<Rightarrow> nat" where
  "bitmap_block V b = BBLOCK b (unat (sb_ninodes (sblock V)))"

definition block_used :: "(nat \<Rightarrow> blk) \<Rightarrow> nat \<Rightarrow> bool" where
  "block_used V b = bit_used (V (bitmap_block V b)) (b mod BPB)"

text \<open>The layout that \<open>mkfs\<close> writes and the kernel relies on: boot block, super block, inodes,
  bitmap, data, log.\<close>

definition wf_sb :: "txabs \<Rightarrow> bool" where
  "wf_sb T \<longleftrightarrow>
     (let sb = sblock (tx_view T) in
      0 < unat (sb_size sb) \<and> unat (sb_size sb) \<le> tx_size T \<and>
      bitmap_block (tx_view T) (unat (sb_size sb) - 1) < l_start (tx_log T) \<and>
      l_start (tx_log T) + l_size (tx_log T) = unat (sb_size sb))"

definition mark_block :: "nat \<Rightarrow> txabs \<Rightarrow> txabs" where
  "mark_block b T = tx_write (bitmap_block (tx_view T) b)
     (mark_used (tx_view T (bitmap_block (tx_view T) b)) (b mod BPB)) T"

definition unmark_block :: "nat \<Rightarrow> txabs \<Rightarrow> txabs" where
  "unmark_block b T = tx_write (bitmap_block (tx_view T) b)
     (mark_free (tx_view T (bitmap_block (tx_view T) b)) (b mod BPB)) T"

lemma bitmap_block_home:
  assumes "wf_sb T" and "b < unat (sb_size (sblock (tx_view T)))"
  shows "bitmap_block (tx_view T) b < tx_size T" "bitmap_block (tx_view T) b \<notin> log_area (tx_log T)"
    "2 < bitmap_block (tx_view T) b"
proof -
  let ?n = "unat (sb_size (sblock (tx_view T)))"
  have "b div BPB \<le> (?n - 1) div BPB" using assms(2) by (intro div_le_mono) simp
  then have le: "bitmap_block (tx_view T) b \<le> bitmap_block (tx_view T) (?n - 1)"
    by (simp add: bitmap_block_def BBLOCK_def)
  with assms(1) show "bitmap_block (tx_view T) b < tx_size T" "bitmap_block (tx_view T) b \<notin> log_area (tx_log T)"
    by (auto simp: wf_sb_def Let_def log_area_def)
  show "2 < bitmap_block (tx_view T) b" by (simp add: bitmap_block_def BBLOCK_def)
qed

lemma same_bitmap_block: "bitmap_block V b = bitmap_block V c \<Longrightarrow> b mod BPB = c mod BPB \<Longrightarrow> b = c"
  by (simp add: bitmap_block_def BBLOCK_def) (metis div_mult_mod_eq)

lemma bitmap_block_gt: "2 < bitmap_block V b"
  by (simp add: bitmap_block_def BBLOCK_def)

lemma bitmap_block_upd [simp]: "k \<noteq> 1 \<Longrightarrow> bitmap_block (V(k := d)) b = bitmap_block V b"
  by (simp add: bitmap_block_def)

lemma mark_block_used:
  "block_used (tx_view (mark_block b T)) c \<longleftrightarrow> c = b \<or> block_used (tx_view T) c"
proof (cases "bitmap_block (tx_view T) c = bitmap_block (tx_view T) b")
  case True
  then show ?thesis
    using same_bitmap_block [of "tx_view T" c b] bitmap_block_gt [of "tx_view T" b]
    by (auto simp: block_used_def mark_block_def bit_used_mark_used)
next
  case False
  then show ?thesis
    using bitmap_block_gt [of "tx_view T" b] by (auto simp: block_used_def mark_block_def)
qed

lemma unmark_block_used:
  "block_used (tx_view (unmark_block b T)) c \<longleftrightarrow> c \<noteq> b \<and> block_used (tx_view T) c"
proof (cases "bitmap_block (tx_view T) c = bitmap_block (tx_view T) b")
  case True
  then show ?thesis
    using same_bitmap_block [of "tx_view T" c b] bitmap_block_gt [of "tx_view T" b]
    by (auto simp: block_used_def unmark_block_def bit_used_mark_free)
next
  case False
  then show ?thesis
    using bitmap_block_gt [of "tx_view T" b] by (auto simp: block_used_def unmark_block_def)
qed

section \<open>Correctness in a transaction\<close>

lemma readsb_tx:
  assumes r: "readable T 1" and f: "hoare (tx_at d0 tr0 T) (f (sblock (tx_view T))) Q"
  shows "hoare (tx_at d0 tr0 T) (bindK (readsb 1) f) Q"
  unfolding readsb_def bindK_assoc bindK_returnK_left
  by (rule tx.read_then [OF r], rule tx.read_done) (use r f in \<open>simp_all add: readable_def\<close>)

lemma bzero_tx:
  assumes r: "readable T b" "l_busy (tx_log T)" "loggable T b"
    and f: "hoare (tx_at d0 tr0 (tx_write b (\<lambda>_. 0) T)) (f ()) Q"
  shows "hoare (tx_at d0 tr0 T) (bindK (bzero 1 b) f) Q"
  unfolding bzero_def bindK_assoc by (rule tx.overwrite_then [OF r]) (rule f)

lemma balloc_loop_tx:
  fixes T :: txabs
  defines "V \<equiv> tx_view T"
  defines "n \<equiv> unat (sb_size (sblock V))"
  assumes busy: "l_busy (tx_log T)" and rd: "\<And>c. c < n \<Longrightarrow> readable T (bitmap_block V c)"
    and b: "b < n" "\<not> block_used V b" "\<And>c. c < b \<Longrightarrow> block_used V c"
    and lg: "loggable T (bitmap_block V b)"
    and data: "readable (mark_block b T) b" "loggable (mark_block b T) b"
    and j: "j \<le> b div BPB" "b div BPB < m"
  shows "hoare (tx_at d0 tr0 T) (balloc_loop 1 (sblock V) (map (\<lambda>i. i * BPB) [j..<m]))
     (\<lambda>r s. r = b \<and> tx_at d0 tr0 (tx_write b (\<lambda>_. 0) (mark_block b T)) s)"
  using j
proof (induction "b div BPB - j" arbitrary: j)
  case 0
  then have j: "j = b div BPB" by simp
  have cons: "[j..<m] = j # [Suc j..<m]" using 0 by (simp add: upt_conv_Cons)
  let ?bb = "bitmap_block V b" and ?bi = "b mod BPB"
  have bb: "BBLOCK (j * BPB) (unat (sb_ninodes (sblock V))) = ?bb"
    by (simp add: bitmap_block_def BBLOCK_def j layout)
  have B: "(0::nat) < BPB" by (simp add: layout)
  have split: "j * BPB + ?bi = b" unfolding j by (rule div_mult_mod_eq)
  have f: "find (\<lambda>bi. \<not> bit_used (tx_view T ?bb) bi) [0..<min BPB (n - j * BPB)] = Some ?bi"
    unfolding find_upt_Some_iff V_def [symmetric]
  proof (intro conjI allI impI)
    show "?bi < min BPB (n - j * BPB)" using B split b(1) mod_less_divisor [OF B, of b] by linarith
    show "\<not> bit_used (V ?bb) ?bi" using b(2) by (simp add: block_used_def)
    fix i
    assume i: "i < ?bi"
    then have "j * BPB + i < b" "i < BPB" using split mod_less_divisor [OF B, of b] by linarith+
    then have "block_used V (j * BPB + i)" "(j * BPB + i) mod BPB = i" "(j * BPB + i) div BPB = j"
      using b(3) B by simp_all
    then show "\<not> \<not> bit_used (V ?bb) i" by (simp add: block_used_def bitmap_block_def BBLOCK_def j)
  qed
  have mk: "tx_write ?bb (mark_used (tx_view T ?bb) ?bi) T = mark_block b T"
    by (simp add: mark_block_def V_def)
  have bz: "hoare (tx_at d0 tr0 (mark_block b T)) (bindK (bzero 1 b) (\<lambda>_. returnK b))
     (\<lambda>r s. r = b \<and> tx_at d0 tr0 (tx_write b (\<lambda>_. 0) (mark_block b T)) s)"
    by (rule bzero_tx [OF data(1) _ data(2)]) (simp_all add: hoare_def busy mark_block_def)
  show ?case
    unfolding cons list.map balloc_loop.simps bb n_def [symmetric]
    by (rule tx.read_then [OF rd [OF b(1)]], unfold f option.case split, rule tx.update_done)
      (use rd [OF b(1)] busy lg bz in \<open>simp_all add: readable_def mk\<close>)
next
  case (Suc x)
  have cons: "[j..<m] = j # [Suc j..<m]" using Suc by (simp add: upt_conv_Cons)
  have lt: "Suc j * BPB \<le> b" using Suc.hyps(2)
    by (metis Suc_leI div_le_mono div_times_less_eq_dividend le_trans mult_le_mono1 zero_less_Suc zero_less_diff)
  let ?c = "j * BPB"
  have c: "?c < n" using lt b(1) by (simp add: layout)
  have bb: "BBLOCK ?c (unat (sb_ninodes (sblock V))) = bitmap_block V ?c"
    by (simp add: bitmap_block_def)
  have f: "find (\<lambda>bi. \<not> bit_used (tx_view T (bitmap_block V ?c)) bi) [0..<min BPB (n - ?c)] = None"
    unfolding find_upt_None_iff V_def [symmetric]
  proof (intro allI impI)
    fix i
    assume "i < min BPB (n - ?c)"
    then have "?c + i < b" "(?c + i) mod BPB = i" "(?c + i) div BPB = j" using lt by simp_all
    then show "\<not> \<not> bit_used (V (bitmap_block V ?c)) i"
      using b(3) [of "?c + i"] by (simp add: block_used_def bitmap_block_def BBLOCK_def layout)
  qed
  have IH: "hoare (tx_at d0 tr0 T) (balloc_loop 1 (sblock V) (map (\<lambda>i. i * BPB) [Suc j..<m]))
     (\<lambda>r s. r = b \<and> tx_at d0 tr0 (tx_write b (\<lambda>_. 0) (mark_block b T)) s)"
    by (rule Suc.hyps(1)) (use Suc in linarith)+
  show ?case
    unfolding cons list.map balloc_loop.simps bb n_def [symmetric]
    by (rule tx.read_then [OF rd [OF c]], unfold f option.case, rule tx.read_done)
      (use rd [OF c] IH in \<open>simp_all add: readable_def\<close>)
qed

lemma wf_sb_write [simp]:
  assumes "k \<noteq> 1"
  shows "wf_sb (tx_write k d T) = wf_sb T" and "wf_sb (holding k' b T) = wf_sb T"
  using assms by (simp_all add: wf_sb_def Let_def)

lemma wf_sb_home:
  assumes "wf_sb T"
  shows "home T 1" and "b < unat (sb_size (sblock (tx_view T))) \<Longrightarrow> home T (bitmap_block (tx_view T) b)"
proof -
  show "home T (bitmap_block (tx_view T) b)" if "b < unat (sb_size (sblock (tx_view T)))"
    using bitmap_block_home [OF assms that] by (simp add: home_def)
  have "2 < l_start (tx_log T)" "l_start (tx_log T) \<le> tx_size T"
    using assms bitmap_block_gt [of "tx_view T" "unat (sb_size (sblock (tx_view T))) - 1"]
    by (auto simp: wf_sb_def Let_def)
  then show "home T 1" by (simp add: home_def log_area_def)
qed

text \<open>The preconditions the callers of the allocator have to meet: a transaction is open, the log
  has room, and the caller holds neither the super block nor a bitmap block.\<close>

definition alloc_ready :: "txabs \<Rightarrow> nat \<Rightarrow> bool" where
  "alloc_ready T m \<longleftrightarrow> wf_sb T \<and> l_busy (tx_log T) \<and> budget T m \<and> tx_held T 1 = None \<and>
     (\<forall>c < unat (sb_size (sblock (tx_view T))). tx_held T (bitmap_block (tx_view T) c) = None)"

lemma alloc_readyD:
  assumes "alloc_ready T m"
  shows "wf_sb T" "l_busy (tx_log T)" "budget T m" "readable T 1"
    "c < unat (sb_size (sblock (tx_view T))) \<Longrightarrow> readable T (bitmap_block (tx_view T) c)"
  using assms wf_sb_home budget_readable by (auto simp: alloc_ready_def)

definition free_block :: "(nat \<Rightarrow> blk) \<Rightarrow> nat \<Rightarrow> bool" where
  "free_block V b \<longleftrightarrow> b < unat (sb_size (sblock V)) \<and> \<not> block_used V b \<and> (\<forall>c<b. block_used V c)"

lemma balloc_tx:
  assumes r: "alloc_ready T (Suc (Suc m))" and b: "free_block (tx_view T) b" "home T b" "tx_held T b = None"
    and f: "hoare (tx_at d0 tr0 (tx_write b (\<lambda>_. 0) (mark_block b T))) (f b) Q"
  shows "hoare (tx_at d0 tr0 T) (bindK (balloc 1) f) Q"
proof -
  note a = alloc_readyD [OF r]
  let ?n = "unat (sb_size (sblock (tx_view T)))"
  have bu: "budget (mark_block b T) (Suc m)" unfolding mark_block_def by (rule budget_write [OF a(3)])
  have idx: "b div BPB < (?n + BPB - 1) div BPB"
  proof -
    have "b < ?n" using b(1) by (simp add: free_block_def)
    then have "Suc b + BPB - 1 \<le> ?n + BPB - 1" by linarith
    then have "(Suc b + BPB - 1) div BPB \<le> (?n + BPB - 1) div BPB" by (rule div_le_mono)
    moreover have "(Suc b + BPB - 1) div BPB = Suc (b div BPB)" by (simp add: layout)
    ultimately show ?thesis by simp
  qed
  have data: "readable (mark_block b T) b"
    by (rule budget_readable [OF bu]) (use b in \<open>simp_all add: mark_block_def\<close>)
  have loop: "hoare (tx_at d0 tr0 T) (balloc_loop 1 (sblock (tx_view T)) (bitmap_starts (sblock (tx_view T))))
     (\<lambda>r s. r = b \<and> tx_at d0 tr0 (tx_write b (\<lambda>_. 0) (mark_block b T)) s)"
    unfolding bitmap_starts_def
    by (rule balloc_loop_tx [OF a(2,5) _ _ _ budget_loggable [OF a(3)] data budget_loggable [OF bu] _ idx])
      (use b(1) in \<open>simp_all add: free_block_def\<close>)
  show ?thesis
    unfolding balloc_def bindK_assoc
    by (rule readsb_tx [OF a(4)], rule hoare_bind [OF loop]) (use f in \<open>simp add: hoare_def\<close>)
qed

lemma bfree_tx:
  assumes r: "alloc_ready T (Suc m)" and b: "b < unat (sb_size (sblock (tx_view T)))" "block_used (tx_view T) b"
    and f: "hoare (tx_at d0 tr0 (unmark_block b T)) (f ()) Q"
  shows "hoare (tx_at d0 tr0 T) (bindK (bfree 1 b) f) Q"
proof -
  note a = alloc_readyD [OF r]
  let ?bb = "bitmap_block (tx_view T) b"
  have g: "(if \<not> bit_used (tx_view T ?bb) (b mod BPB) then m1 else m2) = m2" for m1 m2 :: "unit km"
    using b(2) by (simp add: block_used_def)
  have bb: "BBLOCK b (unat (sb_ninodes (sblock (tx_view T)))) = ?bb" by (simp add: bitmap_block_def)
  have free: "hoare (tx_at d0 tr0 T) (bfree 1 b) (\<lambda>_. tx_at d0 tr0 (unmark_block b T))"
    unfolding bfree_def
    by (rule readsb_tx [OF a(4)], unfold bb, rule tx.read_then [OF a(5) [OF b(1)]], unfold g,
        rule tx.update_last)
      (use a(2) a(5) [OF b(1)] budget_loggable [OF a(3)] in \<open>simp_all add: readable_def unmark_block_def\<close>)
  show ?thesis by (rule hoare_bind [OF free]) (use f in simp)
qed

text \<open>A block that is not marked is not freed twice: \<open>bfree\<close> panics.\<close>

lemma bfree_free_panics:
  assumes at: "tx_at d0 tr0 T s" and r: "alloc_ready T (Suc m)"
    and b: "b < unat (sb_size (sblock (tx_view T)))" "\<not> block_used (tx_view T) b"
  shows "bfree 1 b s = Panic ''freeing free block''"
proof -
  note a = alloc_readyD [OF r]
  let ?bb = "bitmap_block (tx_view T) b"
  have bb: "BBLOCK b (unat (sb_ninodes (sblock (tx_view T)))) = ?bb" by (simp add: bitmap_block_def)
  have "hoare (tx_at d0 tr0 T) (readsb 1) (\<lambda>sb s. sb = sblock (tx_view T) \<and> tx_at d0 tr0 T s)"
    by (rule hoare_last, rule readsb_tx [OF a(4)]) (simp add: hoare_def)
  with at obtain s1 where s1: "readsb 1 s = Ok (sblock (tx_view T)) s1" "tx_at d0 tr0 T s1"
    by (auto simp: hoare_def)
  obtain x s2 where s2: "bread 1 ?bb s1 = Ok x s2" "tx_at d0 tr0 (holding ?bb x T) s2"
    using hoareE [OF tx_rd [OF a(5) [OF b(1)]] s1(2)] by (auto simp: holding_def)
  have "bdata x s2 = Ok (tx_view T ?bb) s2"
    using tx_getd [of "holding ?bb x T" ?bb x d0 tr0] s2(2) by (auto simp: hoare_def bdata_def)
  then show ?thesis
    using s1(1) s2(1) b(2) by (simp add: bfree_def bindK_def block_used_def bb [simplified])
qed

end
