(* ===== verification/Inode.thy ===== *)
theory Inode
  imports Blocks
begin

text \<open>
  The inode layer of kernel/fs.c: the inode cache (\<open>iget\<close>, \<open>idup\<close>, \<open>ilock\<close>, \<open>iunlock\<close>,
  \<open>iput\<close>), allocation on disk (\<open>ialloc\<close>, \<open>iupdate\<close>) and the block map of a file
  (\<open>bmap\<close>, \<open>itrunc\<close>). An inode pointer is an index into \<open>icache.inode\<close>.
\<close>

section \<open>Operations\<close>

definition T_DIR :: ushort where "T_DIR = 1"
definition T_FILE :: ushort where "T_FILE = 2"
definition T_DEV :: ushort where "T_DEV = 3"

definition upd_inode :: "nat \<Rightarrow> (inode \<Rightarrow> inode) \<Rightarrow> unit km" where
  "upd_inode ip g = modifyK (\<lambda>s. s\<lparr>inodes := (inodes s)(ip := g (inodes s ip))\<rparr>)"

definition get_inode :: "nat \<Rightarrow> inode km" where
  "get_inode ip = getsK (\<lambda>s. inodes s ip)"

text \<open>The byte offset of a disk inode in its block: \<open>(struct dinode*)bp->data + inum%IPB\<close>.\<close>

definition dinode_off :: "nat \<Rightarrow> nat" where
  "dinode_off inum = (inum mod IPB) * 64"

definition iget :: "nat \<Rightarrow> nat \<Rightarrow> nat km" where
  "iget dev inum s =
     (case find (\<lambda>ip. i_ref (inodes s ip) > 0 \<and> i_dev (inodes s ip) = dev \<and> i_inum (inodes s ip) = inum)
             [0..<NINODE] of
        Some ip \<Rightarrow> bindK (upd_inode ip (\<lambda>i. i\<lparr>i_ref := i_ref i + 1\<rparr>)) (\<lambda>_. returnK ip) s
      | None \<Rightarrow>
          (case find (\<lambda>ip. i_ref (inodes s ip) = 0) [0..<NINODE] of
             None \<Rightarrow> Panic ''iget: no inodes''
           | Some ip \<Rightarrow>
               bindK (upd_inode ip (\<lambda>i. i\<lparr>i_dev := dev, i_inum := inum, i_ref := 1,
                                         i_busy := False, i_valid := False\<rparr>)) (\<lambda>_. returnK ip) s))"

text \<open>\<open>for(inum = 1; inum < sb.ninodes; inum++)\<close>: the list holds the inode numbers to try.\<close>

primrec ialloc_loop :: "nat \<Rightarrow> ushort \<Rightarrow> nat list \<Rightarrow> nat km" where
  "ialloc_loop dev type [] = panicK ''ialloc: no inodes''"
| "ialloc_loop dev type (inum # inums) =
     bindK (bread dev (IBLOCK inum)) (\<lambda>bp.
     bindK (bdata bp) (\<lambda>d.
     if di_type (get_dinode d (dinode_off inum)) = 0
     then
       bindK (set_bdata bp (put_dinode d (dinode_off inum)
         \<lparr>di_type = type, di_major = 0, di_minor = 0, di_nlink = 0, di_size = 0,
          di_addrs = replicate (NDIRECT + 1) 0\<rparr>)) (\<lambda>_.
       bindK (log_write bp) (\<lambda>_.
       bindK (brelse bp) (\<lambda>_.
       iget dev inum)))
     else
       bindK (brelse bp) (\<lambda>_.
       ialloc_loop dev type inums)))"

definition ialloc :: "nat \<Rightarrow> ushort \<Rightarrow> nat km" where
  "ialloc dev type = bindK (readsb dev) (\<lambda>sb. ialloc_loop dev type [1..<unat (sb_ninodes sb)])"

text \<open>The disk image of an in-memory inode and back.\<close>

definition to_dinode :: "inode \<Rightarrow> dinode" where
  "to_dinode i = \<lparr>di_type = i_type i, di_major = i_major i, di_minor = i_minor i, di_nlink = i_nlink i,
     di_size = i_size i, di_addrs = map (i_addrs i) [0..<NDIRECT + 1]\<rparr>"

definition from_dinode :: "dinode \<Rightarrow> inode \<Rightarrow> inode" where
  "from_dinode d i = i\<lparr>i_type := di_type d, i_major := di_major d, i_minor := di_minor d,
     i_nlink := di_nlink d, i_size := di_size d,
     i_addrs := (\<lambda>k. if k < NDIRECT + 1 then di_addrs d ! k else i_addrs i k)\<rparr>"

definition iupdate :: "nat \<Rightarrow> unit km" where
  "iupdate ip =
     bindK (get_inode ip) (\<lambda>i.
     bindK (bread (i_dev i) (IBLOCK (i_inum i))) (\<lambda>bp.
     bindK (bdata bp) (\<lambda>d.
     bindK (set_bdata bp (put_dinode d (dinode_off (i_inum i)) (to_dinode i))) (\<lambda>_.
     bindK (log_write bp) (\<lambda>_.
     brelse bp)))))"

definition idup :: "nat \<Rightarrow> nat km" where
  "idup ip = bindK (upd_inode ip (\<lambda>i. i\<lparr>i_ref := i_ref i + 1\<rparr>)) (\<lambda>_. returnK ip)"

definition ilock :: "nat \<Rightarrow> unit km" where
  "ilock ip =
     bindK (get_inode ip) (\<lambda>i.
     if i_ref i < 1 then panicK ''ilock''
     else if i_busy i then Sleeps (Chan_inode ip)
     else
       bindK (upd_inode ip (\<lambda>i. i\<lparr>i_busy := True\<rparr>)) (\<lambda>_.
       whenK (\<not> i_valid i)
         (bindK (bread (i_dev i) (IBLOCK (i_inum i))) (\<lambda>bp.
          bindK (bdata bp) (\<lambda>d.
          bindK (upd_inode ip (from_dinode (get_dinode d (dinode_off (i_inum i))))) (\<lambda>_.
          bindK (brelse bp) (\<lambda>_.
          bindK (upd_inode ip (\<lambda>i. i\<lparr>i_valid := True\<rparr>)) (\<lambda>_.
          bindK (get_inode ip) (\<lambda>i.
          whenK (i_type i = 0) (panicK ''ilock: no type''))))))))))"

definition iunlock :: "nat \<Rightarrow> unit km" where
  "iunlock ip =
     bindK (get_inode ip) (\<lambda>i.
     if \<not> i_busy i \<or> i_ref i < 1 then panicK ''iunlock''
     else
       bindK (upd_inode ip (\<lambda>i. i\<lparr>i_busy := False\<rparr>)) (\<lambda>_.
       modifyK (wakeup (Chan_inode ip))))"

definition set_addr :: "nat \<Rightarrow> nat \<Rightarrow> uint \<Rightarrow> unit km" where
  "set_addr ip k a = upd_inode ip (\<lambda>i. i\<lparr>i_addrs := (i_addrs i)(k := a)\<rparr>)"

text \<open>\<open>if((addr = ip->addrs[k]) == 0) ip->addrs[k] = addr = balloc(ip->dev);\<close>\<close>

definition get_or_alloc :: "nat \<Rightarrow> nat \<Rightarrow> uint km" where
  "get_or_alloc ip k =
     bindK (get_inode ip) (\<lambda>i.
     if i_addrs i k = 0
     then bindK (balloc (i_dev i)) (\<lambda>b.
          bindK (set_addr ip k (word_of_nat b)) (\<lambda>_.
          returnK (word_of_nat b)))
     else returnK (i_addrs i k))"

definition bmap :: "nat \<Rightarrow> nat \<Rightarrow> uint km" where
  "bmap ip bn =
     (if bn < NDIRECT then get_or_alloc ip bn
      else if bn - NDIRECT < NINDIRECT
      then
        bindK (get_or_alloc ip NDIRECT) (\<lambda>ind.
        bindK (get_inode ip) (\<lambda>i.
        bindK (bread (i_dev i) (unat ind)) (\<lambda>bp.
        bindK (bdata bp) (\<lambda>a.
        if get32 a (4 * (bn - NDIRECT)) = 0
        then
          bindK (balloc (i_dev i)) (\<lambda>b.
          bindK (bdata bp) (\<lambda>a.
          bindK (set_bdata bp (put32 a (4 * (bn - NDIRECT)) (word_of_nat b))) (\<lambda>_.
          bindK (log_write bp) (\<lambda>_.
          bindK (brelse bp) (\<lambda>_.
          returnK (word_of_nat b))))))
        else
          bindK (brelse bp) (\<lambda>_.
          returnK (get32 a (4 * (bn - NDIRECT))))))))
      else panicK ''bmap: out of range'')"

definition itrunc :: "nat \<Rightarrow> unit km" where
  "itrunc ip =
     bindK (forK [0..<NDIRECT] (\<lambda>k.
       bindK (get_inode ip) (\<lambda>i.
       whenK (i_addrs i k \<noteq> 0)
         (bindK (bfree (i_dev i) (unat (i_addrs i k))) (\<lambda>_.
          set_addr ip k 0))))) (\<lambda>_.
     bindK (get_inode ip) (\<lambda>i.
     bindK (whenK (i_addrs i NDIRECT \<noteq> 0)
       (bindK (bread (i_dev i) (unat (i_addrs i NDIRECT))) (\<lambda>bp.
        bindK (forK [0..<NINDIRECT] (\<lambda>j.
          bindK (bdata bp) (\<lambda>a.
          whenK (get32 a (4 * j) \<noteq> 0) (bfree (i_dev i) (unat (get32 a (4 * j))))))) (\<lambda>_.
        bindK (brelse bp) (\<lambda>_.
        bindK (bfree (i_dev i) (unat (i_addrs i NDIRECT))) (\<lambda>_.
        set_addr ip NDIRECT 0)))))) (\<lambda>_.
     bindK (upd_inode ip (\<lambda>i. i\<lparr>i_size := 0\<rparr>)) (\<lambda>_.
     iupdate ip))))"

definition iput :: "nat \<Rightarrow> unit km" where
  "iput ip =
     bindK (get_inode ip) (\<lambda>i.
     bindK (whenK (i_ref i = 1 \<and> i_valid i \<and> i_nlink i = 0)
       (if i_busy i then panicK ''iput busy''
        else
          bindK (upd_inode ip (\<lambda>i. i\<lparr>i_busy := True\<rparr>)) (\<lambda>_.
          bindK (itrunc ip) (\<lambda>_.
          bindK (upd_inode ip (\<lambda>i. i\<lparr>i_type := 0\<rparr>)) (\<lambda>_.
          bindK (iupdate ip) (\<lambda>_.
          bindK (upd_inode ip (\<lambda>i. i\<lparr>i_busy := False, i_valid := False\<rparr>)) (\<lambda>_.
          modifyK (wakeup (Chan_inode ip))))))))) (\<lambda>_.
     upd_inode ip (\<lambda>i. i\<lparr>i_ref := i_ref i - 1\<rparr>)))"

definition iunlockput :: "nat \<Rightarrow> unit km" where
  "iunlockput ip = bindK (iunlock ip) (\<lambda>_. iput ip)"

text \<open>\<open>struct stat\<close> (stat.h) and \<open>stati\<close>.\<close>

record statrec =
  st_type :: ushort
  st_dev :: nat
  st_ino :: nat
  st_nlink :: ushort
  st_size :: uint

definition stati :: "nat \<Rightarrow> statrec km" where
  "stati ip = getsK (\<lambda>s. let i = inodes s ip in
     \<lparr>st_type = i_type i, st_dev = i_dev i, st_ino = i_inum i, st_nlink = i_nlink i, st_size = i_size i\<rparr>)"

end
