(* ===== verification/Console.thy ===== *)
theory Console
  imports Kernel_State
begin

text \<open>
  Console output: the serial port (kernel/uart.c), the CGA text screen and formatted printing
  (kernel/tty.c). Port I/O is kept to what it changes: the bytes sent to the serial port, the
  cursor register and the text memory.
\<close>

section \<open>Text\<close>

definition str :: "string \<Rightarrow> uchar list" where
  "str cs = map of_char cs"

definition BACKSPACE :: int where "BACKSPACE = 0x100"

text \<open>The build sets \<open>LEGACY_FB=n\<close> (build-config.mk).\<close>

definition LEGACY_FB :: bool where "LEGACY_FB = False"

section \<open>Operations\<close>

definition upd_cons :: "(consst \<Rightarrow> consst) \<Rightarrow> unit km" where
  "upd_cons g = modifyK (\<lambda>s. s\<lparr>cons := g (cons s)\<rparr>)"

text \<open>The wait for the transmitter to be ready gives up after 128 tries and then sends anyway.\<close>

definition uartputc :: "int \<Rightarrow> unit km" where
  "uartputc c = upd_cons (\<lambda>k. if con_uart k then k\<lparr>con_uart_out := con_uart_out k @ [word_of_int c]\<rparr> else k)"

definition clear :: "unit km" where
  "clear = upd_cons (\<lambda>k. k\<lparr>con_pos := 0, con_crt := (\<lambda>i. if i < 4000 div 2 then 0 else con_crt k i)\<rparr>)"

text \<open>The cell for a character, in the colours of the two builds.\<close>

definition cga_cell :: "bool \<Rightarrow> int \<Rightarrow> ushort" where
  "cga_cell legacy c = (if legacy then word_of_int (c AND 0xff) OR 0x0700 else push_bit 8 15 OR word_of_int (c AND 0xff))"

text \<open>The cursor after a character: the start of the next line, one back or the next cell.\<close>

definition next_pos :: "int \<Rightarrow> int \<Rightarrow> int" where
  "next_pos pos c =
     (if c = 10 then pos + (80 - pos mod 80)
      else if c = BACKSPACE then (if pos > 0 then pos - 1 else pos)
      else pos + 1)"

text \<open>Scrolling, which only the legacy build does: the lines move up by one and the rest of the screen
  from the new cursor on is cleared.\<close>

definition scroll_up :: "nat \<Rightarrow> (nat \<Rightarrow> ushort) \<Rightarrow> nat \<Rightarrow> ushort" where
  "scroll_up pos crt i =
     (if pos \<le> i \<and> i < 24 * 80 then 0 else if i < 23 * 80 then crt (i + 80) else crt i)"

definition cgaputc :: "bool \<Rightarrow> int \<Rightarrow> unit km" where
  "cgaputc legacy c =
     bindK (getsK cons) (\<lambda>k.
     let pos = uint (con_pos k);
         crt = (if c = 10 \<or> c = BACKSPACE then con_crt k else (con_crt k)(nat pos := cga_cell legacy c));
         pos = next_pos pos c
     in
     if legacy \<and> pos div 80 \<ge> 24
     then
       if pos - 80 > 24 * 80 then faultK ''cgaputc''
       else upd_cons (\<lambda>k. k\<lparr>con_pos := word_of_int (pos - 80),
              con_crt := (scroll_up (nat (pos - 80)) crt)(nat (pos - 80) := cga_cell legacy 32)\<rparr>)
     else upd_cons (\<lambda>k. k\<lparr>con_pos := word_of_int pos, con_crt := crt(nat pos := cga_cell legacy 32)\<rparr>))"

text \<open>Once another CPU has panicked, the CPU stops for good: it is in the same state as one that
  panics itself.\<close>

definition consputc :: "int \<Rightarrow> unit km" where
  "consputc c =
     bindK (getsK cons) (\<lambda>k.
     if con_panicked k then panicK ''panicked''
     else
       bindK (if c = BACKSPACE
              then bindK (uartputc 8) (\<lambda>_. bindK (uartputc 32) (\<lambda>_. uartputc 8))
              else uartputc c) (\<lambda>_.
       cgaputc LEGACY_FB c))"

primrec consputs :: "uchar list \<Rightarrow> unit km" where
  "consputs [] = returnK ()"
| "consputs (c # cs) = bindK (consputc (uint c)) (\<lambda>_. consputs cs)"

definition digits :: "uchar list" where
  "digits = str ''0123456789abcdef''"

text \<open>\<open>do buf[i++] = digits[x % base]; while((x /= base) != 0)\<close>: the digits, lowest first. The callers
  pass 10 and 16; a base below 2 would not end.\<close>

function printint_digits :: "nat \<Rightarrow> nat \<Rightarrow> uchar list" where
  "printint_digits base x =
     (if base < 2 then []
      else digits ! (x mod base) # (if x div base \<noteq> 0 then printint_digits base (x div base) else []))"
  by auto

termination
  by (relation "measure snd") (auto simp: div_less_dividend div_greater_zero_iff)

declare printint_digits.simps [simp del]

definition printint :: "uint \<Rightarrow> nat \<Rightarrow> bool \<Rightarrow> unit km" where
  "printint xx base sign =
     (let neg = sign \<and> sint xx < 0;
          x = (if neg then - xx else xx);
          buf = printint_digits base (unat x) @ (if neg then [0x2D] else [])
      in consputs (rev buf))"

text \<open>The variable arguments, as the words that \<open>%d\<close>, \<open>%x\<close> and \<open>%p\<close> read and the strings that \<open>%s\<close>
  reads, \<open>None\<close> for a null pointer. A format that asks for an argument that is not there or is of the
  other kind reads memory that is not an argument.\<close>

datatype carg = Arg_int uint | Arg_str "uchar list option"

text \<open>The \<open>switch\<close>: what one conversion does, and the arguments left after it.\<close>

definition cprintf_conv :: "uchar \<Rightarrow> carg list \<Rightarrow> unit km \<times> carg list" where
  "cprintf_conv c args =
     (if c = 0x64 then
        (case args of
           Arg_int x # args \<Rightarrow> (printint x 10 True, args)
         | _ \<Rightarrow> (faultK ''cprintf'', []))
      else if c = 0x78 \<or> c = 0x70 then
        (case args of
           Arg_int x # args \<Rightarrow> (printint x 16 False, args)
         | _ \<Rightarrow> (faultK ''cprintf'', []))
      else if c = 0x73 then
        (case args of
           Arg_str None # args \<Rightarrow> (consputs (str ''(null)''), args)
         | Arg_str (Some s) # args \<Rightarrow> (consputs s, args)
         | _ \<Rightarrow> (faultK ''cprintf'', []))
      else if c = 0x25 then (consputc 0x25, args)
      else (bindK (consputc 0x25) (\<lambda>_. consputc (uint c)), args))"

text \<open>The format is the bytes before its NUL.\<close>

fun cprintf :: "uchar list \<Rightarrow> carg list \<Rightarrow> unit km" where
  "cprintf [] args = returnK ()"
| "cprintf [c] args = (if c \<noteq> 0x25 then consputc (uint c) else returnK ())"
| "cprintf (c # d # fmt) args =
     (if c \<noteq> 0x25 then bindK (consputc (uint c)) (\<lambda>_. cprintf (d # fmt) args)
      else
        case cprintf_conv d args of (print, args) \<Rightarrow>
        bindK print (\<lambda>_. cprintf fmt args))"

section \<open>Printing terminates and prints\<close>

text \<open>Console output changes nothing but the console.\<close>

definition console_only :: "unit km \<Rightarrow> bool" where
  "console_only m \<longleftrightarrow> (\<forall>s. \<not> con_panicked (cons s) \<longrightarrow>
     (\<exists>k. m s = Ok () (s\<lparr>cons := k\<rparr>) \<and> \<not> con_panicked k \<and> con_uart k = con_uart (cons s)))"

lemma console_onlyE:
  assumes "console_only m" and "\<not> con_panicked (cons (s :: kernel))"
  obtains k where "m s = Ok () (s\<lparr>cons := k\<rparr>)" "\<not> con_panicked k" "con_uart k = con_uart (cons s)"
  using assms unfolding console_only_def by blast

lemma console_only_bind:
  assumes m: "console_only m" and f: "console_only (f ())"
  shows "console_only (bindK m f)"
  unfolding console_only_def
proof (intro allI impI)
  fix s :: kernel
  assume s: "\<not> con_panicked (cons s)"
  from m s obtain k where k: "m s = Ok () (s\<lparr>cons := k\<rparr>)" "\<not> con_panicked k" "con_uart k = con_uart (cons s)"
    by (rule console_onlyE)
  have k2: "\<not> con_panicked (cons (s\<lparr>cons := k\<rparr>))" using k by simp_all
  from f k2 obtain j where "f () (s\<lparr>cons := k\<rparr>) = Ok () ((s\<lparr>cons := k\<rparr>)\<lparr>cons := j\<rparr>)" "\<not> con_panicked j"
      "con_uart j = con_uart (cons (s\<lparr>cons := k\<rparr>))"
    by (rule console_onlyE)
  with k show "\<exists>k. bindK m f s = Ok () (s\<lparr>cons := k\<rparr>) \<and> \<not> con_panicked k \<and> con_uart k = con_uart (cons s)"
    by auto
qed

lemma console_only_return: "console_only (returnK ())"
  unfolding console_only_def
proof (intro allI impI)
  fix s :: kernel
  assume "\<not> con_panicked (cons s)"
  then show "\<exists>k. returnK () s = Ok () (s\<lparr>cons := k\<rparr>) \<and> \<not> con_panicked k \<and> con_uart k = con_uart (cons s)"
    by (intro exI [of _ "cons s"]) simp
qed

lemma console_only_upd:
  "(\<And>k. con_panicked (g k) = con_panicked k) \<Longrightarrow> (\<And>k. con_uart (g k) = con_uart k) \<Longrightarrow> console_only (upd_cons g)"
  by (auto simp: console_only_def upd_cons_def)

lemma console_only_uartputc: "console_only (uartputc c)"
  unfolding uartputc_def by (rule console_only_upd) simp_all

lemma console_only_cgaputc: "console_only (cgaputc False c)"
  by (auto simp: console_only_def cgaputc_def upd_cons_def Let_def split: prod.split)

lemma console_only_consputc: "console_only (consputc c)"
proof -
  have "console_only (bindK (if c = BACKSPACE
              then bindK (uartputc 8) (\<lambda>_. bindK (uartputc 32) (\<lambda>_. uartputc 8))
              else uartputc c) (\<lambda>_. cgaputc LEGACY_FB c))"
    by (auto intro!: console_only_bind console_only_uartputc console_only_cgaputc simp: LEGACY_FB_def)
  then show ?thesis unfolding console_only_def consputc_def by simp
qed

lemma console_only_consputs: "console_only (consputs cs)"
proof (induction cs)
  case (Cons c cs)
  then show ?case unfolding consputs.simps by (intro console_only_bind console_only_consputc)
qed (simp only: consputs.simps console_only_return)

lemma console_only_printint: "console_only (printint xx base sign)"
  by (simp add: printint_def Let_def console_only_consputs)

lemmas console_only_rules = console_only_bind console_only_return console_only_consputc
  console_only_consputs console_only_printint

section \<open>What is printed\<close>

text \<open>The text of a call: the bytes it sends to the serial port.\<close>

definition prints :: "unit km \<Rightarrow> uchar list \<Rightarrow> bool" where
  "prints m text \<longleftrightarrow> (\<forall>s. \<not> con_panicked (cons s) \<longrightarrow> con_uart (cons s) \<longrightarrow>
     (\<exists>k. m s = Ok () (s\<lparr>cons := k\<rparr>) \<and> \<not> con_panicked k \<and> con_uart k \<and>
        con_uart_out k = con_uart_out (cons s) @ text))"

lemma printsE:
  assumes "prints m text" and "\<not> con_panicked (cons (s :: kernel))" and "con_uart (cons s)"
  obtains k where "m s = Ok () (s\<lparr>cons := k\<rparr>)" "\<not> con_panicked k" "con_uart k"
    "con_uart_out k = con_uart_out (cons s) @ text"
  using assms unfolding prints_def by blast

lemma prints_bind:
  assumes m: "prints m text" and f: "prints (f ()) rest"
  shows "prints (bindK m f) (text @ rest)"
  unfolding prints_def
proof (intro allI impI)
  fix s :: kernel
  assume s: "\<not> con_panicked (cons s)" "con_uart (cons s)"
  from m s obtain k where k: "m s = Ok () (s\<lparr>cons := k\<rparr>)" "\<not> con_panicked k" "con_uart k"
      "con_uart_out k = con_uart_out (cons s) @ text"
    by (rule printsE)
  have k2: "\<not> con_panicked (cons (s\<lparr>cons := k\<rparr>))" "con_uart (cons (s\<lparr>cons := k\<rparr>))" using k by simp_all
  from f k2 obtain j where "f () (s\<lparr>cons := k\<rparr>) = Ok () ((s\<lparr>cons := k\<rparr>)\<lparr>cons := j\<rparr>)" "\<not> con_panicked j"
      "con_uart j" "con_uart_out j = con_uart_out (cons (s\<lparr>cons := k\<rparr>)) @ rest"
    by (rule printsE)
  with k show "\<exists>k. bindK m f s = Ok () (s\<lparr>cons := k\<rparr>) \<and> \<not> con_panicked k \<and> con_uart k \<and>
      con_uart_out k = con_uart_out (cons s) @ text @ rest"
    by auto
qed

lemma prints_return: "prints (returnK ()) []"
  unfolding prints_def
proof (intro allI impI)
  fix s :: kernel
  assume "\<not> con_panicked (cons s)" "con_uart (cons s)"
  then show "\<exists>k. returnK () s = Ok () (s\<lparr>cons := k\<rparr>) \<and> \<not> con_panicked k \<and> con_uart k \<and>
      con_uart_out k = con_uart_out (cons s) @ []"
    by (intro exI [of _ "cons s"]) simp
qed

lemma prints_uartputc: "prints (uartputc c) [word_of_int c]"
  by (auto simp: prints_def uartputc_def upd_cons_def)

lemma prints_cgaputc: "prints (cgaputc False c) []"
  by (auto simp: prints_def cgaputc_def upd_cons_def Let_def split: prod.split)

lemma prints_consputc: "prints (consputc (uint (c :: uchar))) [c]"
proof -
  have "uint c < 256" using uint_lt2p [of c] by simp
  then have "prints (bindK (if uint c = BACKSPACE
              then bindK (uartputc 8) (\<lambda>_. bindK (uartputc 32) (\<lambda>_. uartputc 8))
              else uartputc (uint c)) (\<lambda>_. cgaputc LEGACY_FB (uint c))) ([c] @ [])"
    using prints_uartputc [of "uint c"]
    by (intro prints_bind) (simp_all add: BACKSPACE_def LEGACY_FB_def prints_cgaputc)
  then show ?thesis unfolding prints_def consputc_def by simp
qed

lemma prints_consputs: "prints (consputs cs) cs"
proof (induction cs)
  case (Cons c cs)
  from prints_bind [OF prints_consputc [of c], where f = "\<lambda>_. consputs cs", OF Cons] show ?case by simp
qed (simp only: consputs.simps prints_return)

definition int_text :: "uint \<Rightarrow> nat \<Rightarrow> bool \<Rightarrow> uchar list" where
  "int_text xx base sign =
     (if sign \<and> sint xx < 0 then 0x2D # rev (printint_digits base (unat (- xx)))
      else rev (printint_digits base (unat xx)))"

lemma prints_printint: "prints (printint xx base sign) (int_text xx base sign)"
  using prints_consputs by (simp add: printint_def int_text_def Let_def del: consputs.simps)

text \<open>The text of a format.\<close>

definition conv_text :: "uchar \<Rightarrow> carg list \<Rightarrow> (uchar list \<times> carg list) option" where
  "conv_text c args =
     (if c = 0x64 then (case args of Arg_int x # args \<Rightarrow> Some (int_text x 10 True, args) | _ \<Rightarrow> None)
      else if c = 0x78 \<or> c = 0x70 then
        (case args of Arg_int x # args \<Rightarrow> Some (int_text x 16 False, args) | _ \<Rightarrow> None)
      else if c = 0x73 then
        (case args of
           Arg_str s # args \<Rightarrow> Some (case s of None \<Rightarrow> str ''(null)'' | Some s \<Rightarrow> s, args)
         | _ \<Rightarrow> None)
      else if c = 0x25 then Some ([0x25], args)
      else Some ([0x25, c], args))"

fun format_text :: "uchar list \<Rightarrow> carg list \<Rightarrow> uchar list option" where
  "format_text [] args = Some []"
| "format_text [c] args = Some (if c \<noteq> 0x25 then [c] else [])"
| "format_text (c # d # fmt) args =
     (if c \<noteq> 0x25 then map_option (Cons c) (format_text (d # fmt) args)
      else case conv_text d args of
             None \<Rightarrow> None
           | Some (text, args) \<Rightarrow> map_option (append text) (format_text fmt args))"

lemma prints_conv:
  assumes "conv_text c args = Some (text, rest)"
  obtains m where "cprintf_conv c args = (m, rest)" "prints m text"
proof -
  have p: "prints (consputc 0x25) [0x25]" using prints_consputc [of "0x25"] by simp
  note pp = prints_bind [OF p, where f = "\<lambda>_. consputc (uint c)", OF prints_consputc]
  from assms have "\<exists>m. cprintf_conv c args = (m, rest) \<and> prints m text"
    using p pp prints_printint prints_consputs
    by (auto simp: conv_text_def cprintf_conv_def split: if_splits list.splits carg.splits option.splits)
  with that show thesis by blast
qed

lemma cprintf_prints: "format_text fmt args = Some out \<Longrightarrow> prints (cprintf fmt args) out"
proof (induction fmt args arbitrary: out rule: cprintf.induct)
  case (3 c d fmt args)
  show ?case
  proof (cases "c = 0x25")
    case False
    with "3.prems" obtain rest where "format_text (d # fmt) args = Some rest" "out = [c] @ rest" by auto
    with "3.IH"(1) False prints_bind [OF prints_consputc [of c]] show ?thesis by simp
  next
    case True
    with "3.prems" obtain t1 args' t2 where "conv_text d args = Some (t1, args')"
        "format_text fmt args' = Some t2" "out = t1 @ t2"
      by (auto split: option.splits)
    moreover from this obtain m where "cprintf_conv d args = (m, args')" "prints m t1" by (metis prints_conv)
    ultimately show ?thesis using True "3.IH"(2) by (auto intro: prints_bind)
  qed
qed (auto simp: prints_return prints_consputc simp del: monad_simps)

text \<open>The digits of a number, read back.\<close>

definition digit_val :: "uchar \<Rightarrow> nat" where
  "digit_val c = (if c \<ge> 0x61 then unat c - 0x61 + 10 else unat c - 0x30)"

definition read_num :: "nat \<Rightarrow> uchar list \<Rightarrow> nat" where
  "read_num base cs = foldl (\<lambda>v c. base * v + digit_val c) 0 cs"

lemma digit_val_digits: "d < 16 \<Longrightarrow> digit_val (digits ! d) = d"
proof -
  have "\<forall>d\<in>set [0..<16]. digit_val (digits ! d) = d" by code_simp
  then show "d < 16 \<Longrightarrow> digit_val (digits ! d) = d" by simp
qed

lemma read_printint_digits:
  assumes "2 \<le> base" and "base \<le> 16"
  shows "read_num base (rev (printint_digits base x)) = x"
proof (induction x rule: less_induct)
  case (less x)
  have v: "digit_val (digits ! (x mod base)) = x mod base"
    using assms by (intro digit_val_digits) (simp add: order_less_le_trans [OF mod_less_divisor])
  have "read_num base (rev (printint_digits base (x div base))) = x div base" if "x div base \<noteq> 0"
    using that assms by (intro less) (auto intro: div_less_dividend simp: div_greater_zero_iff)
  moreover have "x mod base = x" if "x div base = 0" using that assms by (simp add: div_eq_0_iff)
  ultimately show ?case using assms v by (subst printint_digits.simps) (auto simp: read_num_def)
qed

section \<open>Properties\<close>

text \<open>C22. \<open>cprintf\<close> with arguments that fit its format returns, sends to the serial port exactly the text
  of the format with its arguments, and changes nothing but the console.\<close>

theorem cprintf_text:
  assumes "format_text fmt args = Some text" and "\<not> con_panicked (cons s)" and "con_uart (cons s)"
  shows "\<exists>k. cprintf fmt args s = Ok () (s\<lparr>cons := k\<rparr>) \<and> con_uart_out k = con_uart_out (cons s) @ text"
  using printsE [OF cprintf_prints [OF assms(1)] assms(2,3)] by blast


theorem cprintf_text_witness:
  "\<exists>k. cprintf [0x63, 0x25, 0x64, 10] [Arg_int (- 4)] (zero_kernel\<lparr>cons := (cons zero_kernel)\<lparr>con_uart := True\<rparr>\<rparr>) =
     Ok () (zero_kernel\<lparr>cons := k\<rparr>) \<and> con_uart_out k = [0x63, 0x2D, 0x34, 10]"
proof -
  let ?s = "zero_kernel\<lparr>cons := (cons zero_kernel)\<lparr>con_uart := True\<rparr>\<rparr>"
  have "format_text [0x63, 0x25, 0x64, 10] [Arg_int (- 4)] = Some [0x63, 0x2D, 0x34, 10]" by code_simp
  from cprintf_text [OF this, of ?s] show ?thesis by (simp add: zero_kernel_def)
qed


section \<open>The screen\<close>

lemma uint_pos: "0 \<le> x \<Longrightarrow> x < 65536 \<Longrightarrow> uint (word_of_int x :: ushort) = x"
  by (simp add: uint_word_of_int)

lemma next_pos_bounds:
  assumes "0 \<le> pos" and "pos < 1920"
  shows "0 \<le> next_pos pos c" "next_pos pos c \<le> 1920" "next_pos pos c div 80 \<ge> 24 \<longleftrightarrow> next_pos pos c = 1920"
proof -
  have "pos + (80 - pos mod 80) = 80 * (pos div 80 + 1)" by presburger
  moreover have "0 \<le> pos div 80" "pos div 80 < 24" using assms by presburger+
  ultimately show b: "0 \<le> next_pos pos c" "next_pos pos c \<le> 1920"
    using assms by (auto simp: next_pos_def)
  then show "next_pos pos c div 80 \<ge> 24 \<longleftrightarrow> next_pos pos c = 1920" by presburger
qed

text \<open>C24. In the legacy build the cursor stays on the 24 lines above the status line and no cell outside
  them is written.\<close>

theorem cgaputc_legacy_on_screen:
  assumes "uint (con_pos (cons s)) < 24 * 80"
  shows "\<exists>t. cgaputc True c s = Ok () t \<and> uint (con_pos (cons t)) < 24 * 80 \<and>
    (\<forall>i\<ge>24 * 80. con_crt (cons t) i = con_crt (cons s) i)"
proof -
  define pos where "pos = uint (con_pos (cons s))"
  have p: "0 \<le> pos" "pos < 1920" using assms by (simp_all add: pos_def)
  note b = next_pos_bounds [OF p, of c]
  define crt where "crt = (if c = 10 \<or> c = BACKSPACE then con_crt (cons s) else (con_crt (cons s))(nat pos := cga_cell True c))"
  have crt: "crt i = con_crt (cons s) i" if "1920 \<le> i" for i
    using that p by (auto simp: crt_def)
  show ?thesis
  proof (cases "next_pos pos c = 1920")
    case True
    have "nat pos < 1920" using p by simp
    with True show ?thesis
      by (simp add: cgaputc_def upd_cons_def Let_def pos_def [symmetric] crt_def [symmetric] scroll_up_def crt uint_pos)
  next
    case False
    have "nat pos < 1920" "nat (next_pos pos c) < 1920" using p b False by simp_all
    with b False show ?thesis
      by (auto simp: cgaputc_def upd_cons_def Let_def pos_def [symmetric] crt_def [symmetric] crt uint_pos)
  qed
qed

theorem cgaputc_legacy_on_screen_witness:
  "\<exists>t. cgaputc True 10 zero_kernel = Ok () t \<and> uint (con_pos (cons t)) < 24 * 80"
  using cgaputc_legacy_on_screen [of zero_kernel 10] by (auto simp: zero_kernel_def)

text \<open>C25. The build that the configuration selects does not scroll: from the last line of an 80 by 25
  screen a newline moves the cursor past it, and the blank that follows the cursor is written there.\<close>

theorem cgaputc_leaves_screen:
  assumes "24 * 80 \<le> uint (con_pos (cons s))" and "uint (con_pos (cons s)) < 25 * 80"
  shows "\<exists>t. cgaputc LEGACY_FB 10 s = Ok () t \<and> uint (con_pos (cons t)) = 25 * 80 \<and>
    con_crt (cons t) (25 * 80) = cga_cell LEGACY_FB 32"
proof -
  define pos where "pos = uint (con_pos (cons s))"
  have p: "1920 \<le> pos" "pos < 2000" using assms by (simp_all add: pos_def)
  then have "next_pos pos 10 = 2000" unfolding next_pos_def by simp presburger
  then show ?thesis
    by (simp add: cgaputc_def upd_cons_def Let_def LEGACY_FB_def pos_def [symmetric])
qed

theorem cgaputc_leaves_screen_witness:
  "\<exists>t. cgaputc LEGACY_FB 10 (zero_kernel\<lparr>cons := (cons zero_kernel)\<lparr>con_pos := 1930\<rparr>\<rparr>) = Ok () t \<and>
     uint (con_pos (cons t)) = 25 * 80"
  using cgaputc_leaves_screen [of "zero_kernel\<lparr>cons := (cons zero_kernel)\<lparr>con_pos := 1930\<rparr>\<rparr>"] by auto

end
