(* ===== verification/Device.thy ===== *)
theory Device
  imports Inode Console
begin

text \<open>
  The device table (kernel/device.c) and the drivers behind it: kernel/null.c, kernel/zero.c and the
  read and write sides of kernel/tty.c. A driver's read returns the value the C function returns
  and the bytes it stores at \<open>dst\<close>; a write gets the bytes at \<open>buf\<close>.
\<close>

section \<open>The table\<close>

definition DEV_TTY :: int where "DEV_TTY = 1"
definition DEV_NULL :: int where "DEV_NULL = 2"
definition DEV_ZERO :: int where "DEV_ZERO = 3"

text \<open>\<open>device_t\<close> has \<open>NDEV\<close> entries; the source indexes it without a test.\<close>

definition device_init :: "int \<Rightarrow> driver \<Rightarrow> driver \<Rightarrow> unit km" where
  "device_init i rd wr =
     (if i < 0 \<or> i \<ge> NDEV then faultK ''device_init''
      else modifyK (\<lambda>s. s\<lparr>devs := (devs s)(nat i := \<lparr>d_enabled = True, d_read = Some rd, d_write = Some wr\<rparr>)\<rparr>))"

text \<open>\<open>exit(0)\<close> does not return to the caller.\<close>

definition device_get :: "int \<Rightarrow> device km" where
  "device_get i =
     (if i < 0 \<or> i \<ge> NDEV then faultK ''device_get''
      else
        bindK (getsK (\<lambda>s. devs s (nat i))) (\<lambda>d.
        if \<not> d_enabled d then Exits else returnK d))"

definition dev_null_init :: "unit km" where
  "dev_null_init = device_init DEV_NULL Drv_null Drv_null"

definition dev_zero_init :: "unit km" where
  "dev_zero_init = device_init DEV_ZERO Drv_zero Drv_zero"

definition dev_tty_init :: "unit km" where
  "dev_tty_init = device_init DEV_TTY Drv_tty Drv_tty"

section \<open>The null and zero devices\<close>

definition nullread :: "nat \<Rightarrow> int \<Rightarrow> (int \<times> uchar list) km" where
  "nullread ip n = returnK (0, [])"

definition nullwrite :: "nat \<Rightarrow> uchar list \<Rightarrow> int \<Rightarrow> int km" where
  "nullwrite ip src n = returnK n"

definition zeroread :: "nat \<Rightarrow> int \<Rightarrow> (int \<times> uchar list) km" where
  "zeroread ip n = returnK (n, replicate (nat n) 0)"

definition zerowrite :: "nat \<Rightarrow> uchar list \<Rightarrow> int \<Rightarrow> int km" where
  "zerowrite ip src n = returnK n"

section \<open>The terminal\<close>

definition INPUT_BUF :: uint where "INPUT_BUF = 128"

text \<open>\<open>proc->killed\<close>.\<close>

definition cur_killed :: "bool km" where
  "cur_killed = bindK (getsK cur) (\<lambda>c.
     case c of None \<Rightarrow> faultK ''no process'' | Some p \<Rightarrow> getsK (\<lambda>s. p_killed (procs s p)))"

definition set_r :: "uint \<Rightarrow> unit km" where
  "set_r r = modifyK (\<lambda>s. s\<lparr>input := (input s)\<lparr>in_r := r\<rparr>\<rparr>)"

text \<open>The loop \<open>while(n > 0)\<close>. The result is whether the process was killed while it waited, and the bytes
  stored. 4 is \<open>C('D')\<close>.\<close>

primrec ttyread_loop :: "nat \<Rightarrow> uchar list \<Rightarrow> (bool \<times> uchar list) km" where
  "ttyread_loop 0 acc = returnK (False, acc)"
| "ttyread_loop (Suc n) acc =
     bindK (getsK input) (\<lambda>i.
     if in_r i = in_w i
     then bindK cur_killed (\<lambda>k. if k then returnK (True, acc) else Sleeps Chan_input)
     else
       let c = in_buf i (unat (in_r i mod INPUT_BUF)) in
       bindK (set_r (in_r i + 1)) (\<lambda>_.
       if c = 4 then returnK (False, acc)
       else if c = 10 then returnK (False, acc @ [c])
       else ttyread_loop n (acc @ [c])))"

definition ttyread :: "nat \<Rightarrow> int \<Rightarrow> (int \<times> uchar list) km" where
  "ttyread ip n =
     bindK (iunlock ip) (\<lambda>_.
     bindK (ttyread_loop (nat n) []) (\<lambda>(killed, bs).
     bindK (ilock ip) (\<lambda>_.
     returnK (if killed then - 1 else int (length bs), bs))))"

definition ttywrite :: "nat \<Rightarrow> uchar list \<Rightarrow> int \<Rightarrow> int km" where
  "ttywrite ip src n =
     bindK (iunlock ip) (\<lambda>_.
     bindK (consputs (take (nat n) src)) (\<lambda>_.
     bindK (ilock ip) (\<lambda>_.
     returnK n)))"

section \<open>Calls through the table\<close>

definition driver_read :: "driver \<Rightarrow> nat \<Rightarrow> int \<Rightarrow> (int \<times> uchar list) km" where
  "driver_read d = (case d of Drv_tty \<Rightarrow> ttyread | Drv_null \<Rightarrow> nullread | Drv_zero \<Rightarrow> zeroread)"

definition driver_write :: "driver \<Rightarrow> nat \<Rightarrow> uchar list \<Rightarrow> int \<Rightarrow> int km" where
  "driver_write d = (case d of Drv_tty \<Rightarrow> ttywrite | Drv_null \<Rightarrow> nullwrite | Drv_zero \<Rightarrow> zerowrite)"

end
