(* ===== verification/Pipe.thy ===== *)
theory Pipe
  imports Kalloc Device
begin

text \<open>
  Pipes (kernel/pipe.c): a ring buffer of \<open>PIPESIZE\<close> bytes between the counters \<open>nread\<close> and
  \<open>nwrite\<close>. A pipe is named by the address of its page. \<open>pipealloc\<close>, which also allocates the two
  open files, is in theory \<open>File\<close>.
\<close>

section \<open>Operations\<close>

definition PIPESIZE :: uint where "PIPESIZE = 512"

definition get_pipe :: "uint \<Rightarrow> pipe km" where
  "get_pipe p = getsK (\<lambda>s. pipes s p)"

definition upd_pipe :: "uint \<Rightarrow> (pipe \<Rightarrow> pipe) \<Rightarrow> unit km" where
  "upd_pipe p g = modifyK (\<lambda>s. s\<lparr>pipes := (pipes s)(p := g (pipes s p))\<rparr>)"

definition pipeclose :: "uint \<Rightarrow> bool \<Rightarrow> unit km" where
  "pipeclose p writable =
     bindK (if writable
            then bindK (upd_pipe p (\<lambda>i. i\<lparr>pi_writeopen := False\<rparr>)) (\<lambda>_. modifyK (wakeup (Chan_nread p)))
            else bindK (upd_pipe p (\<lambda>i. i\<lparr>pi_readopen := False\<rparr>)) (\<lambda>_. modifyK (wakeup (Chan_nwrite p)))) (\<lambda>_.
     bindK (get_pipe p) (\<lambda>i.
     whenK (\<not> pi_readopen i \<and> \<not> pi_writeopen i) (kfree p)))"

text \<open>\<open>p->data[p->nwrite++ % PIPESIZE] = c\<close> and \<open>p->data[p->nread++ % PIPESIZE]\<close>.\<close>

definition pipe_put :: "uchar \<Rightarrow> pipe \<Rightarrow> pipe" where
  "pipe_put c i = i\<lparr>pi_data := (pi_data i)(unat (pi_nwrite i mod PIPESIZE) := c), pi_nwrite := pi_nwrite i + 1\<rparr>"

definition pipe_front :: "pipe \<Rightarrow> uchar" where
  "pipe_front i = pi_data i (unat (pi_nread i mod PIPESIZE))"

definition pipe_drop :: "pipe \<Rightarrow> pipe" where
  "pipe_drop i = i\<lparr>pi_nread := pi_nread i + 1\<rparr>"

definition pipe_full :: "pipe \<Rightarrow> bool" where
  "pipe_full i \<longleftrightarrow> pi_nwrite i = pi_nread i + PIPESIZE"

definition pipe_empty :: "pipe \<Rightarrow> bool" where
  "pipe_empty i \<longleftrightarrow> pi_nread i = pi_nwrite i"

text \<open>The loop of \<open>pipewrite\<close> over the bytes still to be written; it returns whether all were written.\<close>

primrec pipewrite_loop :: "uint \<Rightarrow> uchar list \<Rightarrow> bool km" where
  "pipewrite_loop p [] = returnK True"
| "pipewrite_loop p (c # cs) =
     bindK (get_pipe p) (\<lambda>i.
     if pipe_full i
     then
       bindK cur_killed (\<lambda>killed.
       if \<not> pi_readopen i \<or> killed then returnK False
       else bindK (modifyK (wakeup (Chan_nread p))) (\<lambda>_. Sleeps (Chan_nwrite p)))
     else
       bindK (upd_pipe p (pipe_put c)) (\<lambda>_.
       pipewrite_loop p cs))"

definition pipewrite :: "uint \<Rightarrow> uchar list \<Rightarrow> int \<Rightarrow> int km" where
  "pipewrite p src n =
     bindK (pipewrite_loop p (take (nat n) src)) (\<lambda>ok.
     if \<not> ok then returnK (- 1)
     else
       bindK (modifyK (wakeup (Chan_nread p))) (\<lambda>_.
       returnK n))"

primrec piperead_loop :: "uint \<Rightarrow> nat \<Rightarrow> uchar list km" where
  "piperead_loop p 0 = returnK []"
| "piperead_loop p (Suc n) =
     bindK (get_pipe p) (\<lambda>i.
     if pipe_empty i then returnK []
     else
       bindK (upd_pipe p pipe_drop) (\<lambda>_.
       bindK (piperead_loop p n) (\<lambda>cs.
       returnK (pipe_front i # cs))))"

definition piperead :: "uint \<Rightarrow> int \<Rightarrow> (int \<times> uchar list) km" where
  "piperead p n =
     bindK (get_pipe p) (\<lambda>i.
     if pipe_empty i \<and> pi_writeopen i
     then bindK cur_killed (\<lambda>killed. if killed then returnK (- 1, []) else Sleeps (Chan_nread p))
     else
       bindK (piperead_loop p (nat n)) (\<lambda>cs.
       bindK (modifyK (wakeup (Chan_nwrite p))) (\<lambda>_.
       returnK (int (length cs), cs))))"

section \<open>The queue\<close>

text \<open>The bytes in the pipe, oldest first. At most \<open>PIPESIZE\<close> bytes are between the counters, which wrap
  around at \<open>2^32\<close>; the wrap does not disturb the ring because \<open>PIPESIZE\<close> divides \<open>2^32\<close>.\<close>

definition pipe_len :: "pipe \<Rightarrow> nat" where
  "pipe_len i = unat (pi_nwrite i - pi_nread i)"

definition pipe_ok :: "pipe \<Rightarrow> bool" where
  "pipe_ok i \<longleftrightarrow> pipe_len i \<le> 512"

definition pipe_cell :: "pipe \<Rightarrow> nat \<Rightarrow> uchar" where
  "pipe_cell i k = pi_data i (unat ((pi_nread i + of_nat k) mod PIPESIZE))"

definition pipe_queue :: "pipe \<Rightarrow> uchar list" where
  "pipe_queue i = map (pipe_cell i) [0..<pipe_len i]"

lemma length_pipe_queue [simp]: "length (pipe_queue i) = pipe_len i"
  by (simp add: pipe_queue_def)

lemma unat_mod_PIPESIZE: "unat (a mod PIPESIZE) = unat a mod 512"
  by (simp add: PIPESIZE_def unat_mod_distrib)

lemma wrap_mod: "unat (a + of_nat k :: uint) mod 512 = (unat a + k) mod 512"
proof -
  have "unat (a + of_nat k :: uint) = (unat a + k) mod 2 ^ 32"
    by (simp add: unat_word_ariths unat_of_nat mod_simps)
  moreover have "(512 :: nat) dvd 2 ^ 32" by simp
  ultimately show ?thesis by (simp add: mod_mod_cancel del: power_numeral)
qed

lemma pipe_cell_alt: "pipe_cell i k = pi_data i ((unat (pi_nread i) + k) mod 512)"
  by (simp add: pipe_cell_def unat_mod_PIPESIZE wrap_mod)

lemma pipe_nwrite: "pi_nwrite i = pi_nread i + of_nat (pipe_len i)"
  by (simp add: pipe_len_def)

lemma pipe_full_iff: "pipe_full i \<longleftrightarrow> pipe_len i = 512"
proof -
  have "unat (pi_nwrite i - pi_nread i) = 512 \<longleftrightarrow> pi_nwrite i - pi_nread i = 512"
    by (simp add: word_unat_eq_iff)
  then show ?thesis by (simp add: pipe_full_def pipe_len_def PIPESIZE_def diff_eq_eq add.commute)
qed

lemma pipe_empty_iff: "pipe_empty i \<longleftrightarrow> pipe_len i = 0"
  by (auto simp: pipe_empty_def pipe_len_def unat_eq_zero)

section \<open>A bounded queue\<close>

locale bounded_queue =
  fixes put :: "'a \<Rightarrow> 'q \<Rightarrow> 'q" and front :: "'q \<Rightarrow> 'a" and drop_front :: "'q \<Rightarrow> 'q"
    and is_full :: "'q \<Rightarrow> bool" and is_empty :: "'q \<Rightarrow> bool"
    and ok :: "'q \<Rightarrow> bool" and queue :: "'q \<Rightarrow> 'a list" and cap :: nat
  assumes ok_put: "ok q \<Longrightarrow> \<not> is_full q \<Longrightarrow> ok (put c q)"
    and ok_drop: "ok q \<Longrightarrow> \<not> is_empty q \<Longrightarrow> ok (drop_front q)"
    and queue_put: "ok q \<Longrightarrow> \<not> is_full q \<Longrightarrow> queue (put c q) = queue q @ [c]"
    and queue_drop: "ok q \<Longrightarrow> \<not> is_empty q \<Longrightarrow> queue q = front q # queue (drop_front q)"
    and full_iff: "ok q \<Longrightarrow> is_full q \<longleftrightarrow> length (queue q) = cap"
    and empty_iff: "ok q \<Longrightarrow> is_empty q \<longleftrightarrow> queue q = []"
    and within: "ok q \<Longrightarrow> length (queue q) \<le> cap"
begin

text \<open>The states two processes can reach that put and take single elements in any order, with all that
  was put and all that was taken so far.\<close>

inductive run :: "'q \<Rightarrow> 'q \<Rightarrow> 'a list \<Rightarrow> 'a list \<Rightarrow> bool" for q0 where
  start: "run q0 q0 [] []"
| put: "run q0 q ps ts \<Longrightarrow> \<not> is_full q \<Longrightarrow> run q0 (put c q) (ps @ [c]) ts"
| take: "run q0 q ps ts \<Longrightarrow> \<not> is_empty q \<Longrightarrow> run q0 (drop_front q) ps (ts @ [front q])"

lemma run_fifo: "run q0 q ps ts \<Longrightarrow> ok q0 \<Longrightarrow> ok q \<and> queue q0 @ ps = ts @ queue q"
proof (induction rule: run.induct)
  case (put q ps ts c)
  then show ?case by (simp add: ok_put queue_put)
next
  case (take q ps ts)
  then show ?case using queue_drop [of q] by (simp add: ok_drop)
qed simp

text \<open>All elements of a list put, as long as there is room.\<close>

lemma put_all:
  "ok q \<Longrightarrow> length (queue q) + length cs \<le> cap \<Longrightarrow>
   ok (fold put cs q) \<and> queue (fold put cs q) = queue q @ cs"
proof (induction cs arbitrary: q)
  case (Cons c cs)
  then have "\<not> is_full q" by (simp add: full_iff)
  with Cons show ?case by (simp add: ok_put queue_put)
qed simp

lemma drop_n:
  "ok q \<Longrightarrow> n \<le> length (queue q) \<Longrightarrow>
   ok ((drop_front ^^ n) q) \<and> queue ((drop_front ^^ n) q) = drop n (queue q)"
proof (induction n arbitrary: q)
  case (Suc n)
  then have e: "\<not> is_empty q" by (auto simp: empty_iff)
  with Suc.prems have d: "queue q = front q # queue (drop_front q)" by (simp add: queue_drop)
  have "n \<le> length (queue (drop_front q))" using Suc.prems(2) by (subst (asm) d) simp
  with Suc.IH [of "drop_front q"] Suc.prems(1) e have
    "ok ((drop_front ^^ n) (drop_front q)) \<and> queue ((drop_front ^^ n) (drop_front q)) = drop n (queue (drop_front q))"
    by (simp add: ok_drop)
  moreover have "drop (Suc n) (queue q) = drop n (queue (drop_front q))" by (subst d) simp
  ultimately show ?case by (simp add: funpow_swap1)
qed simp

end

lemma pipe_len_put: "pipe_len i < 512 \<Longrightarrow> pipe_len (pipe_put c i) = pipe_len i + 1"
proof -
  assume a: "pipe_len i < 512"
  have "pi_nwrite (pipe_put c i) - pi_nread (pipe_put c i) = (pi_nwrite i - pi_nread i) + 1"
    by (simp add: pipe_put_def)
  with a show ?thesis unfolding pipe_len_def by (simp add: unat_word_ariths)
qed

lemma pipe_len_drop: "0 < pipe_len i \<Longrightarrow> pipe_len (pipe_drop i) = pipe_len i - 1"
proof -
  assume a: "0 < pipe_len i"
  have "pi_nwrite (pipe_drop i) - pi_nread (pipe_drop i) = (pi_nwrite i - pi_nread i) - 1"
    by (simp add: pipe_drop_def)
  moreover have "pi_nwrite i - pi_nread i \<noteq> 0" using a unfolding pipe_len_def by (metis less_irrefl unat_0)
  ultimately show ?thesis unfolding pipe_len_def by (simp add: unat_minus_one)
qed

lemma mod_add_inj: "(a + k) mod 512 = (a + j) mod 512 \<Longrightarrow> k < 512 \<Longrightarrow> j < (512 :: nat) \<Longrightarrow> k = j"
proof -
  assume e: "(a + k) mod 512 = (a + j) mod 512" and l: "k < 512" "j < 512"
  have "int k mod 512 = (int ((a + k) mod 512) - int a) mod 512" by (simp add: zmod_int mod_simps)
  also have "\<dots> = int j mod 512" unfolding e by (simp add: zmod_int mod_simps)
  finally show ?thesis using l by simp
qed

lemma pipe_queue_put:
  assumes "pipe_len i < 512"
  shows "pipe_queue (pipe_put c i) = pipe_queue i @ [c]"
proof -
  have w: "unat (pi_nwrite i mod PIPESIZE) = (unat (pi_nread i) + pipe_len i) mod 512"
    by (subst pipe_nwrite) (simp add: unat_mod_PIPESIZE wrap_mod)
  have "pipe_cell (pipe_put c i) k = pipe_cell i k" if "k < pipe_len i" for k
    using mod_add_inj [of "unat (pi_nread i)" k "pipe_len i"] that assms by (auto simp: pipe_cell_alt pipe_put_def w)
  moreover have "pipe_cell (pipe_put c i) (pipe_len i) = c" by (simp add: pipe_cell_alt pipe_put_def w)
  ultimately show ?thesis using assms by (simp add: pipe_queue_def pipe_len_put)
qed

lemma pipe_queue_drop:
  assumes "0 < pipe_len i"
  shows "pipe_queue i = pipe_front i # pipe_queue (pipe_drop i)"
proof -
  have "pipe_cell i (Suc k) = pipe_cell (pipe_drop i) k" for k
    by (simp add: pipe_cell_def pipe_drop_def ac_simps)
  moreover have "pipe_cell i 0 = pipe_front i" by (simp add: pipe_cell_def pipe_front_def)
  moreover have "[0..<pipe_len i] = 0 # map Suc [0..<pipe_len (pipe_drop i)]"
    using assms by (simp add: pipe_len_drop map_Suc_upt upt_conv_Cons)
  ultimately show ?thesis unfolding pipe_queue_def by simp
qed

interpretation pq: bounded_queue pipe_put pipe_front pipe_drop pipe_full pipe_empty pipe_ok pipe_queue 512
proof (unfold_locales, goal_cases)
  case (3 q c)
  then show ?case by (intro pipe_queue_put) (simp add: pipe_ok_def pipe_full_iff)
next
  case (4 q)
  then show ?case by (intro pipe_queue_drop) (simp add: pipe_empty_iff)
qed (auto simp: pipe_ok_def pipe_full_iff pipe_empty_iff pipe_len_put pipe_len_drop simp flip: length_0_conv)

section \<open>Reading and writing\<close>

definition pipe_wr :: "uint \<Rightarrow> uchar list \<Rightarrow> kernel \<Rightarrow> kernel" where
  "pipe_wr p cs s = s\<lparr>pipes := (pipes s)(p := fold pipe_put cs (pipes s p))\<rparr>"

definition pipe_rd :: "uint \<Rightarrow> nat \<Rightarrow> kernel \<Rightarrow> kernel" where
  "pipe_rd p n s = s\<lparr>pipes := (pipes s)(p := (pipe_drop ^^ n) (pipes s p))\<rparr>"

lemma pipe_wr_simps: "pipe_wr p [] s = s" "pipe_wr p (c # cs) s = pipe_wr p cs (s\<lparr>pipes := (pipes s)(p := pipe_put c (pipes s p))\<rparr>)"
  by (simp_all add: pipe_wr_def)

lemma pipe_rd_simps: "pipe_rd p 0 s = s" "pipe_rd p (Suc n) s = pipe_rd p n (s\<lparr>pipes := (pipes s)(p := pipe_drop (pipes s p))\<rparr>)"
  by (simp_all add: pipe_rd_def funpow_swap1)

lemma fold_put_fields: "pi_readopen (fold pipe_put cs i) = pi_readopen i" "pi_writeopen (fold pipe_put cs i) = pi_writeopen i"
  by (induction cs arbitrary: i) (simp_all add: pipe_put_def)

lemma pipewrite_loop_append:
  "pipe_ok (pipes s p) \<Longrightarrow> pipe_len (pipes s p) + length cs \<le> 512 \<Longrightarrow>
   pipewrite_loop p (cs @ ds) s = pipewrite_loop p ds (pipe_wr p cs s)"
proof (induction cs arbitrary: s)
  case (Cons c cs)
  then have "pipe_len (pipes s p) < 512" "\<not> pipe_full (pipes s p)" by (simp_all add: pipe_full_iff)
  with Cons show ?case
    by (simp add: get_pipe_def upd_pipe_def pipe_wr_simps pipe_ok_def pipe_len_put)
qed (simp add: pipe_wr_simps)

lemma pipe_wr_queue:
  assumes "pipe_ok (pipes s p)" and "pipe_len (pipes s p) + length cs \<le> 512"
  shows "pipe_ok (pipes (pipe_wr p cs s) p)" "pipe_queue (pipes (pipe_wr p cs s) p) = pipe_queue (pipes s p) @ cs"
  using pq.put_all [OF assms(1), of cs] assms(2) by (simp_all add: pipe_wr_def)

lemma piperead_loop_eq:
  "pipe_ok (pipes s p) \<Longrightarrow>
   piperead_loop p n s = Ok (take n (pipe_queue (pipes s p))) (pipe_rd p (min n (pipe_len (pipes s p))) s)"
proof (induction n arbitrary: s)
  case (Suc n)
  let ?i = "pipes s p"
  show ?case
  proof (cases "pipe_len ?i = 0")
    case True
    then have "pipe_queue ?i = []" by (metis length_pipe_queue length_0_conv)
    with True show ?thesis by (simp add: get_pipe_def pipe_empty_iff pipe_rd_simps)
  next
    case False
    let ?s = "s\<lparr>pipes := (pipes s)(p := pipe_drop ?i)\<rparr>"
    have "pipe_ok (pipes ?s p)" using Suc.prems False by (simp add: pipe_ok_def pipe_len_drop)
    from Suc.IH [OF this] have "piperead_loop p n ?s = Ok (take n (pipe_queue (pipe_drop ?i))) (pipe_rd p (min n (pipe_len ?i - 1)) ?s)"
      using False by (simp add: pipe_len_drop)
    moreover have "min (Suc n) (pipe_len ?i) = Suc (min n (pipe_len ?i - 1))" using False by simp
    ultimately show ?thesis using False pipe_queue_drop [of ?i]
      by (simp add: get_pipe_def upd_pipe_def pipe_empty_iff pipe_rd_simps)
  qed
qed (simp add: pipe_rd_simps)

section \<open>Properties\<close>

text \<open>C6. A pipe is a first-in first-out queue of bytes under any interleaving of a writer and a reader
  that put and take one byte at a time, across the wrap-around of the counters: what was put is what
  was taken followed by what is in the buffer, at most \<open>PIPESIZE\<close> bytes.\<close>

theorem pipe_fifo:
  assumes "pq.run i0 i ps ts" and "pi_nread i0 = pi_nwrite i0"
  shows "ps = ts @ pipe_queue i \<and> length (pipe_queue i) \<le> unat PIPESIZE"
proof -
  have "pipe_ok i0" "pipe_queue i0 = []" using assms(2) by (simp_all add: pipe_ok_def pipe_queue_def pipe_len_def)
  with pq.run_fifo [OF assms(1)] pq.within [of i] show ?thesis by (simp add: PIPESIZE_def)
qed

definition late_pipe :: pipe where
  "late_pipe = zero_pipe\<lparr>pi_nread := - 1, pi_nwrite := - 1\<rparr>"

theorem pipe_fifo_witness:
  "pq.run late_pipe (pipe_drop (pipe_put 66 (pipe_put 65 late_pipe))) [65, 66] [65] \<and>
   [65, 66] = [65] @ pipe_queue (pipe_drop (pipe_put 66 (pipe_put 65 late_pipe)))"
proof -
  let ?i = "pipe_put 66 (pipe_put 65 late_pipe)"
  have r1: "pq.run late_pipe (pipe_put 65 late_pipe) ([] @ [65]) []"
    by (rule pq.run.put, rule pq.run.start) (simp add: pipe_full_def late_pipe_def zero_pipe_def PIPESIZE_def)
  have r2: "pq.run late_pipe ?i (([] @ [65]) @ [66]) []"
    by (rule pq.run.put, rule r1) (simp add: pipe_full_def pipe_put_def late_pipe_def zero_pipe_def PIPESIZE_def)
  have "pq.run late_pipe (pipe_drop ?i) (([] @ [65]) @ [66]) ([] @ [pipe_front ?i])"
    by (rule pq.run.take, rule r2) (simp add: pipe_empty_def pipe_put_def late_pipe_def zero_pipe_def)
  moreover have "pipe_front ?i = 65"
    by (simp add: pipe_front_def pipe_put_def late_pipe_def PIPESIZE_def)
  ultimately have r: "pq.run late_pipe (pipe_drop ?i) [65, 66] [65]" by simp
  with pipe_fifo [OF r] show ?thesis by (simp add: late_pipe_def)
qed

text \<open>C7. \<open>pipewrite\<close> of bytes for which there is room appends them to the queue and wakes the readers.
  With less room it fills the pipe and then waits for a reader, and it fails instead when the read end
  is closed or the process has been killed.\<close>

theorem pipewrite_spec:
  assumes "pipe_ok (pipes s p)" and "cur s = Some q" and "n = int (length src)"
  shows "let i = pipes s p; room = 512 - length (pipe_queue i) in
    if length src \<le> room
    then \<exists>t. pipewrite p src n s = Ok n (wakeup (Chan_nread p) t) \<and> t = pipe_wr p src s \<and>
      pipe_queue (pipes t p) = pipe_queue i @ src
    else \<exists>t. t = pipe_wr p (take room src) s \<and> pipe_queue (pipes t p) = pipe_queue i @ take room src \<and>
      pipewrite p src n s =
        (if pi_readopen i \<and> \<not> p_killed (procs s q)
         then Sleeps (Chan_nwrite p) (wakeup (Chan_nread p) t) else Ok (- 1) t)"
proof -
  let ?i = "pipes s p"
  let ?room = "512 - pipe_len ?i"
  have len: "pipe_len ?i \<le> 512" using assms(1) by (simp add: pipe_ok_def)
  show ?thesis
  proof (cases "length src \<le> ?room")
    case True
    then have l: "pipe_len ?i + length src \<le> 512" using len by simp
    show ?thesis
      using True pipewrite_loop_append [OF assms(1) l, of "[]"] pipe_wr_queue [OF assms(1) l] assms(3)
      by (simp add: pipewrite_def Let_def)
  next
    case False
    define cs where "cs = take ?room src"
    obtain c ds where src: "src = cs @ c # ds"
      using False by (metis cs_def append_take_drop_id drop_eq_Nil list.exhaust)
    have l: "pipe_len ?i + length cs \<le> 512" and e: "pipe_len ?i + length cs = 512"
      using False len by (simp_all add: cs_def)
    let ?t = "pipe_wr p cs s"
    have q: "pipe_queue (pipes ?t p) = pipe_queue ?i @ cs" using pipe_wr_queue [OF assms(1) l] by simp
    then have "pipe_len (pipes ?t p) = 512" by (metis e length_append length_pipe_queue)
    then have f: "pipe_full (pipes ?t p)" by (simp add: pipe_full_iff)
    have fields: "pi_readopen (pipes ?t p) = pi_readopen ?i" "cur ?t = cur s" "procs ?t = procs s"
      by (simp_all add: pipe_wr_def fold_put_fields)
    have "pipewrite_loop p src s = (if pi_readopen ?i \<and> \<not> p_killed (procs s q)
        then Sleeps (Chan_nwrite p) (wakeup (Chan_nread p) ?t) else Ok False ?t)"
      using pipewrite_loop_append [OF assms(1) l, of "c # ds"] f fields assms(2)
      by (simp add: src get_pipe_def cur_killed_def)
    then show ?thesis using False q assms(3)
      by (simp add: pipewrite_def Let_def cs_def [symmetric] bindK_def)
  qed
qed

theorem pipewrite_spec_witness:
  "\<exists>t. pipewrite 0 [65, 66] 2 (zero_kernel\<lparr>cur := Some 0\<rparr>) = Ok 2 (wakeup (Chan_nread 0) t) \<and>
     pipe_queue (pipes t 0) = [65, 66]"
proof -
  have "pipes zero_kernel 0 = zero_pipe" "pipe_ok zero_pipe" "pipe_queue zero_pipe = []" "pipe_len zero_pipe = 0"
    by (simp_all add: zero_kernel_def pipe_ok_def pipe_queue_def pipe_len_def zero_pipe_def)
  then show ?thesis using pipewrite_spec [of "zero_kernel\<lparr>cur := Some 0\<rparr>" 0 0 2 "[65, 66]"] by (auto simp: Let_def)
qed

text \<open>C8. \<open>piperead\<close> returns the oldest bytes of the queue, as many as there are but at most \<open>n\<close>, removes
  them and wakes the writers; on an empty pipe it waits while the write end is open and returns no
  bytes once it is closed.\<close>

theorem piperead_spec:
  assumes "pipe_ok (pipes s p)" and "cur s = Some q"
  shows "let i = pipes s p; cs = take (nat n) (pipe_queue i) in
    if pipe_queue i = [] \<and> pi_writeopen i
    then piperead p n s = (if p_killed (procs s q) then Ok (- 1, []) s else Sleeps (Chan_nread p) s)
    else \<exists>t. piperead p n s = Ok (int (length cs), cs) (wakeup (Chan_nwrite p) t) \<and>
      t = pipe_rd p (length cs) s \<and> pipe_ok (pipes t p) \<and> pipe_queue i = cs @ pipe_queue (pipes t p)"
proof -
  let ?i = "pipes s p"
  have e: "pipe_empty ?i \<longleftrightarrow> pipe_queue ?i = []" using pq.empty_iff [OF assms(1)] .
  show ?thesis
  proof (cases "pipe_queue ?i = [] \<and> pi_writeopen ?i")
    case True
    then show ?thesis using e assms(2) by (simp add: piperead_def get_pipe_def cur_killed_def Let_def)
  next
    case False
    let ?cs = "take (nat n) (pipe_queue ?i)"
    have l: "length ?cs \<le> length (pipe_queue ?i)" by simp
    note d = pq.drop_n [OF assms(1) l]
    have q: "pipe_queue ?i = ?cs @ drop (length ?cs) (pipe_queue ?i)"
      using append_take_drop_id [of "nat n" "pipe_queue ?i"] by (simp add: min_def)
    have "\<not> (pipe_empty ?i \<and> pi_writeopen ?i)" using False e by simp
    then have "piperead p n s = Ok (int (length ?cs), ?cs) (wakeup (Chan_nwrite p) (pipe_rd p (length ?cs) s))"
      using piperead_loop_eq [OF assms(1), of "nat n"] by (auto simp: piperead_def get_pipe_def min.commute)
    moreover have "pipes (pipe_rd p (length ?cs) s) p = (pipe_drop ^^ length ?cs) ?i" by (simp add: pipe_rd_def)
    ultimately show ?thesis unfolding Let_def if_not_P [OF False] using d q by metis
  qed
qed

theorem piperead_spec_witness:
  "\<exists>t. piperead 0 1 (zero_kernel\<lparr>cur := Some 0, pipes := (\<lambda>_. pipe_put 66 (pipe_put 65 zero_pipe))\<rparr>) =
     Ok (1, [65]) (wakeup (Chan_nwrite 0) t) \<and> pipe_queue (pipes t 0) = [66]"
proof -
  let ?i = "pipe_put 66 (pipe_put 65 zero_pipe)"
  have "pipe_len ?i = 2" by (simp add: pipe_len_def pipe_put_def zero_pipe_def)
  moreover from this have "pipe_queue ?i = [65, 66]"
    by (simp add: pipe_queue_def pipe_cell_alt upt_rec pipe_put_def zero_pipe_def PIPESIZE_def)
  ultimately show ?thesis
    using piperead_spec [of "zero_kernel\<lparr>cur := Some 0, pipes := (\<lambda>_. ?i)\<rparr>" 0 0 1]
    by (auto simp: pipe_ok_def Let_def)
qed

end
