(* ===== verification/Fs.thy ===== *)
theory Fs
  imports Device Cstring
begin

text \<open>
  Files, directories and paths (the rest of kernel/fs.c). \<open>readi\<close> returns the value of the C
  function and the bytes it stores at \<open>dst\<close>; \<open>writei\<close> gets the bytes at \<open>src\<close>, whose number is \<open>n\<close>.
  A name or a path is the list of the bytes before its NUL.
\<close>

section \<open>File contents\<close>

definition is_dev_major :: "ushort \<Rightarrow> bool" where
  "is_dev_major m \<longleftrightarrow> \<not> (sint m < 0 \<or> sint m \<ge> NDEV)"

text \<open>\<open>for(tot=0; tot<n; tot+=m, off+=m, dst+=m)\<close>, with \<open>rem = n - tot\<close>. The tests before the loop keep
  \<open>off + n\<close> from wrapping around, so the offset is a natural number here.\<close>

function readi_loop :: "nat \<Rightarrow> nat \<Rightarrow> nat \<Rightarrow> uchar list km" where
  "readi_loop ip off rem =
     (if rem = 0 then returnK []
      else
        let m = min rem (BSIZE - off mod BSIZE) in
        bindK (bmap ip (off div BSIZE)) (\<lambda>b.
        bindK (get_inode ip) (\<lambda>i.
        bindK (bread (i_dev i) (unat b)) (\<lambda>bp.
        bindK (bdata bp) (\<lambda>d.
        bindK (brelse bp) (\<lambda>_.
        bindK (readi_loop ip (off + m) (rem - m)) (\<lambda>bs.
        returnK (map d [off mod BSIZE..<off mod BSIZE + m] @ bs))))))))"
  by auto

termination
  by (relation "measure (\<lambda>(_, _, rem). rem)") (auto simp: BSIZE_def)

declare readi_loop.simps [simp del]

definition readi :: "nat \<Rightarrow> uint \<Rightarrow> uint \<Rightarrow> (int \<times> uchar list) km" where
  "readi ip off n =
     bindK (get_inode ip) (\<lambda>i.
     if i_type i = T_DEV then
       if \<not> is_dev_major (i_major i) then returnK (- 1, [])
       else
         bindK (device_get (sint (i_major i))) (\<lambda>d.
         case d_read d of
           None \<Rightarrow> returnK (- 1, [])
         | Some drv \<Rightarrow> driver_read drv ip (sint n))
     else if off > i_size i \<or> off + n < off then returnK (- 1, [])
     else
       let n = (if off + n > i_size i then i_size i - off else n) in
       bindK (readi_loop ip (unat off) (unat n)) (\<lambda>bs.
       returnK (sint n, bs)))"

text \<open>The block with \<open>m\<close> bytes replaced, \<open>memmove(bp->data + off%BSIZE, src, m)\<close>.\<close>

definition splice :: "blk \<Rightarrow> nat \<Rightarrow> uchar list \<Rightarrow> blk" where
  "splice d k bs = (\<lambda>i. if k \<le> i \<and> i < k + length bs then bs ! (i - k) else d i)"

function writei_loop :: "nat \<Rightarrow> nat \<Rightarrow> uchar list \<Rightarrow> unit km" where
  "writei_loop ip off src =
     (if src = [] then returnK ()
      else
        let m = min (length src) (BSIZE - off mod BSIZE) in
        bindK (bmap ip (off div BSIZE)) (\<lambda>b.
        bindK (get_inode ip) (\<lambda>i.
        bindK (bread (i_dev i) (unat b)) (\<lambda>bp.
        bindK (bdata bp) (\<lambda>d.
        bindK (set_bdata bp (splice d (off mod BSIZE) (take m src))) (\<lambda>_.
        bindK (log_write bp) (\<lambda>_.
        bindK (brelse bp) (\<lambda>_.
        writei_loop ip (off + m) (drop m src)))))))))"
  by auto

termination
  by (relation "measure (\<lambda>(_, _, src). length src)") (auto simp: BSIZE_def)

declare writei_loop.simps [simp del]

definition writei :: "nat \<Rightarrow> uchar list \<Rightarrow> uint \<Rightarrow> int km" where
  "writei ip src off =
     (let n = word_of_nat (length src) in
      bindK (get_inode ip) (\<lambda>i.
      if i_type i = T_DEV then
        if \<not> is_dev_major (i_major i) then returnK (- 1)
        else
          bindK (device_get (sint (i_major i))) (\<lambda>d.
          case d_write d of
            None \<Rightarrow> returnK (- 1)
          | Some drv \<Rightarrow> driver_write drv ip src (sint n))
      else if off > i_size i \<or> off + n < off then returnK (- 1)
      else if off + n > word_of_nat (MAXFILE * BSIZE) then returnK (- 1)
      else
        bindK (writei_loop ip (unat off) src) (\<lambda>_.
        bindK (get_inode ip) (\<lambda>i.
        bindK (whenK (n > 0 \<and> off + n > i_size i)
          (bindK (upd_inode ip (\<lambda>i. i\<lparr>i_size := off + n\<rparr>)) (\<lambda>_.
           iupdate ip))) (\<lambda>_.
        returnK (sint n))))))"

section \<open>Directories\<close>

text \<open>\<open>struct dirent\<close> (fs.h): the inode number in two bytes, the name in \<open>DIRSIZ\<close>.\<close>

record dirent =
  de_inum :: ushort
  de_name :: "uchar list"

definition dirent_of :: "uchar list \<Rightarrow> dirent" where
  "dirent_of bs = \<lparr>de_inum = ucast (bs ! 0) OR push_bit 8 (ucast (bs ! 1)), de_name = take DIRSIZ (drop 2 bs)\<rparr>"

definition dirent_bytes :: "dirent \<Rightarrow> uchar list" where
  "dirent_bytes de = [ucast (de_inum de), ucast (drop_bit 8 (de_inum de))] @ de_name de"

text \<open>\<open>strncmp\<close> and \<open>strncpy\<close> (string.c) on the bytes of their arguments: a NUL follows the last byte of a
  list.\<close>

definition first_byte :: "uchar list \<Rightarrow> uchar" where
  "first_byte s = (case s of [] \<Rightarrow> 0 | c # _ \<Rightarrow> c)"

primrec strncmp_list :: "nat \<Rightarrow> uchar list \<Rightarrow> uchar list \<Rightarrow> int" where
  "strncmp_list 0 p q = 0"
| "strncmp_list (Suc n) p q =
     (if first_byte p \<noteq> 0 \<and> first_byte p = first_byte q then strncmp_list n (tl p) (tl q)
      else uint (first_byte p) - uint (first_byte q))"

definition strncpy_list :: "uchar list \<Rightarrow> nat \<Rightarrow> uchar list" where
  "strncpy_list t n = take n (cstring t @ replicate n 0)"

definition namecmp :: "uchar list \<Rightarrow> uchar list \<Rightarrow> int" where
  "namecmp s t = strncmp_list DIRSIZ s t"

text \<open>\<open>for(off = 0; off < dp->size; off += sizeof(de))\<close>: the list holds the offsets. The result is the
  inode and the value for \<open>*poff\<close>.\<close>

definition dir_offsets :: "uint \<Rightarrow> nat list" where
  "dir_offsets sz = map (\<lambda>k. 16 * k) [0..<(unat sz + 15) div 16]"

primrec dirlookup_loop :: "nat \<Rightarrow> uchar list \<Rightarrow> nat list \<Rightarrow> (nat \<times> uint) option km" where
  "dirlookup_loop dp name [] = returnK None"
| "dirlookup_loop dp name (off # offs) =
     bindK (readi dp (word_of_nat off) 16) (\<lambda>(r, bs).
     if r \<noteq> 16 then panicK ''dirlink read''
     else
       let de = dirent_of bs in
       if de_inum de = 0 then dirlookup_loop dp name offs
       else if namecmp name (de_name de) = 0
       then
         bindK (get_inode dp) (\<lambda>d.
         bindK (iget (i_dev d) (unat (de_inum de))) (\<lambda>ip.
         returnK (Some (ip, word_of_nat off))))
       else dirlookup_loop dp name offs)"

definition dirlookup :: "nat \<Rightarrow> uchar list \<Rightarrow> (nat \<times> uint) option km" where
  "dirlookup dp name =
     bindK (get_inode dp) (\<lambda>d.
     if i_type d \<noteq> T_DIR then panicK ''dirlookup not DIR''
     else dirlookup_loop dp name (dir_offsets (i_size d)))"

text \<open>The search of \<open>dirlink\<close> for an empty entry; it ends at the first offset that is not below the
  size when there is none.\<close>

primrec dirlink_loop :: "nat \<Rightarrow> nat list \<Rightarrow> nat \<Rightarrow> nat km" where
  "dirlink_loop dp [] end_off = returnK end_off"
| "dirlink_loop dp (off # offs) end_off =
     bindK (readi dp (word_of_nat off) 16) (\<lambda>(r, bs).
     if r \<noteq> 16 then panicK ''dirlink read''
     else if de_inum (dirent_of bs) = 0 then returnK off
     else dirlink_loop dp offs end_off)"

definition dirlink :: "nat \<Rightarrow> uchar list \<Rightarrow> uint \<Rightarrow> int km" where
  "dirlink dp name inum =
     bindK (dirlookup dp name) (\<lambda>found.
     case found of
       Some (ip, _) \<Rightarrow> bindK (iput ip) (\<lambda>_. returnK (- 1))
     | None \<Rightarrow>
         bindK (get_inode dp) (\<lambda>d.
         bindK (dirlink_loop dp (dir_offsets (i_size d)) (16 * ((unat (i_size d) + 15) div 16))) (\<lambda>off.
         bindK (writei dp (dirent_bytes \<lparr>de_inum = ucast inum, de_name = strncpy_list name DIRSIZ\<rparr>)
                  (word_of_nat off)) (\<lambda>r.
         if r \<noteq> 16 then panicK ''dirlink'' else returnK 0))))"

section \<open>Paths\<close>

text \<open>The next path element and the path after it. 0x2F is the slash.\<close>

definition skipelem :: "uchar list \<Rightarrow> (uchar list \<times> uchar list) option" where
  "skipelem path =
     (let s = dropWhile (\<lambda>c. c = 0x2F) path in
      if s = [] then None
      else
        let elem = takeWhile (\<lambda>c. c \<noteq> 0x2F) s;
            name = (if length elem \<ge> DIRSIZ then take DIRSIZ elem else elem)
        in Some (name, dropWhile (\<lambda>c. c = 0x2F) (dropWhile (\<lambda>c. c \<noteq> 0x2F) s)))"

lemma skipelem_shorter: "skipelem path = Some (name, path') \<Longrightarrow> length path' < length path"
proof -
  assume a: "skipelem path = Some (name, path')"
  define s where "s = dropWhile (\<lambda>c. c = 0x2F) path"
  from a have s: "s \<noteq> []" "path' = dropWhile (\<lambda>c. c = 0x2F) (dropWhile (\<lambda>c. c \<noteq> 0x2F) s)"
    by (auto simp: skipelem_def s_def Let_def split: if_splits)
  have "hd s \<noteq> 0x2F" using s(1) hd_dropWhile [of "\<lambda>c. c = 0x2F" path] by (auto simp: s_def)
  with s(1) have "length (dropWhile (\<lambda>c. c \<noteq> 0x2F) s) < length s"
    by (cases s) (auto simp: less_Suc_eq_le length_dropWhile_le)
  moreover have "length path' \<le> length (dropWhile (\<lambda>c. c \<noteq> 0x2F) s)" using s(2) by (simp add: length_dropWhile_le)
  moreover have "length s \<le> length path" by (simp add: s_def length_dropWhile_le)
  ultimately show ?thesis by simp
qed

text \<open>The loop of \<open>namex\<close> from the inode \<open>ip\<close> on. The name is what the last call of \<open>skipelem\<close> that
  found an element left in the caller's buffer.\<close>

function namex_loop :: "nat \<Rightarrow> uchar list \<Rightarrow> bool \<Rightarrow> uchar list \<Rightarrow> (nat option \<times> uchar list) km" where
  "namex_loop ip path parent name =
     (case skipelem path of
        None \<Rightarrow>
          if parent then bindK (iput ip) (\<lambda>_. returnK (None, name)) else returnK (Some ip, name)
      | Some (name, path) \<Rightarrow>
          bindK (ilock ip) (\<lambda>_.
          bindK (get_inode ip) (\<lambda>i.
          if i_type i \<noteq> T_DIR then bindK (iunlockput ip) (\<lambda>_. returnK (None, name))
          else if parent \<and> path = [] then bindK (iunlock ip) (\<lambda>_. returnK (Some ip, name))
          else
            bindK (dirlookup ip name) (\<lambda>next.
            bindK (iunlockput ip) (\<lambda>_.
            case next of
              None \<Rightarrow> returnK (None, name)
            | Some (ip, _) \<Rightarrow> namex_loop ip path parent name)))))"
  by auto

termination
  by (relation "measure (\<lambda>(_, path, _, _). length path)") (auto dest: skipelem_shorter)

declare namex_loop.simps [simp del]

text \<open>\<open>proc->cwd\<close>; \<open>idup\<close> of a null pointer is an access outside the inode table.\<close>

definition cur_cwd :: "nat km" where
  "cur_cwd = bindK (getsK cur) (\<lambda>c.
     case c of
       None \<Rightarrow> faultK ''no process''
     | Some p \<Rightarrow> bindK (getsK (\<lambda>s. p_cwd (procs s p))) (\<lambda>d.
         case d of None \<Rightarrow> faultK ''no cwd'' | Some ip \<Rightarrow> returnK ip))"

definition namex :: "uchar list \<Rightarrow> bool \<Rightarrow> (nat option \<times> uchar list) km" where
  "namex path parent =
     bindK (if first_byte path = 0x2F then iget ROOTDEV ROOTINO else bindK cur_cwd idup) (\<lambda>ip.
     namex_loop ip path parent [])"

definition namei :: "uchar list \<Rightarrow> nat option km" where
  "namei path = bindK (namex path False) (\<lambda>(ip, _). returnK ip)"

definition nameiparent :: "uchar list \<Rightarrow> (nat \<times> uchar list) option km" where
  "nameiparent path = bindK (namex path True) (\<lambda>(ip, name). returnK (map_option (\<lambda>ip. (ip, name)) ip))"

end
