(* ===== verification/File.thy ===== *)
theory File
  imports Pipe Fs
begin

text \<open>
  The table of open files (kernel/file.c), and \<open>pipealloc\<close> of kernel/pipe.c, which makes two of
  them. A file pointer is an index into \<open>ftable.file\<close>.
\<close>

section \<open>Operations\<close>

definition get_file :: "nat \<Rightarrow> ofile km" where
  "get_file f = getsK (\<lambda>s. files s f)"

definition upd_file :: "nat \<Rightarrow> (ofile \<Rightarrow> ofile) \<Rightarrow> unit km" where
  "upd_file f g = modifyK (\<lambda>s. s\<lparr>files := (files s)(f := g (files s f))\<rparr>)"

definition filealloc :: "nat option km" where
  "filealloc =
     bindK (getsK files) (\<lambda>fs.
     case find (\<lambda>f. f_ref (fs f) = 0) [0..<NFILE] of
       None \<Rightarrow> returnK None
     | Some f \<Rightarrow> bindK (upd_file f (\<lambda>x. x\<lparr>f_ref := 1\<rparr>)) (\<lambda>_. returnK (Some f)))"

definition filedup :: "nat \<Rightarrow> nat km" where
  "filedup f =
     bindK (get_file f) (\<lambda>x.
     if f_ref x < 1 then panicK ''filedup''
     else bindK (upd_file f (\<lambda>x. x\<lparr>f_ref := f_ref x + 1\<rparr>)) (\<lambda>_. returnK f))"

definition fileclose :: "nat \<Rightarrow> unit km" where
  "fileclose f =
     bindK (get_file f) (\<lambda>ff.
     if f_ref ff < 1 then panicK ''fileclose''
     else if f_ref ff - 1 > 0 then upd_file f (\<lambda>x. x\<lparr>f_ref := f_ref x - 1\<rparr>)
     else
       bindK (upd_file f (\<lambda>x. x\<lparr>f_ref := 0, f_type := FD_NONE\<rparr>)) (\<lambda>_.
       case f_type ff of
         FD_PIPE \<Rightarrow> pipeclose (f_pipe ff) (f_writable ff)
       | FD_INODE \<Rightarrow>
           bindK begin_trans (\<lambda>_.
           bindK (iput (f_ip ff)) (\<lambda>_.
           commit_trans))
       | FD_NONE \<Rightarrow> returnK ()))"

text \<open>\<open>filestat\<close> returns 0 and the structure, or -1 (here \<open>None\<close>).\<close>

definition filestat :: "nat \<Rightarrow> statrec option km" where
  "filestat f =
     bindK (get_file f) (\<lambda>x.
     if f_type x = FD_INODE
     then
       bindK (ilock (f_ip x)) (\<lambda>_.
       bindK (stati (f_ip x)) (\<lambda>st.
       bindK (iunlock (f_ip x)) (\<lambda>_.
       returnK (Some st))))
     else returnK None)"

definition fileread :: "nat \<Rightarrow> int \<Rightarrow> (int \<times> uchar list) km" where
  "fileread f n =
     bindK (get_file f) (\<lambda>x.
     if \<not> f_readable x then returnK (- 1, [])
     else
       case f_type x of
         FD_PIPE \<Rightarrow> piperead (f_pipe x) n
       | FD_INODE \<Rightarrow>
           bindK (ilock (f_ip x)) (\<lambda>_.
           bindK (readi (f_ip x) (f_off x) (word_of_int n)) (\<lambda>(r, bs).
           bindK (whenK (r > 0) (upd_file f (\<lambda>x. x\<lparr>f_off := f_off x + word_of_int r\<rparr>))) (\<lambda>_.
           bindK (iunlock (f_ip x)) (\<lambda>_.
           returnK (r, bs)))))
       | FD_NONE \<Rightarrow> panicK ''fileread'')"

text \<open>The most a transaction writes: \<open>((LOGSIZE-1-1-2) / 2) * 512\<close>.\<close>

definition max_write :: nat where
  "max_write = ((LOGSIZE - 1 - 1 - 2) div 2) * 512"

text \<open>The loop of \<open>filewrite\<close> over the bytes from \<open>addr + i\<close> on; the result says whether all were
  written.\<close>

function filewrite_loop :: "nat \<Rightarrow> uchar list \<Rightarrow> bool km" where
  "filewrite_loop f src =
     (if src = [] then returnK True
      else
        let n1 = min (length src) max_write in
        bindK begin_trans (\<lambda>_.
        bindK (get_file f) (\<lambda>x.
        bindK (ilock (f_ip x)) (\<lambda>_.
        bindK (get_file f) (\<lambda>x.
        bindK (writei (f_ip x) (take n1 src) (f_off x)) (\<lambda>r.
        bindK (whenK (r > 0) (upd_file f (\<lambda>x. x\<lparr>f_off := f_off x + word_of_int r\<rparr>))) (\<lambda>_.
        bindK (iunlock (f_ip x)) (\<lambda>_.
        bindK commit_trans (\<lambda>_.
        if r < 0 then returnK False
        else if r \<noteq> int n1 then panicK ''short filewrite''
        else filewrite_loop f (drop n1 src))))))))))"
  by auto

termination
  by (relation "measure (\<lambda>(_, src). length src)") (auto simp: max_write_def LOGSIZE_def)

declare filewrite_loop.simps [simp del]

definition filewrite :: "nat \<Rightarrow> uchar list \<Rightarrow> int \<Rightarrow> int km" where
  "filewrite f src n =
     bindK (get_file f) (\<lambda>x.
     if \<not> f_writable x then returnK (- 1)
     else
       case f_type x of
         FD_PIPE \<Rightarrow> pipewrite (f_pipe x) src n
       | FD_INODE \<Rightarrow>
           bindK (filewrite_loop f (take (nat n) src)) (\<lambda>ok.
           returnK (if ok \<and> n \<ge> 0 then n else - 1))
       | FD_NONE \<Rightarrow> panicK ''filewrite'')"

section \<open>Making a pipe\<close>

text \<open>The result is the two files, or \<open>None\<close> for -1. When \<open>kalloc\<close> has succeeded nothing else can
  fail, so that \<open>p\<close> is null at the label \<open>bad\<close>.\<close>

definition pipealloc :: "(nat \<times> nat) option km" where
  "pipealloc =
     bindK filealloc (\<lambda>f0.
     case f0 of
       None \<Rightarrow> returnK None
     | Some f0 \<Rightarrow>
         bindK filealloc (\<lambda>f1.
         case f1 of
           None \<Rightarrow> bindK (fileclose f0) (\<lambda>_. returnK None)
         | Some f1 \<Rightarrow>
             bindK kalloc (\<lambda>p.
             if p = 0
             then
               bindK (fileclose f0) (\<lambda>_.
               bindK (fileclose f1) (\<lambda>_.
               returnK None))
             else
               bindK (upd_pipe p (\<lambda>i. i\<lparr>pi_readopen := True, pi_writeopen := True, pi_nwrite := 0, pi_nread := 0\<rparr>)) (\<lambda>_.
               bindK (upd_file f0 (\<lambda>x. x\<lparr>f_type := FD_PIPE, f_readable := True, f_writable := False, f_pipe := p\<rparr>)) (\<lambda>_.
               bindK (upd_file f1 (\<lambda>x. x\<lparr>f_type := FD_PIPE, f_readable := False, f_writable := True, f_pipe := p\<rparr>)) (\<lambda>_.
               returnK (Some (f0, f1))))))))"

end
