(* ===== verification/Vm.thy ===== *)
theory Vm
  imports Kalloc Console
begin

text \<open>
  Page tables (kernel/vm.c). A page directory and its page tables are pages of the kernel's memory,
  read and written word by word; the address of a page table entry is a kernel address, 0 for the
  null pointer. \<open>loaduvm\<close>, which reads a file, is in theory \<open>Exec\<close>.
\<close>

section \<open>Entries (kernel/include/mmu.h)\<close>

definition PTE_P :: uint where "PTE_P = 1"
definition PTE_W :: uint where "PTE_W = 2"
definition PTE_U :: uint where "PTE_U = 4"

definition PDX :: "uint \<Rightarrow> uint" where "PDX va = drop_bit 22 va AND 0x3FF"
definition PTX :: "uint \<Rightarrow> uint" where "PTX va = drop_bit 12 va AND 0x3FF"
definition PTE_ADDR :: "uint \<Rightarrow> uint" where "PTE_ADDR pte = pte AND NOT 0xFFF"
definition PTE_FLAGS :: "uint \<Rightarrow> uint" where "PTE_FLAGS pte = pte AND 0xFFF"

definition NPDENTRIES :: nat where "NPDENTRIES = 1024"
definition NPTENTRIES :: uint where "NPTENTRIES = 1024"

section \<open>Operations\<close>

text \<open>Reading and writing the kernel's memory.\<close>

definition loadK :: "uint \<Rightarrow> uint km" where
  "loadK a = getsK (\<lambda>s. load32 (km_mem (kmem s)) a)"

definition memK :: "(mem \<Rightarrow> mem) \<Rightarrow> unit km" where
  "memK g = modifyK (\<lambda>s. s\<lparr>kmem := (kmem s)\<lparr>km_mem := g (km_mem (kmem s))\<rparr>\<rparr>)"

definition storeK :: "uint \<Rightarrow> uint \<Rightarrow> unit km" where
  "storeK a v = memK (\<lambda>m. store32 m a v)"

definition walkpgdir :: "uint \<Rightarrow> uint \<Rightarrow> bool \<Rightarrow> uint km" where
  "walkpgdir pgdir va alloc =
     (let pde = pgdir + 4 * PDX va in
      bindK (loadK pde) (\<lambda>e.
      if e AND PTE_P \<noteq> 0 then returnK (p2v (PTE_ADDR e) + 4 * PTX va)
      else if \<not> alloc then returnK 0
      else
        bindK kalloc (\<lambda>pgtab.
        if pgtab = 0 then returnK 0
        else
          bindK (memK (\<lambda>m. memset m pgtab 0 PGSIZE)) (\<lambda>_.
          bindK (storeK pde (v2p pgtab OR PTE_P OR PTE_W OR PTE_U)) (\<lambda>_.
          returnK (pgtab + 4 * PTX va))))))"

text \<open>The loop of \<open>mappages\<close> ends at the page \<open>last\<close>, which is \<open>(last - a) / PGSIZE\<close> pages further.\<close>

primrec mappages_loop :: "uint \<Rightarrow> uint \<Rightarrow> uint \<Rightarrow> uint \<Rightarrow> nat \<Rightarrow> int km" where
  "mappages_loop pgdir a pa perm 0 =
     bindK (walkpgdir pgdir a True) (\<lambda>pte.
     if pte = 0 then returnK (- 1)
     else
       bindK (loadK pte) (\<lambda>e.
       if e AND PTE_P \<noteq> 0 then panicK ''remap''
       else
         bindK (storeK pte (pa OR perm OR PTE_P)) (\<lambda>_.
         returnK 0)))"
| "mappages_loop pgdir a pa perm (Suc k) =
     bindK (walkpgdir pgdir a True) (\<lambda>pte.
     if pte = 0 then returnK (- 1)
     else
       bindK (loadK pte) (\<lambda>e.
       if e AND PTE_P \<noteq> 0 then panicK ''remap''
       else
         bindK (storeK pte (pa OR perm OR PTE_P)) (\<lambda>_.
         mappages_loop pgdir (a + PGSIZE) (pa + PGSIZE) perm k)))"

definition mappages :: "uint \<Rightarrow> uint \<Rightarrow> uint \<Rightarrow> uint \<Rightarrow> uint \<Rightarrow> int km" where
  "mappages pgdir va sz pa perm =
     (let a = PGROUNDDOWN va; last = PGROUNDDOWN (va + sz - 1)
      in mappages_loop pgdir a pa perm (unat ((last - a) div PGSIZE)))"

text \<open>\<open>struct kmap\<close>: virtual address, physical start and end, permissions.\<close>

definition kmap :: "kernel \<Rightarrow> (uint \<times> uint \<times> uint \<times> uint) list" where
  "kmap s = (let data = km_data (kmem s) in
     [(KERNBASE, 0, EXTMEM, PTE_W),
      (KERNLINK, v2p KERNLINK, v2p data, 0),
      (data, v2p data, PHYSTOP, PTE_W),
      (DEVSPACE, DEVSPACE, 0, PTE_W)])"

primrec kmap_loop :: "uint \<Rightarrow> (uint \<times> uint \<times> uint \<times> uint) list \<Rightarrow> uint km" where
  "kmap_loop pgdir [] = returnK pgdir"
| "kmap_loop pgdir (k # ks) =
     (case k of (virt, phys_start, phys_end, perm) \<Rightarrow>
      bindK (mappages pgdir virt (phys_end - phys_start) phys_start perm) (\<lambda>r.
      if r < 0 then returnK 0 else kmap_loop pgdir ks))"

definition setupkvm :: "uint km" where
  "setupkvm =
     bindK kalloc (\<lambda>pgdir.
     if pgdir = 0 then returnK 0
     else
       bindK (memK (\<lambda>m. memset m pgdir 0 PGSIZE)) (\<lambda>_.
       if p2v PHYSTOP > DEVSPACE then panicK ''PHYSTOP too high''
       else bindK (getsK kmap) (kmap_loop pgdir)))"

definition switchkvm :: "unit km" where
  "switchkvm = modifyK (\<lambda>s. s\<lparr>cr3 := v2p (kpgdir s)\<rparr>)"

definition kvmalloc :: "unit km" where
  "kvmalloc =
     bindK setupkvm (\<lambda>p.
     bindK (modifyK (\<lambda>s. s\<lparr>kpgdir := p\<rparr>)) (\<lambda>_.
     switchkvm))"

text \<open>The bytes \<open>xs\<close> stored at \<open>a\<close>.\<close>

definition put_bytes :: "mem \<Rightarrow> uint \<Rightarrow> uchar list \<Rightarrow> mem" where
  "put_bytes m a xs = (\<lambda>x. if unat (x - a) < length xs then xs ! unat (x - a) else m x)"

text \<open>\<open>inituvm\<close> does not test the result of \<open>kalloc\<close>; clearing a page at address 0 faults.\<close>

definition inituvm :: "uint \<Rightarrow> uchar list \<Rightarrow> unit km" where
  "inituvm pgdir init =
     (if length init \<ge> unat PGSIZE then panicK ''inituvm: more than a page''
      else
        bindK kalloc (\<lambda>mem.
        if mem = 0 then faultK ''inituvm''
        else
          bindK (memK (\<lambda>m. memset m mem 0 PGSIZE)) (\<lambda>_.
          bindK (mappages pgdir 0 PGSIZE (v2p mem) (PTE_W OR PTE_U)) (\<lambda>_.
          memK (\<lambda>m. put_bytes m mem init)))))"

text \<open>\<open>for(; a < oldsz; a += PGSIZE)\<close> with the jump over a missing page table. If \<open>a\<close> wraps around the
  loop starts again at the bottom of the address space and never ends; this is reported as a fault.\<close>

function deallocuvm_loop :: "uint \<Rightarrow> uint \<Rightarrow> uint \<Rightarrow> unit km" where
  "deallocuvm_loop pgdir a oldsz =
     (if a < oldsz
      then
        bindK (walkpgdir pgdir a False) (\<lambda>pte.
        if pte = 0
        then (let a' = a + (NPTENTRIES - 1) * PGSIZE + PGSIZE in
              if a < a' then deallocuvm_loop pgdir a' oldsz else faultK ''deallocuvm'')
        else
          bindK (loadK pte) (\<lambda>e.
          bindK (whenK (e AND PTE_P \<noteq> 0)
            (if PTE_ADDR e = 0 then panicK ''kfree''
             else bindK (kfree (p2v (PTE_ADDR e))) (\<lambda>_. storeK pte 0))) (\<lambda>_.
          if a < a + PGSIZE then deallocuvm_loop pgdir (a + PGSIZE) oldsz else faultK ''deallocuvm'')))
      else returnK ())"
  by auto

termination
  by (relation "measure (\<lambda>(_, a, _). 2 ^ 32 - unat a)")
    (auto simp: word_less_nat_alt intro!: diff_less_mono2)

declare deallocuvm_loop.simps [simp del]

definition deallocuvm :: "uint \<Rightarrow> uint \<Rightarrow> uint \<Rightarrow> uint km" where
  "deallocuvm pgdir oldsz newsz =
     (if newsz \<ge> oldsz then returnK oldsz
      else bindK (deallocuvm_loop pgdir (PGROUNDUP newsz) oldsz) (\<lambda>_. returnK newsz))"

text \<open>\<open>for(; a < newsz; a += PGSIZE)\<close> with \<open>newsz < KERNBASE\<close>, so \<open>a\<close> does not wrap around. The result
  of \<open>mappages\<close> is not looked at.\<close>

function allocuvm_loop :: "uint \<Rightarrow> uint \<Rightarrow> uint \<Rightarrow> uint \<Rightarrow> uint km" where
  "allocuvm_loop pgdir a oldsz newsz =
     (if a < newsz
      then
        bindK kalloc (\<lambda>mem.
        if mem = 0
        then
          bindK (cprintf (str ''allocuvm out of memory'' @ [10]) []) (\<lambda>_.
          bindK (deallocuvm pgdir newsz oldsz) (\<lambda>_. returnK 0))
        else
          bindK (memK (\<lambda>m. memset m mem 0 PGSIZE)) (\<lambda>_.
          bindK (mappages pgdir a PGSIZE (v2p mem) (PTE_W OR PTE_U)) (\<lambda>_.
          if a < a + PGSIZE then allocuvm_loop pgdir (a + PGSIZE) oldsz newsz else faultK ''allocuvm'')))
      else returnK newsz)"
  by auto

termination
  by (relation "measure (\<lambda>(_, a, _, _). 2 ^ 32 - unat a)")
    (auto simp: word_less_nat_alt intro!: diff_less_mono2)

declare allocuvm_loop.simps [simp del]

definition allocuvm :: "uint \<Rightarrow> uint \<Rightarrow> uint \<Rightarrow> uint km" where
  "allocuvm pgdir oldsz newsz =
     (if newsz \<ge> KERNBASE then returnK 0
      else if newsz < oldsz then returnK oldsz
      else allocuvm_loop pgdir (PGROUNDUP oldsz) oldsz newsz)"

definition freevm :: "uint \<Rightarrow> unit km" where
  "freevm pgdir =
     (if pgdir = 0 then panicK ''freevm: no pgdir''
      else
        bindK (deallocuvm pgdir KERNBASE 0) (\<lambda>_.
        bindK (forK [0..<NPDENTRIES] (\<lambda>i.
          bindK (loadK (pgdir + 4 * of_nat i)) (\<lambda>e.
          whenK (e AND PTE_P \<noteq> 0) (kfree (p2v (PTE_ADDR e)))))) (\<lambda>_.
        kfree pgdir)))"

definition clearpteu :: "uint \<Rightarrow> uint \<Rightarrow> unit km" where
  "clearpteu pgdir uva =
     bindK (walkpgdir pgdir uva False) (\<lambda>pte.
     if pte = 0 then panicK ''clearpteu''
     else bindK (loadK pte) (\<lambda>e. storeK pte (e AND NOT PTE_U)))"

text \<open>\<open>for(i = 0; i < sz; i += PGSIZE)\<close>; when it wraps around, page 0 is mapped again and
  \<open>mappages\<close> panics.\<close>

function copyuvm_loop :: "uint \<Rightarrow> uint \<Rightarrow> uint \<Rightarrow> uint \<Rightarrow> uint km" where
  "copyuvm_loop pgdir d i sz =
     (if i < sz
      then
        bindK (walkpgdir pgdir i False) (\<lambda>pte.
        if pte = 0 then panicK ''copyuvm: pte should exist''
        else
          bindK (loadK pte) (\<lambda>e.
          if e AND PTE_P = 0 then panicK ''copyuvm: page not present''
          else
            bindK kalloc (\<lambda>mem.
            if mem = 0 then bindK (freevm d) (\<lambda>_. returnK 0)
            else
              bindK (memK (\<lambda>m. memmove m mem (p2v (PTE_ADDR e)) PGSIZE)) (\<lambda>_.
              bindK (mappages d i PGSIZE (v2p mem) (PTE_FLAGS e)) (\<lambda>r.
              if r < 0 then bindK (freevm d) (\<lambda>_. returnK 0)
              else if i < i + PGSIZE then copyuvm_loop pgdir d (i + PGSIZE) sz
              else panicK ''remap'')))))
      else returnK d)"
  by auto

termination
  by (relation "measure (\<lambda>(_, _, i, _). 2 ^ 32 - unat i)")
    (auto simp: word_less_nat_alt intro!: diff_less_mono2)

declare copyuvm_loop.simps [simp del]

definition copyuvm :: "uint \<Rightarrow> uint \<Rightarrow> uint km" where
  "copyuvm pgdir sz =
     bindK setupkvm (\<lambda>d.
     if d = 0 then returnK 0 else copyuvm_loop pgdir d 0 sz)"

text \<open>\<open>uva2ka\<close> reads \<open>*pte\<close> without a test for the null pointer.\<close>

definition uva2ka :: "uint \<Rightarrow> uint \<Rightarrow> uint km" where
  "uva2ka pgdir uva =
     bindK (walkpgdir pgdir uva False) (\<lambda>pte.
     if pte = 0 then faultK ''uva2ka''
     else
       bindK (loadK pte) (\<lambda>e.
       if e AND PTE_P = 0 then returnK 0
       else if e AND PTE_U = 0 then returnK 0
       else returnK (p2v (PTE_ADDR e))))"

lemma page_floor:
  "PGROUNDDOWN va + (va AND 0xFFF) = va" "va - PGROUNDDOWN va = va AND 0xFFF" "PGROUNDDOWN va AND 0xFFF = 0"
proof -
  have m: "(0xFFF :: uint) = mask 12" by (simp add: mask_numeral)
  have p: "PGROUNDDOWN va = va AND NOT (mask 12)" by (simp add: PGROUNDDOWN_def PGSIZE_def m)
  show z: "PGROUNDDOWN va AND 0xFFF = 0" unfolding p m by (rule bit_word_eqI) (auto simp: bit_simps)
  have "PGROUNDDOWN va AND (va AND 0xFFF) = 0" unfolding p m by (rule bit_word_eqI) (auto simp: bit_simps)
  then have "PGROUNDDOWN va + (va AND 0xFFF) = PGROUNDDOWN va OR (va AND 0xFFF)"
    by (rule disjunctive_add_eq_or)
  also have "\<dots> = va" unfolding p m by (rule bit_word_eqI) (auto simp: bit_simps)
  finally show *: "PGROUNDDOWN va + (va AND 0xFFF) = va" .
  then show "va - PGROUNDDOWN va = va AND 0xFFF" by (metis add_diff_cancel_left')
qed

lemma page_offset_less: "unat ((va :: uint) AND 0xFFF) < 4096"
proof -
  have "va AND 0xFFF \<le> (0xFFF :: uint)" by (rule word_and_le1)
  then show ?thesis by (simp add: word_le_nat_alt)
qed

lemma page_rest: "0 < unat (PGSIZE - (va - PGROUNDDOWN va))"
proof -
  have "va AND 0xFFF \<noteq> 4096" using page_offset_less [of va] by auto
  then show ?thesis unfolding page_floor(2) by (simp add: PGSIZE_def unat_gt_0)
qed

function copyout :: "uint \<Rightarrow> uint \<Rightarrow> uchar list \<Rightarrow> int km" where
  "copyout pgdir va buf =
     (if buf = [] then returnK 0
      else
        let va0 = PGROUNDDOWN va in
        bindK (uva2ka pgdir va0) (\<lambda>pa0.
        if pa0 = 0 then returnK (- 1)
        else
          let n = min (unat (PGSIZE - (va - va0))) (length buf) in
          bindK (memK (\<lambda>m. put_bytes m (pa0 + (va - va0)) (take n buf))) (\<lambda>_.
          copyout pgdir (va0 + PGSIZE) (drop n buf))))"
  by auto

termination
  by (relation "measure (\<lambda>(_, _, buf). length buf)") (use page_rest in auto)

declare copyout.simps [simp del]

end
