(* ===== verification/Proc.thy ===== *)
theory Proc
  imports File Vm
begin

text \<open>
  Processes (kernel/proc.c). A process pointer is an index into \<open>ptable.proc\<close>. The switch between
  processes is a change of \<open>cur\<close>: \<open>scheduler_run\<close> gives the CPU to a process, \<open>yield\<close> and the
  two halves of \<open>sleep\<close> give it back. \<open>exit\<close> returns at its call of \<open>sched\<close>, from which the code
  does not come back.
\<close>

section \<open>The process table\<close>

definition upd_proc :: "nat \<Rightarrow> (proc \<Rightarrow> proc) \<Rightarrow> unit km" where
  "upd_proc p g = modifyK (\<lambda>s. s\<lparr>procs := (procs s)(p := g (procs s p))\<rparr>)"

definition get_proc :: "nat \<Rightarrow> proc km" where
  "get_proc p = getsK (\<lambda>s. procs s p)"

text \<open>The per-CPU variable \<open>proc\<close>, where the code uses it without a test.\<close>

definition myproc :: "nat km" where
  "myproc = bindK (getsK cur) (\<lambda>c. case c of None \<Rightarrow> faultK ''no process'' | Some p \<Rightarrow> returnK p)"

section \<open>Creation\<close>

definition allocproc :: "nat option km" where
  "allocproc =
     bindK (getsK procs) (\<lambda>ps.
     case find (\<lambda>p. p_state (ps p) = UNUSED) [0..<NPROC] of
       None \<Rightarrow> returnK None
     | Some p \<Rightarrow>
         bindK (getsK nextpid) (\<lambda>pid.
         bindK (upd_proc p (\<lambda>x. x\<lparr>p_state := EMBRYO, p_pid := pid\<rparr>)) (\<lambda>_.
         bindK (modifyK (\<lambda>s. s\<lparr>nextpid := pid + 1\<rparr>)) (\<lambda>_.
         bindK kalloc (\<lambda>kstack.
         bindK (upd_proc p (\<lambda>x. x\<lparr>p_kstack := kstack\<rparr>)) (\<lambda>_.
         if kstack = 0
         then bindK (upd_proc p (\<lambda>x. x\<lparr>p_state := UNUSED\<rparr>)) (\<lambda>_. returnK None)
         else
           bindK (getsK forkret_addr) (\<lambda>eip.
           bindK (upd_proc p (\<lambda>x. x\<lparr>p_context := zero_ctxt\<lparr>cx_eip := eip\<rparr>\<rparr>)) (\<lambda>_.
           returnK (Some p)))))))))"

text \<open>The name that \<open>safestrcpy\<close> leaves in the 16 bytes of \<open>name\<close>.\<close>

definition proc_name :: "uchar list \<Rightarrow> uchar list" where
  "proc_name t = take 15 (cstring t)"

definition USER_CS :: ushort where "USER_CS = push_bit 3 4 OR 3"
definition USER_DS :: ushort where "USER_DS = push_bit 3 5 OR 3"
definition FL_IF :: uint where "FL_IF = 0x200"

text \<open>The image of initcode.S, which the build links into the kernel, is the parameter. The source does
  not test the result of \<open>allocproc\<close>.\<close>

definition userinit :: "uchar list \<Rightarrow> unit km" where
  "userinit initcode =
     bindK allocproc (\<lambda>np.
     bindK (modifyK (\<lambda>s. s\<lparr>initproc := np\<rparr>)) (\<lambda>_.
     case np of
       None \<Rightarrow> faultK ''userinit''
     | Some p \<Rightarrow>
         bindK setupkvm (\<lambda>pgdir.
         bindK (upd_proc p (\<lambda>x. x\<lparr>p_pgdir := pgdir\<rparr>)) (\<lambda>_.
         if pgdir = 0 then panicK ''userinit: out of memory?''
         else
           bindK (inituvm pgdir initcode) (\<lambda>_.
           bindK (upd_proc p (\<lambda>x. x\<lparr>p_sz := PGSIZE,
              p_tf := zero_tf\<lparr>tf_cs := USER_CS, tf_ds := USER_DS, tf_es := USER_DS, tf_ss := USER_DS,
                tf_eflags := FL_IF, tf_esp := PGSIZE, tf_eip := 0\<rparr>,
              p_name := proc_name (str ''initcode'')\<rparr>)) (\<lambda>_.
           bindK (namei (str ''/'')) (\<lambda>cwd.
           upd_proc p (\<lambda>x. x\<lparr>p_cwd := cwd, p_state := RUNNABLE\<rparr>))))))))"

text \<open>Loading the page directory of a process; the task state segment is left out.\<close>

definition switchuvm :: "nat \<Rightarrow> unit km" where
  "switchuvm p =
     bindK (get_proc p) (\<lambda>x.
     if p_pgdir x = 0 then panicK ''switchuvm: no pgdir''
     else modifyK (\<lambda>s. s\<lparr>cr3 := v2p (p_pgdir x)\<rparr>))"

definition growproc :: "int \<Rightarrow> int km" where
  "growproc n =
     bindK myproc (\<lambda>p.
     bindK (get_proc p) (\<lambda>x.
     bindK (if n > 0 then allocuvm (p_pgdir x) (p_sz x) (p_sz x + word_of_int n)
            else if n < 0 then deallocuvm (p_pgdir x) (p_sz x) (p_sz x + word_of_int n)
            else returnK (p_sz x)) (\<lambda>sz.
     if n \<noteq> 0 \<and> sz = 0 then returnK (- 1)
     else
       bindK (upd_proc p (\<lambda>x. x\<lparr>p_sz := sz\<rparr>)) (\<lambda>_.
       bindK (switchuvm p) (\<lambda>_.
       returnK 0)))))"

definition fork :: "int km" where
  "fork =
     bindK allocproc (\<lambda>np.
     case np of
       None \<Rightarrow> returnK (- 1)
     | Some np \<Rightarrow>
         bindK myproc (\<lambda>p.
         bindK (get_proc p) (\<lambda>x.
         bindK (copyuvm (p_pgdir x) (p_sz x)) (\<lambda>pgdir.
         bindK (upd_proc np (\<lambda>y. y\<lparr>p_pgdir := pgdir\<rparr>)) (\<lambda>_.
         if pgdir = 0
         then
           bindK (get_proc np) (\<lambda>y.
           bindK (kfree (p_kstack y)) (\<lambda>_.
           bindK (upd_proc np (\<lambda>y. y\<lparr>p_kstack := 0, p_state := UNUSED\<rparr>)) (\<lambda>_.
           returnK (- 1))))
         else
           bindK (upd_proc np (\<lambda>y. y\<lparr>p_sz := p_sz x, p_parent := Some p, p_tf := (p_tf x)\<lparr>tf_eax := 0\<rparr>\<rparr>)) (\<lambda>_.
           bindK (forK [0..<NOFILE] (\<lambda>i.
             case p_ofile x i of
               None \<Rightarrow> returnK ()
             | Some f \<Rightarrow> bindK (filedup f) (\<lambda>f. upd_proc np (\<lambda>y. y\<lparr>p_ofile := (p_ofile y)(i := Some f)\<rparr>)))) (\<lambda>_.
           bindK (case p_cwd x of None \<Rightarrow> faultK ''no cwd'' | Some ip \<Rightarrow> idup ip) (\<lambda>cwd.
           bindK (get_proc np) (\<lambda>y.
           bindK (upd_proc np (\<lambda>y. y\<lparr>p_cwd := Some cwd, p_state := RUNNABLE, p_name := proc_name (p_name x)\<rparr>)) (\<lambda>_.
           returnK (p_pid y)))))))))))"

section \<open>Termination of processes\<close>

text \<open>The loop that hands the children of \<open>p\<close> to \<open>initproc\<close>.\<close>

definition pass_children :: "nat \<Rightarrow> unit km" where
  "pass_children p =
     forK [0..<NPROC] (\<lambda>c.
       bindK (get_proc c) (\<lambda>x.
       bindK (getsK initproc) (\<lambda>ini.
       whenK (p_parent x = Some p)
         (bindK (upd_proc c (\<lambda>x. x\<lparr>p_parent := ini\<rparr>)) (\<lambda>_.
          whenK (p_state x = ZOMBIE) (modifyK (wakeup1 (map_option Chan_proc ini))))))))"

definition exit :: "unit km" where
  "exit =
     bindK myproc (\<lambda>p.
     bindK (getsK initproc) (\<lambda>ini.
     if ini = Some p then panicK ''init exiting''
     else
       bindK (forK [0..<NOFILE] (\<lambda>fd.
         bindK (get_proc p) (\<lambda>x.
         case p_ofile x fd of
           None \<Rightarrow> returnK ()
         | Some f \<Rightarrow>
             bindK (fileclose f) (\<lambda>_.
             upd_proc p (\<lambda>x. x\<lparr>p_ofile := (p_ofile x)(fd := None)\<rparr>))))) (\<lambda>_.
       bindK (get_proc p) (\<lambda>x.
       bindK (case p_cwd x of None \<Rightarrow> faultK ''no cwd'' | Some ip \<Rightarrow> iput ip) (\<lambda>_.
       bindK (upd_proc p (\<lambda>x. x\<lparr>p_cwd := None\<rparr>)) (\<lambda>_.
       bindK (get_proc p) (\<lambda>x.
       bindK (modifyK (wakeup1 (map_option Chan_proc (p_parent x)))) (\<lambda>_.
       bindK (pass_children p) (\<lambda>_.
       upd_proc p (\<lambda>x. x\<lparr>p_state := ZOMBIE\<rparr>))))))))))"

definition reap :: "nat \<Rightarrow> int km" where
  "reap c =
     bindK (get_proc c) (\<lambda>x.
     bindK (kfree (p_kstack x)) (\<lambda>_.
     bindK (upd_proc c (\<lambda>x. x\<lparr>p_kstack := 0\<rparr>)) (\<lambda>_.
     bindK (freevm (p_pgdir x)) (\<lambda>_.
     bindK (upd_proc c (\<lambda>x. x\<lparr>p_state := UNUSED, p_pid := 0, p_parent := None, p_name := [], p_killed := False\<rparr>)) (\<lambda>_.
     returnK (p_pid x))))))"

definition wait :: "int km" where
  "wait =
     bindK myproc (\<lambda>p.
     bindK (getsK procs) (\<lambda>ps.
     case find (\<lambda>c. p_parent (ps c) = Some p \<and> p_state (ps c) = ZOMBIE) [0..<NPROC] of
       Some c \<Rightarrow> reap c
     | None \<Rightarrow>
         if \<not> (\<exists>c\<in>set [0..<NPROC]. p_parent (ps c) = Some p) \<or> p_killed (ps p) then returnK (- 1)
         else Sleeps (Chan_proc p)))"

definition kill :: "int \<Rightarrow> int km" where
  "kill pid =
     bindK (getsK procs) (\<lambda>ps.
     case find (\<lambda>p. p_pid (ps p) = pid) [0..<NPROC] of
       None \<Rightarrow> returnK (- 1)
     | Some p \<Rightarrow>
         bindK (upd_proc p (\<lambda>x. x\<lparr>p_killed := True,
           p_state := (if p_state x = SLEEPING then RUNNABLE else p_state x)\<rparr>)) (\<lambda>_.
         returnK 0))"

definition killcur :: "unit km" where
  "killcur = bindK (getsK current_proc) (\<lambda>c.
     case c of
       None \<Rightarrow> faultK ''killcur''
     | Some p \<Rightarrow> bindK (get_proc p) (\<lambda>x. bindK (kill (p_pid x)) (\<lambda>_. returnK ())))"

section \<open>Scheduling\<close>

text \<open>One turn of the loop of \<open>scheduler\<close> up to the switch to process \<open>p\<close>, and what follows the switch
  back.\<close>

definition scheduler_run :: "nat \<Rightarrow> unit km" where
  "scheduler_run p =
     bindK (modifyK (\<lambda>s. s\<lparr>cur := Some p\<rparr>)) (\<lambda>_.
     bindK (switchuvm p) (\<lambda>_.
     bindK (upd_proc p (\<lambda>x. x\<lparr>p_state := RUNNING\<rparr>)) (\<lambda>_.
     modifyK (\<lambda>s. s\<lparr>current_proc := Some p\<rparr>))))"

definition scheduler_back :: "unit km" where
  "scheduler_back = bindK switchkvm (\<lambda>_. modifyK (\<lambda>s. s\<lparr>cur := None\<rparr>))"

text \<open>\<open>sched\<close> checks the state and switches to the scheduler. The tests on locks and interrupts belong to
  the spinlocks.\<close>

definition sched :: "unit km" where
  "sched =
     bindK myproc (\<lambda>p.
     bindK (get_proc p) (\<lambda>x.
     if p_state x = RUNNING then panicK ''sched running'' else scheduler_back))"

definition yield :: "unit km" where
  "yield =
     bindK myproc (\<lambda>p.
     bindK (upd_proc p (\<lambda>x. x\<lparr>p_state := RUNNABLE\<rparr>)) (\<lambda>_.
     sched))"

text \<open>\<open>sleep\<close> up to its call of \<open>sched\<close>, and after it has been woken.\<close>

definition sleep :: "chan \<Rightarrow> unit km" where
  "sleep c =
     bindK (getsK cur) (\<lambda>p.
     case p of
       None \<Rightarrow> panicK ''sleep''
     | Some p \<Rightarrow>
         bindK (upd_proc p (\<lambda>x. x\<lparr>p_chan := Some c, p_state := SLEEPING\<rparr>)) (\<lambda>_.
         sched))"

definition sleep_return :: "unit km" where
  "sleep_return = bindK myproc (\<lambda>p. upd_proc p (\<lambda>x. x\<lparr>p_chan := None\<rparr>))"

definition forkret :: "unit km" where
  "forkret =
     bindK (getsK forkret_first) (\<lambda>first.
     whenK first
       (bindK (modifyK (\<lambda>s. s\<lparr>forkret_first := False\<rparr>)) (\<lambda>_.
        initlog)))"

section \<open>Listing\<close>

definition state_name :: "procstate \<Rightarrow> uchar list" where
  "state_name st = str (case st of UNUSED \<Rightarrow> ''unused'' | EMBRYO \<Rightarrow> ''embryo'' | SLEEPING \<Rightarrow> ''sleep ''
     | RUNNABLE \<Rightarrow> ''runble'' | RUNNING \<Rightarrow> ''run   '' | ZOMBIE \<Rightarrow> ''zombie'')"

definition procdump :: "unit km" where
  "procdump =
     forK [0..<NPROC] (\<lambda>p.
       bindK (get_proc p) (\<lambda>x.
       whenK (p_state x \<noteq> UNUSED)
         (bindK (cprintf (str ''%d %s %s'')
            [Arg_int (word_of_int (p_pid x)), Arg_str (Some (state_name (p_state x))), Arg_str (Some (p_name x))]) (\<lambda>_.
          cprintf [10] []))))"

end
