(* ===== verification/Syscall.thy ===== *)
theory Syscall
  imports Proc
begin

text \<open>
  System call arguments (kernel/syscall.c) and the system calls on processes, the clock, the host name
  and user ids (kernel/sysproc.c, kernel/sysuser.c). The kernel reads and writes user memory through
  the page table in \<open>cr3\<close>, as the memory management unit does: an address that is not mapped, or not
  mapped writable when it is written, faults.
\<close>

section \<open>User memory\<close>

definition translate :: "mem \<Rightarrow> uint \<Rightarrow> bool \<Rightarrow> uint \<Rightarrow> uint option" where
  "translate m pgdir wr va =
     (let e = load32 m (pgdir + 4 * PDX va) in
      if e AND PTE_P = 0 then None
      else
        let t = load32 m (p2v (PTE_ADDR e) + 4 * PTX va) in
        if t AND PTE_P = 0 \<or> (wr \<and> t AND PTE_W = 0) then None
        else Some (p2v (PTE_ADDR t) + (va AND 0xFFF)))"

definition access :: "bool \<Rightarrow> uint \<Rightarrow> uint km" where
  "access wr va =
     bindK (getsK (\<lambda>s. translate (km_mem (kmem s)) (p2v (cr3 s)) wr va)) (\<lambda>a.
     case a of None \<Rightarrow> faultK ''page fault'' | Some a \<Rightarrow> returnK a)"

primrec uread :: "uint \<Rightarrow> nat \<Rightarrow> uchar list km" where
  "uread va 0 = returnK []"
| "uread va (Suc n) =
     bindK (access False va) (\<lambda>a.
     bindK (getsK (\<lambda>s. km_mem (kmem s) a)) (\<lambda>c.
     bindK (uread (va + 1) n) (\<lambda>cs.
     returnK (c # cs))))"

primrec uwrite :: "uint \<Rightarrow> uchar list \<Rightarrow> unit km" where
  "uwrite va [] = returnK ()"
| "uwrite va (c # cs) =
     bindK (access True va) (\<lambda>a.
     bindK (memK (\<lambda>m. m(a := c))) (\<lambda>_.
     uwrite (va + 1) cs))"

text \<open>A little-endian word as bytes and back.\<close>

definition word_bytes :: "uint \<Rightarrow> uchar list" where
  "word_bytes w = [ucast w, ucast (drop_bit 8 w), ucast (drop_bit 16 w), ucast (drop_bit 24 w)]"

definition bytes_word :: "uchar list \<Rightarrow> uint" where
  "bytes_word bs = ucast (bs ! 0) OR push_bit 8 (ucast (bs ! 1)) OR push_bit 16 (ucast (bs ! 2)) OR
     push_bit 24 (ucast (bs ! 3))"

section \<open>Arguments\<close>

text \<open>\<open>proc->sz\<close>.\<close>

definition cur_sz :: "uint km" where
  "cur_sz = bindK myproc (\<lambda>p. getsK (\<lambda>s. p_sz (procs s p)))"

text \<open>\<open>fetchint\<close> returns -1 (\<open>None\<close>) or 0 and the value.\<close>

definition fetchint :: "uint \<Rightarrow> uint option km" where
  "fetchint addr =
     bindK cur_sz (\<lambda>sz.
     if addr \<ge> sz \<or> addr + 4 > sz then returnK None
     else bindK (uread addr 4) (\<lambda>bs. returnK (Some (bytes_word bs))))"

text \<open>The scan \<open>for(s = *pp; s < ep; s++)\<close> over the \<open>n\<close> bytes up to \<open>ep\<close>: the number of bytes before the
  first NUL.\<close>

primrec fetchstr_loop :: "uint \<Rightarrow> nat \<Rightarrow> int \<Rightarrow> int km" where
  "fetchstr_loop s 0 len = returnK (- 1)"
| "fetchstr_loop s (Suc n) len =
     bindK (uread s 1) (\<lambda>bs.
     if bs = [0] then returnK len else fetchstr_loop (s + 1) n (len + 1))"

text \<open>The result and the pointer stored in \<open>*pp\<close>, if one is.\<close>

definition fetchstr :: "uint \<Rightarrow> (int \<times> uint option) km" where
  "fetchstr addr =
     bindK cur_sz (\<lambda>sz.
     if addr \<ge> sz then returnK (- 1, None)
     else bindK (fetchstr_loop addr (unat (sz - addr)) 0) (\<lambda>r. returnK (r, Some addr)))"

definition argint :: "nat \<Rightarrow> uint option km" where
  "argint n =
     bindK myproc (\<lambda>p.
     bindK (get_proc p) (\<lambda>x.
     fetchint (tf_esp (p_tf x) + 4 + 4 * of_nat n)))"

definition argptr :: "nat \<Rightarrow> int \<Rightarrow> uint option km" where
  "argptr n sz =
     bindK (argint n) (\<lambda>i.
     case i of
       None \<Rightarrow> returnK None
     | Some i \<Rightarrow>
         bindK cur_sz (\<lambda>psz.
         if i \<ge> psz \<or> i + word_of_int sz > psz then returnK None else returnK (Some i)))"

definition argstr :: "nat \<Rightarrow> (int \<times> uint option) km" where
  "argstr n =
     bindK (argint n) (\<lambda>addr.
     case addr of None \<Rightarrow> returnK (- 1, None) | Some addr \<Rightarrow> fetchstr addr)"

text \<open>A string argument as the bytes before its NUL. A process has one thread and shares no memory, so
  the string does not change while the system call runs.\<close>

definition arg_string :: "nat \<Rightarrow> uchar list option km" where
  "arg_string n =
     bindK (argstr n) (\<lambda>(r, pp).
     case pp of
       Some a \<Rightarrow> if r < 0 then returnK None else bindK (uread a (nat r)) (\<lambda>bs. returnK (Some bs))
     | None \<Rightarrow> returnK None)"

section \<open>Processes and the clock (kernel/sysproc.c)\<close>

definition sys_fork :: "int km" where
  "sys_fork = fork"

text \<open>The status is not read from the arguments, and \<open>exit\<close> does not look at it.\<close>

definition sys_exit :: "int km" where
  "sys_exit = Exits"

definition sys_wait :: "int km" where
  "sys_wait = wait"

definition sys_kill :: "int km" where
  "sys_kill =
     bindK (argint 0) (\<lambda>pid.
     case pid of None \<Rightarrow> returnK (- 1) | Some pid \<Rightarrow> kill (sint pid))"

definition sys_getpid :: "int km" where
  "sys_getpid = bindK myproc (\<lambda>p. getsK (\<lambda>s. p_pid (procs s p)))"

definition sys_sbrk :: "int km" where
  "sys_sbrk =
     bindK (argint 0) (\<lambda>n.
     case n of
       None \<Rightarrow> returnK (- 1)
     | Some n \<Rightarrow>
         bindK cur_sz (\<lambda>addr.
         bindK (growproc (sint n)) (\<lambda>r.
         if r < 0 then returnK (- 1) else returnK (sint addr))))"

text \<open>The loop of \<open>sys_sleep\<close>, entered with the tick count at the start and again after each wake-up.
  The comparison \<open>ticks - ticks0 < n\<close> is unsigned.\<close>

definition sleep_loop :: "uint \<Rightarrow> uint \<Rightarrow> int km" where
  "sleep_loop ticks0 n =
     bindK (getsK ticks) (\<lambda>t.
     if t - ticks0 < n
     then bindK cur_killed (\<lambda>k. if k then returnK (- 1) else Sleeps Chan_ticks)
     else returnK 0)"

definition sys_sleep :: "int km" where
  "sys_sleep =
     bindK (argint 0) (\<lambda>n.
     case n of
       None \<Rightarrow> returnK (- 1)
     | Some n \<Rightarrow> bindK (getsK ticks) (\<lambda>ticks0. sleep_loop ticks0 (n * 100)))"

definition sys_uptime :: "int km" where
  "sys_uptime = getsK (\<lambda>s. sint (ticks s))"

definition cur_uid :: "int km" where
  "cur_uid = bindK myproc (\<lambda>p. getsK (\<lambda>s. p_uid (procs s p)))"

text \<open>The write to the power management port and the load of an empty interrupt table end the run of
  the kernel when they take effect; the model goes on when they do not.\<close>

definition sys_shutdown :: "int km" where
  "sys_shutdown = bindK cur_uid (\<lambda>u. if u \<noteq> 0 then returnK 2 else returnK 0)"

definition sys_reboot :: "int km" where
  "sys_reboot = bindK cur_uid (\<lambda>u. if u \<noteq> 0 then returnK 2 else returnK 0)"

section \<open>The host name\<close>

text \<open>\<open>strlen\<close> on user memory; a string that runs through the whole address space would wrap around.\<close>

function ustrlen_loop :: "uint \<Rightarrow> nat \<Rightarrow> nat km" where
  "ustrlen_loop a k =
     (if k \<ge> 2 ^ 32 then faultK ''strlen''
      else bindK (uread (a + of_nat k) 1) (\<lambda>bs. if bs = [0] then returnK k else ustrlen_loop a (k + 1)))"
  by auto

termination
  by (relation "measure (\<lambda>(_, k). 2 ^ 32 - k)") auto

declare ustrlen_loop.simps [simp del]

text \<open>The C functions ignore the result of \<open>argstr\<close>. When it stores no pointer, the variable keeps the
  word that is on the kernel stack in its place: the parameter \<open>junk\<close>.\<close>

definition sys_sethostname :: "uint \<Rightarrow> int km" where
  "sys_sethostname junk =
     bindK (argstr 0) (\<lambda>(_, pp).
     let a = (case pp of None \<Rightarrow> junk | Some a \<Rightarrow> a) in
     bindK cur_uid (\<lambda>u.
     if u \<noteq> 0 then returnK 2
     else
       bindK (ustrlen_loop a 0) (\<lambda>l.
       if l + 1 > 256 then returnK 1
       else
         bindK (uread a (l + 1)) (\<lambda>bs.
         bindK (modifyK (\<lambda>s. s\<lparr>hostname_len := of_nat (l + 1),
           hostname := (\<lambda>i. if i < l + 1 then bs ! i else hostname s i)\<rparr>)) (\<lambda>_.
         returnK 0)))))"

definition sys_gethostname :: "uint \<Rightarrow> int km" where
  "sys_gethostname junk =
     bindK (argstr 0) (\<lambda>(_, pp).
     let a = (case pp of None \<Rightarrow> junk | Some a \<Rightarrow> a) in
     bindK (getsK (\<lambda>s. map (hostname s) [0..<unat (hostname_len s)])) (\<lambda>bs.
     bindK (uwrite a bs) (\<lambda>_.
     getsK (\<lambda>s. sint (hostname_len s)))))"

section \<open>User ids (kernel/sysuser.c)\<close>

definition sys_getuid :: "int km" where
  "sys_getuid = cur_uid"

text \<open>As above for a missing argument.\<close>

definition sys_setuid :: "uint \<Rightarrow> int km" where
  "sys_setuid junk =
     bindK (argint 0) (\<lambda>n.
     bindK myproc (\<lambda>p.
     bindK (upd_proc p (\<lambda>x. x\<lparr>p_uid := sint (case n of None \<Rightarrow> junk | Some n \<Rightarrow> n)\<rparr>)) (\<lambda>_.
     returnK 0)))"

end
