(* ===== verification/Sysfile.thy ===== *)
theory Sysfile
  imports Syscall
begin

text \<open>
  The system calls on files (kernel/sysfile.c), each as one definition over the argument functions and
  the file system below. \<open>sys_execv\<close> is in theory \<open>Exec\<close>.
\<close>

section \<open>File descriptors\<close>

text \<open>\<open>argfd\<close> returns the descriptor and the file, or \<open>None\<close> for -1.\<close>

definition argfd :: "nat \<Rightarrow> (nat \<times> nat) option km" where
  "argfd n =
     bindK (argint n) (\<lambda>fd.
     case fd of
       None \<Rightarrow> returnK None
     | Some fd \<Rightarrow>
         bindK myproc (\<lambda>p.
         bindK (get_proc p) (\<lambda>x.
         if sint fd < 0 \<or> sint fd \<ge> int NOFILE then returnK None
         else returnK (map_option (\<lambda>f. (nat (sint fd), f)) (p_ofile x (nat (sint fd)))))))"

definition set_fd :: "nat \<Rightarrow> nat option \<Rightarrow> unit km" where
  "set_fd fd f = bindK myproc (\<lambda>p. upd_proc p (\<lambda>x. x\<lparr>p_ofile := (p_ofile x)(fd := f)\<rparr>))"

definition fdalloc :: "nat \<Rightarrow> nat option km" where
  "fdalloc f =
     bindK myproc (\<lambda>p.
     bindK (get_proc p) (\<lambda>x.
     case find (\<lambda>fd. p_ofile x fd = None) [0..<NOFILE] of
       None \<Rightarrow> returnK None
     | Some fd \<Rightarrow> bindK (set_fd fd (Some f)) (\<lambda>_. returnK (Some fd))))"

definition sys_dup :: "int km" where
  "sys_dup =
     bindK (argfd 0) (\<lambda>a.
     case a of
       None \<Rightarrow> returnK (- 1)
     | Some (_, f) \<Rightarrow>
         bindK (fdalloc f) (\<lambda>fd.
         case fd of
           None \<Rightarrow> returnK (- 1)
         | Some fd \<Rightarrow> bindK (filedup f) (\<lambda>_. returnK (int fd))))"

text \<open>The arguments of \<open>sys_read\<close> and \<open>sys_write\<close>, in the order in which the code fetches them: the file, the
  count and the buffer.\<close>

definition rw_args :: "(nat \<times> int \<times> uint) option km" where
  "rw_args =
     bindK (argfd 0) (\<lambda>a.
     case a of
       None \<Rightarrow> returnK None
     | Some (_, f) \<Rightarrow>
         bindK (argint 2) (\<lambda>n.
         case n of
           None \<Rightarrow> returnK None
         | Some n \<Rightarrow>
             bindK (argptr 1 (sint n)) (\<lambda>p.
             case p of None \<Rightarrow> returnK None | Some p \<Rightarrow> returnK (Some (f, sint n, p)))))"

definition sys_read :: "int km" where
  "sys_read =
     bindK rw_args (\<lambda>a.
     case a of
       None \<Rightarrow> returnK (- 1)
     | Some (f, n, p) \<Rightarrow>
         bindK (fileread f n) (\<lambda>(r, bs).
         bindK (uwrite p bs) (\<lambda>_.
         returnK r)))"

definition sys_write :: "int km" where
  "sys_write =
     bindK rw_args (\<lambda>a.
     case a of
       None \<Rightarrow> returnK (- 1)
     | Some (f, n, p) \<Rightarrow>
         bindK (uread p (nat n)) (\<lambda>bs.
         filewrite f bs n))"

definition sys_lseek :: "int km" where
  "sys_lseek =
     bindK (argfd 0) (\<lambda>a.
     case a of
       None \<Rightarrow> returnK (- 1)
     | Some (_, f) \<Rightarrow>
         bindK (argint 1) (\<lambda>offset.
         case offset of
           None \<Rightarrow> returnK (- 1)
         | Some offset \<Rightarrow>
             bindK (argint 2) (\<lambda>base.
             case base of
               None \<Rightarrow> returnK (- 1)
             | Some base \<Rightarrow>
                 bindK (whenK (base = 0) (upd_file f (\<lambda>x. x\<lparr>f_off := offset\<rparr>))) (\<lambda>_.
                 bindK (whenK (base = 1) (upd_file f (\<lambda>x. x\<lparr>f_off := f_off x + offset\<rparr>))) (\<lambda>_.
                 returnK 0)))))"

definition sys_close :: "int km" where
  "sys_close =
     bindK (argfd 0) (\<lambda>a.
     case a of
       None \<Rightarrow> returnK (- 1)
     | Some (fd, f) \<Rightarrow>
         bindK (set_fd fd None) (\<lambda>_.
         bindK (fileclose f) (\<lambda>_.
         returnK 0)))"

text \<open>\<open>struct stat\<close> in memory: \<open>type\<close> and, after two bytes of padding, \<open>dev\<close>, \<open>ino\<close>, \<open>nlink\<close> and, after
  two bytes of padding, \<open>size\<close>. The kernel does not write the padding, so the fields are written one by one.\<close>

definition half_bytes :: "ushort \<Rightarrow> uchar list" where
  "half_bytes w = [ucast w, ucast (drop_bit 8 w)]"

definition put_stat :: "uint \<Rightarrow> statrec \<Rightarrow> unit km" where
  "put_stat a st =
     bindK (uwrite a (half_bytes (st_type st))) (\<lambda>_.
     bindK (uwrite (a + 4) (word_bytes (of_nat (st_dev st)))) (\<lambda>_.
     bindK (uwrite (a + 8) (word_bytes (of_nat (st_ino st)))) (\<lambda>_.
     bindK (uwrite (a + 12) (half_bytes (st_nlink st))) (\<lambda>_.
     uwrite (a + 16) (word_bytes (st_size st))))))"

definition sys_fstat :: "int km" where
  "sys_fstat =
     bindK (argfd 0) (\<lambda>a.
     case a of
       None \<Rightarrow> returnK (- 1)
     | Some (_, f) \<Rightarrow>
         bindK (argptr 1 20) (\<lambda>p.
         case p of
           None \<Rightarrow> returnK (- 1)
         | Some p \<Rightarrow>
             bindK (filestat f) (\<lambda>st.
             case st of None \<Rightarrow> returnK (- 1) | Some st \<Rightarrow> bindK (put_stat p st) (\<lambda>_. returnK 0))))"

section \<open>Links\<close>

definition bump_nlink :: "nat \<Rightarrow> ushort \<Rightarrow> unit km" where
  "bump_nlink ip d = bindK (upd_inode ip (\<lambda>i. i\<lparr>i_nlink := i_nlink i + d\<rparr>)) (\<lambda>_. iupdate ip)"

text \<open>The label \<open>bad\<close> of \<open>sys_link\<close>.\<close>

definition link_bad :: "nat \<Rightarrow> int km" where
  "link_bad ip =
     bindK (ilock ip) (\<lambda>_.
     bindK (bump_nlink ip (- 1)) (\<lambda>_.
     bindK (iunlockput ip) (\<lambda>_.
     bindK commit_trans (\<lambda>_.
     returnK (- 1)))))"

definition link_trans :: "nat \<Rightarrow> uchar list \<Rightarrow> int km" where
  "link_trans ip new =
     bindK begin_trans (\<lambda>_.
     bindK (ilock ip) (\<lambda>_.
     bindK (get_inode ip) (\<lambda>i.
     if i_type i = T_DIR
     then
       bindK (iunlockput ip) (\<lambda>_.
       bindK commit_trans (\<lambda>_.
       returnK (- 1)))
     else
       bindK (bump_nlink ip 1) (\<lambda>_.
       bindK (iunlock ip) (\<lambda>_.
       bindK (nameiparent new) (\<lambda>dp.
       case dp of
         None \<Rightarrow> link_bad ip
       | Some (dp, name) \<Rightarrow>
           bindK (ilock dp) (\<lambda>_.
           bindK (get_inode dp) (\<lambda>d.
           bindK (get_inode ip) (\<lambda>i.
           bindK (if i_dev d \<noteq> i_dev i then returnK (- 1) else dirlink dp name (of_nat (i_inum i))) (\<lambda>r.
           bindK (iunlockput dp) (\<lambda>_.
           if r < 0 then link_bad ip
           else
             bindK (iput ip) (\<lambda>_.
             bindK commit_trans (\<lambda>_.
             returnK 0)))))))))))))"

definition sys_link :: "int km" where
  "sys_link =
     bindK (arg_string 0) (\<lambda>old.
     case old of
       None \<Rightarrow> returnK (- 1)
     | Some old \<Rightarrow>
         bindK (arg_string 1) (\<lambda>new.
         case new of
           None \<Rightarrow> returnK (- 1)
         | Some new \<Rightarrow>
             bindK (namei old) (\<lambda>ip.
             case ip of None \<Rightarrow> returnK (- 1) | Some ip \<Rightarrow> link_trans ip new)))"

text \<open>The offsets \<open>for(off=2*sizeof(de); off<dp->size; off+=sizeof(de))\<close>.\<close>

primrec isdirempty_loop :: "nat \<Rightarrow> nat list \<Rightarrow> bool km" where
  "isdirempty_loop dp [] = returnK True"
| "isdirempty_loop dp (off # offs) =
     bindK (readi dp (word_of_nat off) 16) (\<lambda>(r, bs).
     if r \<noteq> 16 then panicK ''isdirempty: readi''
     else if de_inum (dirent_of bs) \<noteq> 0 then returnK False
     else isdirempty_loop dp offs)"

definition isdirempty :: "nat \<Rightarrow> bool km" where
  "isdirempty dp = bindK (get_inode dp) (\<lambda>d. isdirempty_loop dp (drop 2 (dir_offsets (i_size d))))"

text \<open>The label \<open>bad\<close> of \<open>sys_unlink\<close>.\<close>

definition unlink_bad :: "nat \<Rightarrow> int km" where
  "unlink_bad dp =
     bindK (iunlockput dp) (\<lambda>_.
     bindK commit_trans (\<lambda>_.
     returnK (- 1)))"

text \<open>What follows the tests of \<open>sys_unlink\<close>: both inodes are locked.\<close>

definition unlink_entry :: "nat \<Rightarrow> nat \<Rightarrow> uint \<Rightarrow> int km" where
  "unlink_entry dp ip off =
     bindK (writei dp (replicate 16 0) off) (\<lambda>r.
     if r \<noteq> 16 then panicK ''unlink: writei''
     else
       bindK (get_inode ip) (\<lambda>i.
       bindK (whenK (i_type i = T_DIR) (bump_nlink dp (- 1))) (\<lambda>_.
       bindK (iunlockput dp) (\<lambda>_.
       bindK (bump_nlink ip (- 1)) (\<lambda>_.
       bindK (iunlockput ip) (\<lambda>_.
       bindK commit_trans (\<lambda>_.
       returnK 0)))))))"

definition unlink_trans :: "nat \<Rightarrow> uchar list \<Rightarrow> int km" where
  "unlink_trans dp name =
     bindK begin_trans (\<lambda>_.
     bindK (ilock dp) (\<lambda>_.
     if namecmp name (str ''.'') = 0 \<or> namecmp name (str ''..'') = 0 then unlink_bad dp
     else
       bindK (dirlookup dp name) (\<lambda>found.
       case found of
         None \<Rightarrow> unlink_bad dp
       | Some (ip, off) \<Rightarrow>
           bindK (ilock ip) (\<lambda>_.
           bindK (get_inode ip) (\<lambda>i.
           if sint (i_nlink i) < 1 then panicK ''unlink: nlink < 1''
           else
             bindK (if i_type i = T_DIR then isdirempty ip else returnK True) (\<lambda>empty.
             if \<not> empty then bindK (iunlockput ip) (\<lambda>_. unlink_bad dp)
             else
               bindK cur_uid (\<lambda>u.
               if u \<noteq> 0 \<and> i_uid i \<noteq> u then bindK (iunlockput ip) (\<lambda>_. unlink_bad dp)
               else unlink_entry dp ip off)))))))"

definition sys_unlink :: "int km" where
  "sys_unlink =
     bindK (arg_string 0) (\<lambda>path.
     case path of
       None \<Rightarrow> returnK (- 1)
     | Some path \<Rightarrow>
         bindK (nameiparent path) (\<lambda>dp.
         case dp of None \<Rightarrow> returnK (- 1) | Some (dp, name) \<Rightarrow> unlink_trans dp name))"

section \<open>Creation\<close>

text \<open>The part of \<open>create\<close> for a name that does not exist: the parent \<open>dp\<close> is locked. \<open>ialloc\<close> never
  returns a null pointer.\<close>

definition create_new :: "nat \<Rightarrow> uchar list \<Rightarrow> ushort \<Rightarrow> ushort \<Rightarrow> ushort \<Rightarrow> nat km" where
  "create_new dp name type major minor =
     bindK (get_inode dp) (\<lambda>d.
     bindK (ialloc (i_dev d) type) (\<lambda>ip.
     bindK (ilock ip) (\<lambda>_.
     bindK cur_uid (\<lambda>u.
     bindK (upd_inode ip (\<lambda>i. i\<lparr>i_major := major, i_minor := minor, i_nlink := 1, i_uid := u\<rparr>)) (\<lambda>_.
     bindK (iupdate ip) (\<lambda>_.
     bindK (get_inode ip) (\<lambda>i.
     bindK (whenK (type = T_DIR)
       (bindK (bump_nlink dp 1) (\<lambda>_.
        bindK (dirlink ip (str ''.'') (of_nat (i_inum i))) (\<lambda>r.
        if r < 0 then panicK ''create dots''
        else
          bindK (dirlink ip (str ''..'') (of_nat (i_inum d))) (\<lambda>r.
          whenK (r < 0) (panicK ''create dots'')))))) (\<lambda>_.
     bindK (dirlink dp name (of_nat (i_inum i))) (\<lambda>r.
     if r < 0 then panicK ''create: dirlink''
     else
       bindK (iunlockput dp) (\<lambda>_.
       returnK ip))))))))))"

definition create :: "uchar list \<Rightarrow> ushort \<Rightarrow> ushort \<Rightarrow> ushort \<Rightarrow> nat option km" where
  "create path type major minor =
     bindK (nameiparent path) (\<lambda>dp.
     case dp of
       None \<Rightarrow> returnK None
     | Some (dp, name) \<Rightarrow>
         bindK (ilock dp) (\<lambda>_.
         bindK (dirlookup dp name) (\<lambda>found.
         case found of
           Some (ip, _) \<Rightarrow>
             bindK (iunlockput dp) (\<lambda>_.
             bindK (ilock ip) (\<lambda>_.
             bindK (get_inode ip) (\<lambda>i.
             if type = T_FILE \<and> i_type i = T_FILE then returnK (Some ip)
             else bindK (iunlockput ip) (\<lambda>_. returnK None))))
         | None \<Rightarrow> bindK (create_new dp name type major minor) (\<lambda>ip. returnK (Some ip)))))"

section \<open>Opening\<close>

definition O_WRONLY :: uint where "O_WRONLY = 1"
definition O_RDWR :: uint where "O_RDWR = 2"
definition O_CREAT :: uint where "O_CREAT = 0x100"

text \<open>The inode to open, locked: made if \<open>O_CREAT\<close> asks for it.\<close>

definition open_inode :: "uchar list \<Rightarrow> uint \<Rightarrow> nat option km" where
  "open_inode path omode =
     (if omode AND O_CREAT \<noteq> 0
      then
        bindK begin_trans (\<lambda>_.
        bindK (create path T_FILE 0 0) (\<lambda>ip.
        bindK commit_trans (\<lambda>_.
        returnK ip)))
      else
        bindK (namei path) (\<lambda>ip.
        case ip of
          None \<Rightarrow> returnK None
        | Some ip \<Rightarrow>
            bindK (ilock ip) (\<lambda>_.
            bindK (get_inode ip) (\<lambda>i.
            if i_type i = T_DIR \<and> omode \<noteq> 0 then bindK (iunlockput ip) (\<lambda>_. returnK None)
            else returnK (Some ip)))))"

text \<open>The descriptor for a locked inode.\<close>

definition open_file :: "nat \<Rightarrow> uint \<Rightarrow> int km" where
  "open_file ip omode =
     bindK filealloc (\<lambda>f.
     case f of
       None \<Rightarrow> bindK (iunlockput ip) (\<lambda>_. returnK (- 1))
     | Some f \<Rightarrow>
         bindK (fdalloc f) (\<lambda>fd.
         case fd of
           None \<Rightarrow>
             bindK (fileclose f) (\<lambda>_.
             bindK (iunlockput ip) (\<lambda>_.
             returnK (- 1)))
         | Some fd \<Rightarrow>
             bindK (iunlock ip) (\<lambda>_.
             bindK cur_uid (\<lambda>u.
             bindK (get_inode ip) (\<lambda>i.
             bindK (upd_file f (\<lambda>x. x\<lparr>f_type := FD_INODE, f_ip := ip, f_off := 0,
               f_readable := (omode AND O_WRONLY = 0),
               f_writable := ((omode AND O_WRONLY \<noteq> 0 \<or> omode AND O_RDWR \<noteq> 0) \<and> \<not> (u \<noteq> 0 \<and> i_uid i \<noteq> u))\<rparr>)) (\<lambda>_.
             returnK (int fd)))))))"

definition sys_open :: "int km" where
  "sys_open =
     bindK (arg_string 0) (\<lambda>path.
     case path of
       None \<Rightarrow> returnK (- 1)
     | Some path \<Rightarrow>
         bindK (argint 1) (\<lambda>omode.
         case omode of
           None \<Rightarrow> returnK (- 1)
         | Some omode \<Rightarrow>
             bindK (namei path) (\<lambda>ip.
             bindK (case ip of
                 None \<Rightarrow> returnK omode
               | Some ip \<Rightarrow>
                   bindK (ilock ip) (\<lambda>_.
                   bindK (get_inode ip) (\<lambda>i.
                   bindK (iunlockput ip) (\<lambda>_.
                   returnK (if i_type i = T_DEV then omode AND NOT O_CREAT else omode))))) (\<lambda>omode.
             bindK (open_inode path omode) (\<lambda>ip.
             case ip of None \<Rightarrow> returnK (- 1) | Some ip \<Rightarrow> open_file ip omode)))))"

text \<open>The common end of \<open>sys_mkdir\<close>, \<open>sys_mknod\<close> and \<open>sys_touch\<close>.\<close>

definition created :: "nat option \<Rightarrow> unit km \<Rightarrow> int km" where
  "created ip fail =
     (case ip of
        None \<Rightarrow>
          bindK fail (\<lambda>_.
          bindK commit_trans (\<lambda>_.
          returnK (- 1)))
      | Some ip \<Rightarrow>
          bindK (iunlockput ip) (\<lambda>_.
          bindK commit_trans (\<lambda>_.
          returnK 0)))"

definition sys_mkdir :: "int km" where
  "sys_mkdir =
     bindK begin_trans (\<lambda>_.
     bindK (arg_string 0) (\<lambda>path.
     bindK (case path of None \<Rightarrow> returnK None | Some path \<Rightarrow> create path T_DIR 0 0) (\<lambda>ip.
     created ip (returnK ()))))"

definition sys_mknod :: "int km" where
  "sys_mknod =
     bindK begin_trans (\<lambda>_.
     bindK (arg_string 0) (\<lambda>path.
     bindK (case path of
         None \<Rightarrow> returnK None
       | Some path \<Rightarrow>
           bindK (argint 1) (\<lambda>major.
           case major of
             None \<Rightarrow> returnK None
           | Some major \<Rightarrow>
               bindK (argint 2) (\<lambda>minor.
               case minor of
                 None \<Rightarrow> returnK None
               | Some minor \<Rightarrow> create path T_DEV (ucast major) (ucast minor)))) (\<lambda>ip.
     created ip (returnK ()))))"

definition sys_touch :: "int km" where
  "sys_touch =
     bindK begin_trans (\<lambda>_.
     bindK (arg_string 0) (\<lambda>path.
     case path of
       None \<Rightarrow>
         bindK (cprintf (str ''touch: path error!'' @ [10]) []) (\<lambda>_.
         bindK commit_trans (\<lambda>_.
         returnK (- 1)))
     | Some path \<Rightarrow>
         bindK (create path T_FILE 0 0) (\<lambda>ip.
         created ip (cprintf (str ''touch: can not create inode!'' @ [10]) []))))"

definition sys_chdir :: "int km" where
  "sys_chdir =
     bindK (arg_string 0) (\<lambda>path.
     case path of
       None \<Rightarrow> returnK (- 1)
     | Some path \<Rightarrow>
         bindK (namei path) (\<lambda>ip.
         case ip of
           None \<Rightarrow> returnK (- 1)
         | Some ip \<Rightarrow>
             bindK (ilock ip) (\<lambda>_.
             bindK (get_inode ip) (\<lambda>i.
             if i_type i \<noteq> T_DIR then bindK (iunlockput ip) (\<lambda>_. returnK (- 1))
             else
               bindK (iunlock ip) (\<lambda>_.
               bindK cur_cwd (\<lambda>old.
               bindK (iput old) (\<lambda>_.
               bindK myproc (\<lambda>p.
               bindK (upd_proc p (\<lambda>x. x\<lparr>p_cwd := Some ip\<rparr>)) (\<lambda>_.
               returnK 0)))))))))"

definition sys_pipe :: "int km" where
  "sys_pipe =
     bindK (argptr 0 8) (\<lambda>fd.
     case fd of
       None \<Rightarrow> returnK (- 1)
     | Some fd \<Rightarrow>
         bindK pipealloc (\<lambda>fs.
         case fs of
           None \<Rightarrow> returnK (- 1)
         | Some (rf, wrf) \<Rightarrow>
             bindK (fdalloc rf) (\<lambda>fd0.
             bindK (case fd0 of None \<Rightarrow> returnK None | Some _ \<Rightarrow> fdalloc wrf) (\<lambda>fd1.
             case (fd0, fd1) of
               (Some fd0, Some fd1) \<Rightarrow>
                 bindK (uwrite fd (word_bytes (of_nat fd0))) (\<lambda>_.
                 bindK (uwrite (fd + 4) (word_bytes (of_nat fd1))) (\<lambda>_.
                 returnK 0))
             | _ \<Rightarrow>
                 bindK (case fd0 of None \<Rightarrow> returnK () | Some fd0 \<Rightarrow> set_fd fd0 None) (\<lambda>_.
                 bindK (fileclose rf) (\<lambda>_.
                 bindK (fileclose wrf) (\<lambda>_.
                 returnK (- 1))))))))"

section \<open>The current directory\<close>

text \<open>The bytes \<open>safestrcpy(s, t, n)\<close> stores: after the NUL of a string that fits it stores one more.\<close>

definition safestrcpy_bytes :: "uchar list \<Rightarrow> int \<Rightarrow> uchar list" where
  "safestrcpy_bytes t n =
     (if n \<le> 0 then []
      else if length (cstring t) < nat (n - 1) then cstring t @ [0, 0]
      else take (nat (n - 1)) (cstring t) @ [0])"

text \<open>The name in \<open>parent\<close> of the inode \<open>ip\<close>, in a buffer of \<open>DIRSIZ\<close> bytes.\<close>

primrec name_of_inode_loop :: "nat \<Rightarrow> nat \<Rightarrow> nat list \<Rightarrow> uchar list option km" where
  "name_of_inode_loop inum parent [] = returnK None"
| "name_of_inode_loop inum parent (off # offs) =
     bindK (readi parent (word_of_nat off) 16) (\<lambda>(r, bs).
     if r \<noteq> 16 then panicK (''can'' @ [CHR 0x27] @ ''t read directory'')
     else
       let de = dirent_of bs in
       if unat (de_inum de) = inum then returnK (Some (take (DIRSIZ - 1) (cstring (de_name de))))
       else name_of_inode_loop inum parent offs)"

definition name_of_inode :: "nat \<Rightarrow> nat \<Rightarrow> uchar list option km" where
  "name_of_inode ip parent =
     bindK (get_inode ip) (\<lambda>i.
     bindK (get_inode parent) (\<lambda>d.
     name_of_inode_loop (i_inum i) parent (dir_offsets (i_size d))))"

text \<open>\<open>namei("/")->inum\<close> and \<open>dirlookup(ip, "..", 0)\<close>, both without a test for the null pointer. Each
  level of the recursion keeps a reference to another ancestor in the inode cache, so a directory tree
  is left after at most \<open>NINODE\<close> levels; the recursion is bounded by this depth.\<close>

primrec name_for_inode :: "nat \<Rightarrow> uint \<Rightarrow> int \<Rightarrow> nat \<Rightarrow> int km" where
  "name_for_inode 0 buf n ip = faultK ''name_for_inode''"
| "name_for_inode (Suc depth) buf n ip =
     bindK (get_inode ip) (\<lambda>i.
     bindK (namei (str ''/'')) (\<lambda>root.
     case root of
       None \<Rightarrow> faultK ''name_for_inode''
     | Some root \<Rightarrow>
         bindK (get_inode root) (\<lambda>r.
         if i_inum i = i_inum r then bindK (uwrite buf [0x2F]) (\<lambda>_. returnK 1)
         else if i_type i = T_DIR then
           bindK (dirlookup ip (str ''..'')) (\<lambda>found.
           case found of
             None \<Rightarrow> faultK ''name_for_inode''
           | Some (parent, _) \<Rightarrow>
               bindK (name_of_inode ip parent) (\<lambda>node_name.
               case node_name of
                 None \<Rightarrow> panicK ''could not find name of inode''
               | Some node_name \<Rightarrow>
                   bindK (name_for_inode depth buf n parent) (\<lambda>off.
                   bindK (uwrite (buf + word_of_int off) (safestrcpy_bytes node_name (n - off))) (\<lambda>_.
                   let off = off + int (length node_name) in
                   if off = n - 1
                   then bindK (uwrite (buf + word_of_int off) [0]) (\<lambda>_. returnK n)
                   else
                     bindK (uwrite (buf + word_of_int off) [0x2F]) (\<lambda>_.
                     bindK (iput parent) (\<lambda>_.
                     returnK (off + 1)))))))
         else if i_type i = T_DEV \<or> i_type i = T_FILE then panicK ''process cwd is not a directory''
         else panicK ''unknown inode type'')))"

definition sys_getcwd :: "int km" where
  "sys_getcwd =
     bindK (argint 1) (\<lambda>n.
     case n of
       None \<Rightarrow> returnK (- 1)
     | Some n \<Rightarrow>
         bindK (argptr 0 (sint n)) (\<lambda>p.
         case p of
           None \<Rightarrow> returnK (- 1)
         | Some p \<Rightarrow> bindK cur_cwd (name_for_inode (Suc NINODE) p (sint n))))"

end
