(* ===== verification/Exec.thy ===== *)
theory Exec
  imports Sysfile
begin

text \<open>
  Loading programs (kernel/exec.c), with \<open>loaduvm\<close> of kernel/vm.c and \<open>sys_execv\<close> of
  kernel/sysfile.c. The ELF headers are the records of kernel/include/elf.h restricted to the fields
  that the code reads.
\<close>

section \<open>ELF headers\<close>

definition ELF_MAGIC :: uint where "ELF_MAGIC = 0x464C457F"
definition ELF_PROG_LOAD :: uint where "ELF_PROG_LOAD = 1"
definition MAXARG :: nat where "MAXARG = 32"

record elfhdr =
  eh_magic :: uint
  eh_entry :: uint
  eh_phoff :: uint
  eh_phnum :: ushort

record proghdr =
  ph_type :: uint
  ph_off :: uint
  ph_vaddr :: uint
  ph_filesz :: uint
  ph_memsz :: uint

definition word_at :: "uchar list \<Rightarrow> nat \<Rightarrow> uint" where
  "word_at bs k = bytes_word (take 4 (drop k bs))"

definition elfhdr_of :: "uchar list \<Rightarrow> elfhdr" where
  "elfhdr_of bs = \<lparr>eh_magic = word_at bs 0, eh_entry = word_at bs 24, eh_phoff = word_at bs 28,
     eh_phnum = ucast (bs ! 44) OR push_bit 8 (ucast (bs ! 45))\<rparr>"

definition proghdr_of :: "uchar list \<Rightarrow> proghdr" where
  "proghdr_of bs = \<lparr>ph_type = word_at bs 0, ph_off = word_at bs 4, ph_vaddr = word_at bs 8,
     ph_filesz = word_at bs 16, ph_memsz = word_at bs 20\<rparr>"

section \<open>Segments\<close>

text \<open>The loop \<open>for(i = 0; i < sz; i += PGSIZE)\<close>; a wrap-around of \<open>i\<close> starts again at the first page and
  never ends.\<close>

function loaduvm_loop :: "uint \<Rightarrow> uint \<Rightarrow> nat \<Rightarrow> uint \<Rightarrow> uint \<Rightarrow> uint \<Rightarrow> int km" where
  "loaduvm_loop pgdir addr ip offset sz i =
     (if i < sz
      then
        bindK (walkpgdir pgdir (addr + i) False) (\<lambda>pte.
        if pte = 0 then panicK ''loaduvm: address should exist''
        else
          bindK (loadK pte) (\<lambda>e.
          let n = (if sz - i < PGSIZE then sz - i else PGSIZE) in
          bindK (readi ip (offset + i) n) (\<lambda>(r, bs).
          bindK (memK (\<lambda>m. put_bytes m (p2v (PTE_ADDR e)) bs)) (\<lambda>_.
          if word_of_int r \<noteq> n then returnK (- 1)
          else if i < i + PGSIZE then loaduvm_loop pgdir addr ip offset sz (i + PGSIZE)
          else faultK ''loaduvm''))))
      else returnK 0)"
  by auto

termination
  by (relation "measure (\<lambda>(_, _, _, _, _, i). 2 ^ 32 - unat i)")
    (auto simp: word_less_nat_alt intro!: diff_less_mono2)

declare loaduvm_loop.simps [simp del]

definition loaduvm :: "uint \<Rightarrow> uint \<Rightarrow> nat \<Rightarrow> uint \<Rightarrow> uint \<Rightarrow> int km" where
  "loaduvm pgdir addr ip offset sz =
     (if addr mod PGSIZE \<noteq> 0 then panicK ''loaduvm: addr must be page aligned''
      else loaduvm_loop pgdir addr ip offset sz 0)"

text \<open>The loop over the program headers: the size of the image, or \<open>None\<close> for \<open>goto bad\<close>.\<close>

primrec load_segments :: "uint \<Rightarrow> nat \<Rightarrow> nat \<Rightarrow> uint \<Rightarrow> uint \<Rightarrow> uint option km" where
  "load_segments pgdir ip 0 off sz = returnK (Some sz)"
| "load_segments pgdir ip (Suc k) off sz =
     bindK (readi ip off 32) (\<lambda>(r, bs).
     if r \<noteq> 32 then returnK None
     else
       let ph = proghdr_of bs in
       if ph_type ph \<noteq> ELF_PROG_LOAD then load_segments pgdir ip k (off + 32) sz
       else if ph_memsz ph < ph_filesz ph then returnK None
       else
         bindK (allocuvm pgdir sz (ph_vaddr ph + ph_memsz ph)) (\<lambda>sz.
         if sz = 0 then returnK None
         else
           bindK (loaduvm pgdir (ph_vaddr ph) ip (ph_off ph) (ph_filesz ph)) (\<lambda>r.
           if r < 0 then returnK None
           else load_segments pgdir ip k (off + 32) sz)))"

section \<open>Arguments\<close>

text \<open>The loop that pushes the argument strings: the stack pointer and the pushed addresses.\<close>

primrec push_args :: "uint \<Rightarrow> uchar list list \<Rightarrow> nat \<Rightarrow> uint \<Rightarrow> uint list \<Rightarrow> (uint \<times> uint list) option km" where
  "push_args pgdir [] argc sp us = returnK (Some (sp, us))"
| "push_args pgdir (a # as) argc sp us =
     (if argc \<ge> MAXARG then returnK None
      else
        let sp = (sp - of_nat (length a + 1)) AND NOT 3 in
        bindK (copyout pgdir sp (a @ [0])) (\<lambda>r.
        if r < 0 then returnK None
        else push_args pgdir as (argc + 1) sp (us @ [sp])))"

text \<open>\<open>ustack\<close>: a fake return address, \<open>argc\<close>, the address of \<open>argv\<close> and the array itself.\<close>

definition ustack :: "uint \<Rightarrow> uint list \<Rightarrow> uint list" where
  "ustack sp us = [0xffffffff, of_nat (length us), sp - of_nat (length us + 1) * 4] @ us @ [0]"

text \<open>The part of the path after its last slash.\<close>

definition last_elem :: "uchar list \<Rightarrow> uchar list" where
  "last_elem path = rev (takeWhile (\<lambda>c. c \<noteq> 0x2F) (rev path))"

section \<open>exec\<close>

text \<open>The label \<open>bad\<close>, with \<open>pgdir\<close> and \<open>ip\<close> as they are there.\<close>

definition exec_bad :: "uint \<Rightarrow> nat option \<Rightarrow> int km" where
  "exec_bad pgdir ip =
     bindK (whenK (pgdir \<noteq> 0) (freevm pgdir)) (\<lambda>_.
     bindK (case ip of None \<Rightarrow> returnK () | Some ip \<Rightarrow> iunlockput ip) (\<lambda>_.
     returnK (- 1)))"

definition exec_commit :: "uint \<Rightarrow> uint \<Rightarrow> uint \<Rightarrow> uint \<Rightarrow> uchar list \<Rightarrow> int km" where
  "exec_commit pgdir sz entry sp path =
     bindK myproc (\<lambda>p.
     bindK (get_proc p) (\<lambda>x.
     bindK (upd_proc p (\<lambda>x. x\<lparr>p_name := proc_name (last_elem path), p_pgdir := pgdir, p_sz := sz,
       p_tf := (p_tf x)\<lparr>tf_eip := entry, tf_esp := sp\<rparr>\<rparr>)) (\<lambda>_.
     bindK (switchuvm p) (\<lambda>_.
     bindK (freevm (p_pgdir x)) (\<lambda>_.
     returnK 0)))))"

text \<open>From the release of the inode on.\<close>

definition exec_stack :: "uint \<Rightarrow> uint \<Rightarrow> uint \<Rightarrow> uchar list \<Rightarrow> uchar list list \<Rightarrow> int km" where
  "exec_stack pgdir sz entry path argv =
     (let sz = PGROUNDUP sz in
      bindK (allocuvm pgdir sz (sz + 2 * PGSIZE)) (\<lambda>sz.
      if sz = 0 then exec_bad pgdir None
      else
        bindK (clearpteu pgdir (sz - 2 * PGSIZE)) (\<lambda>_.
        bindK (push_args pgdir argv 0 sz []) (\<lambda>r.
        case r of
          None \<Rightarrow> exec_bad pgdir None
        | Some (sp, us) \<Rightarrow>
            let st = ustack sp us; sp = sp - of_nat (length st) * 4 in
            bindK (copyout pgdir sp (concat (map word_bytes st))) (\<lambda>r.
            if r < 0 then exec_bad pgdir None else exec_commit pgdir sz entry sp path)))))"

text \<open>\<open>readi(...) < sizeof(elf)\<close> compares without a sign: a result of -1 passes the test, and the header is
  then what was on the stack.\<close>

definition exec :: "uchar list \<Rightarrow> uchar list list \<Rightarrow> int km" where
  "exec path argv =
     bindK (namei path) (\<lambda>ip.
     case ip of
       None \<Rightarrow> returnK (- 1)
     | Some ip \<Rightarrow>
         bindK (ilock ip) (\<lambda>_.
         bindK (readi ip 0 52) (\<lambda>(r, bs).
         if word_of_int r < (52 :: uint) then exec_bad 0 (Some ip)
         else if r < 0 then faultK ''exec''
         else
           let elf = elfhdr_of bs in
           if eh_magic elf \<noteq> ELF_MAGIC then exec_bad 0 (Some ip)
           else
             bindK setupkvm (\<lambda>pgdir.
             if pgdir = 0 then exec_bad 0 (Some ip)
             else
               bindK (load_segments pgdir ip (unat (eh_phnum elf)) (eh_phoff elf) 0) (\<lambda>sz.
               case sz of
                 None \<Rightarrow> exec_bad pgdir (Some ip)
               | Some sz \<Rightarrow>
                   bindK (iunlockput ip) (\<lambda>_.
                   exec_stack pgdir sz (eh_entry elf) path argv))))))"

text \<open>The loop of \<open>sys_execv\<close> over the argument vector, \<open>None\<close> for -1.\<close>

primrec execv_args :: "uint \<Rightarrow> nat \<Rightarrow> uchar list list option km" where
  "execv_args uargv 0 = returnK None"
| "execv_args uargv (Suc k) =
     bindK (fetchint uargv) (\<lambda>uarg.
     case uarg of
       None \<Rightarrow> returnK None
     | Some uarg \<Rightarrow>
         if uarg = 0 then returnK (Some [])
         else
           bindK (fetchstr uarg) (\<lambda>(r, _).
           if r < 0 then returnK None
           else
             bindK (uread uarg (nat r)) (\<lambda>a.
             bindK (execv_args (uargv + 4) k) (\<lambda>as.
             returnK (map_option (Cons a) as)))))"

definition sys_execv :: "int km" where
  "sys_execv =
     bindK (arg_string 0) (\<lambda>path.
     case path of
       None \<Rightarrow> returnK (- 1)
     | Some path \<Rightarrow>
         bindK (argint 1) (\<lambda>uargv.
         case uargv of
           None \<Rightarrow> returnK (- 1)
         | Some uargv \<Rightarrow>
             bindK (execv_args uargv MAXARG) (\<lambda>argv.
             case argv of None \<Rightarrow> returnK (- 1) | Some argv \<Rightarrow> exec path argv)))"

end
