(* ===== verification/Rtc.thy ===== *)
theory Rtc
  imports Syscall
begin

text \<open>
  The real-time clock (kernel/rtc.c) and the conversion of a date to seconds (\<open>mktime\<close> in
  kernel/include/rtc.h). The clock chip is a parameter: the byte it returns for each register.
\<close>

section \<open>The clock\<close>

text \<open>The macro \<open>bcd2dec\<close>, and the bit fields of \<open>DATE\<close> and \<open>TIME\<close>, which keep the low bits.\<close>

definition bcd2dec :: "uchar \<Rightarrow> int" where
  "bcd2dec b = uint (drop_bit 4 b) * 10 + uint (b AND 0xf)"

record date =
  d_dow :: int
  d_dom :: int
  d_month :: int
  d_year :: int

record time =
  t_hour :: int
  t_minute :: int
  t_second :: int

definition get_date :: "(nat \<Rightarrow> uchar) \<Rightarrow> date" where
  "get_date rtc = \<lparr>d_dow = take_bit 3 (bcd2dec (rtc 6)), d_dom = take_bit 5 (bcd2dec (rtc 7)),
     d_month = take_bit 4 (bcd2dec (rtc 8)), d_year = take_bit 7 (bcd2dec (rtc 9))\<rparr>"

definition get_time :: "(nat \<Rightarrow> uchar) \<Rightarrow> time" where
  "get_time rtc = \<lparr>t_hour = take_bit 5 (bcd2dec (rtc 4)), t_minute = take_bit 6 (bcd2dec (rtc 2)),
     t_second = take_bit 6 (bcd2dec (rtc 0))\<rparr>"

record tm =
  tm_sec :: int
  tm_min :: int
  tm_hour :: int
  tm_mday :: int
  tm_mon :: int
  tm_year :: int

text \<open>The years are positive, so that division truncates and rounds down alike.\<close>

definition mktime :: "tm \<Rightarrow> int" where
  "mktime tm =
     (let mon = tm_mon tm - 2;
          year = (if 0 \<ge> mon then tm_year tm - 1 else tm_year tm);
          mon = (if 0 \<ge> mon then mon + 12 else mon)
      in (((year div 4 - year div 100 + year div 400 + 367 * mon div 12 + tm_mday tm + year * 365 - 719499)
           * 24 + tm_hour tm) * 60 + tm_min tm) * 60 + tm_sec tm)"

definition get_date_time :: "(nat \<Rightarrow> uchar) \<Rightarrow> int" where
  "get_date_time rtc =
     (let d = get_date rtc; t = get_time rtc
      in mktime \<lparr>tm_sec = t_second t, tm_min = t_minute t, tm_hour = t_hour t, tm_mday = d_dom d,
           tm_mon = d_month d, tm_year = d_year d + 2000\<rparr>)"

text \<open>\<open>sys_time\<close> (sysproc.c) calls \<open>get_date_time\<close> without its argument: the parameter \<open>t\<close> is the word found
  in its place, to which the eight bytes of the result are written unless it is null.\<close>

definition time_bytes :: "int \<Rightarrow> uchar list" where
  "time_bytes r = word_bytes (word_of_int r) @ word_bytes (word_of_int (r div 2 ^ 32))"

definition sys_time :: "(nat \<Rightarrow> uchar) \<Rightarrow> uint \<Rightarrow> int km" where
  "sys_time rtc t =
     bindK (whenK (t \<noteq> 0) (uwrite t (time_bytes (get_date_time rtc)))) (\<lambda>_.
     returnK (uint (word_of_int (get_date_time rtc) :: uint)))"

section \<open>The calendar\<close>

definition leap :: "int \<Rightarrow> bool" where
  "leap y \<longleftrightarrow> 4 dvd y \<and> (\<not> 100 dvd y \<or> 400 dvd y)"

definition month_days :: "int \<Rightarrow> int \<Rightarrow> int" where
  "month_days y m = (if m = 2 then (if leap y then 29 else 28) else if m \<in> {4, 6, 9, 11} then 30 else 31)"

text \<open>The day after a date.\<close>

definition next_day :: "int \<times> int \<times> int \<Rightarrow> int \<times> int \<times> int" where
  "next_day = (\<lambda>(y, m, d).
     if d < month_days y m then (y, m, d + 1)
     else if m < 12 then (y, m + 1, 1)
     else (y + 1, 1, 1))"

definition tm_day :: "int \<times> int \<times> int \<Rightarrow> tm" where
  "tm_day = (\<lambda>(y, m, d). \<lparr>tm_sec = 0, tm_min = 0, tm_hour = 0, tm_mday = d, tm_mon = m, tm_year = y\<rparr>)"

lemma div_pred:
  assumes "0 < (k :: int)"
  shows "y div k = (y - 1) div k + (if k dvd y then 1 else 0)"
proof -
  define q r where "q = y div k" and "r = y mod k"
  have y: "y = k * q + r" "0 \<le> r" "r < k" using assms by (simp_all add: q_def r_def)
  show ?thesis
  proof (cases "r = 0")
    case True
    then have "y - 1 = k * (q - 1) + (k - 1)" using y by (simp add: algebra_simps)
    then have "(y - 1) div k = q - 1" using assms by (intro int_div_pos_eq [where r = "k - 1"]) auto
    with True show ?thesis by (simp add: q_def r_def mod_eq_0_iff_dvd)
  next
    case False
    then have "(y - 1) div k = q" using y by (intro int_div_pos_eq [where r = "r - 1"]) auto
    with False show ?thesis by (simp add: q_def r_def mod_eq_0_iff_dvd)
  qed
qed

text \<open>The leap days before the March of a year, and \<open>mktime\<close> in terms of them.\<close>

definition leaps :: "int \<Rightarrow> int" where
  "leaps y = y div 4 - y div 100 + y div 400"

lemma leap_cases:
  "(R \<Longrightarrow> Q) \<Longrightarrow> (Q \<Longrightarrow> P) \<Longrightarrow>
   (if P then 1 else 0) - (if Q then 1 else 0) + (if R then 1 else 0) = (if P \<and> (\<not> Q \<or> R) then 1 else (0 :: int))"
  by (cases P; cases Q; cases R) simp_all

lemma leap_count: "leaps y = leaps (y - 1) + (if leap y then 1 else 0)"
proof -
  have i: "100 dvd y" if "400 dvd y" by (rule dvd_trans [OF _ that]) simp
  have j: "4 dvd y" if "100 dvd y" by (rule dvd_trans [OF _ that]) simp
  have alg: "(a + p) - (b + q) + (c + r) = (a - b + c) + (p - q + r)" for a b c p q r :: int by simp
  have "leaps y = leaps (y - 1) +
      ((if 4 dvd y then 1 else 0) - (if 100 dvd y then 1 else 0) + (if 400 dvd y then 1 else 0))"
    unfolding leaps_def div_pred [of 4 y, OF zero_less_numeral] div_pred [of 100 y, OF zero_less_numeral]
      div_pred [of 400 y, OF zero_less_numeral] by (rule alg)
  also have "\<dots> = leaps (y - 1) + (if leap y then 1 else 0)" by (simp only: leap_cases [OF i j] leap_def)
  finally show ?thesis .
qed

lemma mktime_late:
  "3 \<le> m \<Longrightarrow> mktime (tm_day (y, m, d)) = 86400 * (leaps y + 367 * (m - 2) div 12 + d + y * 365 - 719499)"
  by (simp add: mktime_def tm_day_def Let_def leaps_def)

lemma mktime_early:
  "m \<le> 2 \<Longrightarrow> mktime (tm_day (y, m, d)) = 86400 * (leaps (y - 1) + 367 * (m + 10) div 12 + d + (y - 1) * 365 - 719499)"
  by (simp add: mktime_def tm_day_def Let_def leaps_def)

lemma mktime_february: "mktime (tm_day (y, 3, 1)) = mktime (tm_day (y, 2, month_days y 2)) + 86400"
  by (simp add: mktime_late mktime_early leap_count [of y] month_days_def)

lemma mktime_month_end:
  assumes "1 \<le> m" and "m < 12"
  shows "mktime (tm_day (y, m + 1, 1)) = mktime (tm_day (y, m, month_days y m)) + 86400"
proof (cases "m = 2")
  case False
  moreover have "m \<in> set [1..11]" using assms by simp
  ultimately have "m \<in> {1, 3, 4, 5, 6, 7, 8, 9, 10, 11}" by (simp add: upto_rec1 del: set_upto)
  then show ?thesis by (elim insertE) (simp_all add: mktime_late mktime_early month_days_def)
qed (use mktime_february in simp)

lemma mktime_year_end: "mktime (tm_day (y + 1, 1, 1)) = mktime (tm_day (y, 12, 31)) + 86400"
  by (simp add: mktime_late mktime_early)

lemma mktime_day: "mktime (tm_day (y, m, d + 1)) = mktime (tm_day (y, m, d)) + 86400"
  by (simp add: mktime_def tm_day_def Let_def algebra_simps)

definition valid_date :: "int \<times> int \<times> int \<Rightarrow> bool" where
  "valid_date = (\<lambda>(y, m, d). 1970 \<le> y \<and> 1 \<le> m \<and> m \<le> 12 \<and> 1 \<le> d \<and> d \<le> month_days y m)"

lemma mktime_next_day: "valid_date x \<Longrightarrow> mktime (tm_day (next_day x)) = mktime (tm_day x) + 86400"
proof -
  assume v: "valid_date x"
  obtain y m d where x: "x = (y, m, d)" by (cases x)
  consider "d < month_days y m" | "d = month_days y m" "m < 12" | "d = month_days y m" "m = 12"
    using v x by (force simp: valid_date_def)
  then show ?thesis
  proof cases
    case 1
    then show ?thesis by (simp add: x next_day_def mktime_day)
  next
    case 2
    then show ?thesis using v x mktime_month_end [of m y] by (simp add: next_day_def valid_date_def)
  next
    case 3
    then show ?thesis using mktime_year_end [of y] by (simp add: x next_day_def month_days_def)
  qed
qed

lemma month_days_pos: "1 \<le> month_days y m"
  by (simp add: month_days_def)

lemma valid_next_day: "valid_date x \<Longrightarrow> valid_date (next_day x)"
  using month_days_pos by (auto simp: valid_date_def next_day_def split: if_splits)

lemma valid_nth_day: "valid_date ((next_day ^^ n) (1970, 1, 1))"
  by (induction n) (simp_all add: valid_next_day, simp add: valid_date_def month_days_def)

text \<open>C17. \<open>mktime\<close> counts the days of the Gregorian calendar: the date \<open>n\<close> days after 1 January 1970 with a
  time of day is converted to \<open>86400 n\<close> plus the seconds of that time, leap years included.\<close>

theorem mktime_counts_days:
  "mktime ((tm_day ((next_day ^^ n) (1970, 1, 1)))\<lparr>tm_hour := h, tm_min := mi, tm_sec := sc\<rparr>) =
     86400 * int n + 3600 * h + 60 * mi + sc"
proof -
  have "mktime (tm_day ((next_day ^^ n) (1970, 1, 1))) = 86400 * int n"
  proof (induction n)
    case (Suc n)
    then show ?case using mktime_next_day [OF valid_nth_day [of n]] by simp
  qed (simp add: mktime_def tm_day_def Let_def)
  moreover have "mktime ((tm_day x)\<lparr>tm_hour := h, tm_min := mi, tm_sec := sc\<rparr>) =
      mktime (tm_day x) + 3600 * h + 60 * mi + sc" for x
    by (cases x) (simp add: mktime_def tm_day_def Let_def algebra_simps)
  ultimately show ?thesis by simp
qed

end
