(* ===== verification/Trap.thy ===== *)
theory Trap
  imports Exec Rtc
begin

text \<open>
  Interrupts and traps: console input (\<open>ttyintr\<close> in kernel/tty.c), the keyboard (kernel/kbd.c), the
  system call table (kernel/syscall.c) and \<open>trap\<close> (kernel/trap.c). The bytes that wait at the keyboard
  or the serial port when its handler runs are a parameter.
\<close>

section \<open>Console input\<close>

definition upd_input :: "(inputst \<Rightarrow> inputst) \<Rightarrow> unit km" where
  "upd_input g = modifyK (\<lambda>s. s\<lparr>input := g (input s)\<rparr>)"

definition in_cell :: "inputst \<Rightarrow> uint \<Rightarrow> uchar" where
  "in_cell i k = in_buf i (unat (k mod INPUT_BUF))"

text \<open>\<open>while(input.e != input.w && input.buf[(input.e-1) % INPUT_BUF] != '\n')\<close>, by the number of bytes
  between \<open>w\<close> and \<open>e\<close>.\<close>

primrec kill_line :: "nat \<Rightarrow> unit km" where
  "kill_line 0 = returnK ()"
| "kill_line (Suc n) =
     bindK (getsK input) (\<lambda>i.
     if in_cell i (in_e i - 1) \<noteq> 10
     then
       bindK (upd_input (\<lambda>i. i\<lparr>in_e := in_e i - 1\<rparr>)) (\<lambda>_.
       bindK (consputc BACKSPACE) (\<lambda>_.
       kill_line n))
     else returnK ())"

definition store_char :: "uchar \<Rightarrow> inputst \<Rightarrow> inputst" where
  "store_char c i = i\<lparr>in_buf := (in_buf i)(unat (in_e i mod INPUT_BUF) := c), in_e := in_e i + 1\<rparr>"

text \<open>One turn of the loop of \<open>ttyintr\<close>. The codes 16, 23, 8 and 3 are \<open>C('P')\<close>, \<open>C('W')\<close>, \<open>C('H')\<close> and
  \<open>C('C')\<close>.\<close>

definition tty_char :: "int \<Rightarrow> unit km" where
  "tty_char c =
     bindK (getsK input) (\<lambda>i.
     if c = 16 then procdump
     else if c = 23 then kill_line (unat (in_e i - in_w i))
     else if c = 8 \<or> c = 0x7f then
       whenK (in_e i \<noteq> in_w i)
         (bindK (upd_input (\<lambda>i. i\<lparr>in_e := in_e i - 1\<rparr>)) (\<lambda>_.
          consputc BACKSPACE))
     else if c = 3 then killcur
     else
       whenK (c \<noteq> 0 \<and> in_e i - in_r i < INPUT_BUF)
         (let c = (if c = 13 then 10 else c) in
          bindK (upd_input (store_char (word_of_int c))) (\<lambda>_.
          bindK (consputc c) (\<lambda>_.
          bindK (getsK input) (\<lambda>i.
          whenK (c = 10 \<or> c = 3 \<or> in_e i = in_r i + INPUT_BUF)
            (bindK (upd_input (\<lambda>i. i\<lparr>in_w := in_e i\<rparr>)) (\<lambda>_.
             modifyK (wakeup Chan_input))))))))"

text \<open>\<open>while((c = getc()) >= 0)\<close> for the driver \<open>getc\<close> and the bytes it finds waiting.\<close>

primrec ttyintr :: "(uint \<Rightarrow> int km) \<Rightarrow> uint list \<Rightarrow> unit km" where
  "ttyintr getc [] = returnK ()"
| "ttyintr getc (d # ds) = bindK (getc d) (\<lambda>c. if c \<ge> 0 then bindK (tty_char c) (\<lambda>_. ttyintr getc ds) else returnK ())"

section \<open>Serial port and keyboard\<close>

definition uartgetc :: "uint \<Rightarrow> int km" where
  "uartgetc d = getsK (\<lambda>s. if con_uart (cons s) then uint d else - 1)"

definition uartintr :: "uint list \<Rightarrow> unit km" where
  "uartintr ds = ttyintr uartgetc ds"

text \<open>The key maps (kernel/include/kbd.h). The entries from 0x80 on are the same in all maps but for the
  enter and slash keys of the keypad.\<close>

definition key_table :: "uchar list \<Rightarrow> uchar \<Rightarrow> uchar \<Rightarrow> nat \<Rightarrow> uchar" where
  "key_table low enter slash k =
     (if k < length low then low ! k
      else if k = 0x9C then enter else if k = 0xB5 then slash
      else if k = 0xC8 then 0xE2 else if k = 0xD0 then 0xE3
      else if k = 0xC9 then 0xE6 else if k = 0xD1 then 0xE7
      else if k = 0xCB then 0xE4 else if k = 0xCD then 0xE5
      else if k = 0x97 then 0xE0 else if k = 0xCF then 0xE1
      else if k = 0xD2 then 0xE8 else if k = 0xD3 then 0xE9
      else 0)"

definition keypad :: "uchar list" where
  "keypad = [0, 0x20, 0, 0, 0, 0, 0, 0, 0, 0, 0, 0, 0, 0, 0] @ str ''789-456+1230.''"

definition normalmap :: "nat \<Rightarrow> uchar" where
  "normalmap = key_table ([0, 0x1B] @ str ''1234567890-='' @ [8, 9] @ str ''qwertyuiop[]'' @ [10, 0] @
     str ''asdfghjkl;'' @ [0x27, 0x60, 0, 0x5C] @ str ''zxcvbnm,./'' @ [0, 0x2A] @ keypad) 10 0x2F"

definition shiftmap :: "nat \<Rightarrow> uchar" where
  "shiftmap = key_table ([0, 0x1B] @ str ''!@#$%^&*()_+'' @ [8, 9] @ str ''QWERTYUIOP{}'' @ [10, 0] @
     str ''ASDFGHJKL:'' @ [0x22, 0x7E, 0, 0x7C] @ str ''ZXCVBNM<>?'' @ [0, 0x2A] @ keypad) 10 0x2F"

text \<open>\<open>C(x)\<close> is \<open>x - '@'\<close>.\<close>

definition ctl :: "string \<Rightarrow> uchar list" where
  "ctl cs = map (\<lambda>c. c - 0x40) (str cs)"

definition ctlmap :: "nat \<Rightarrow> uchar" where
  "ctlmap = key_table (replicate 16 0 @ ctl ''QWERTYUIOP'' @ [0, 0, 13, 0] @ ctl ''ASDFGHJKL'' @
     [0, 0, 0, 0, 0x1C] @ ctl ''ZXCVBNM'' @ [0, 0] @ ctl ''/'' @ [0, 0]) 13 (0x2F - 0x40)"

definition shiftcode :: "nat \<Rightarrow> uint" where
  "shiftcode k = (if k \<in> {0x1D, 0x9D} then 2 else if k \<in> {0x2A, 0x36} then 1 else if k \<in> {0x38, 0xB8} then 4 else 0)"

definition togglecode :: "nat \<Rightarrow> uint" where
  "togglecode k = (if k = 0x3A then 8 else if k = 0x45 then 16 else if k = 0x46 then 32 else 0)"

definition E0ESC :: uint where "E0ESC = 64"
definition CAPSLOCK :: uint where "CAPSLOCK = 8"

text \<open>\<open>charcode[shift & (CTL | SHIFT)]\<close>.\<close>

definition charcode :: "uint \<Rightarrow> nat \<Rightarrow> uchar" where
  "charcode k = (if k = 0 then normalmap else if k = 1 then shiftmap else ctlmap)"

definition caps :: "uint \<Rightarrow> uint" where
  "caps c = (if 0x61 \<le> c \<and> c \<le> 0x7A then c - 0x20 else if 0x41 \<le> c \<and> c \<le> 0x5A then c + 0x20 else c)"

definition led_bit :: "uint \<Rightarrow> uchar" where
  "led_bit data = (if data = 0x3A then 4 else if data = 0x45 then 2 else if data = 0x46 then 1 else 0)"

text \<open>\<open>kbdgetc\<close> when the controller has the byte \<open>data\<close> ready.\<close>

definition kbdgetc :: "uint \<Rightarrow> int km" where
  "kbdgetc data =
     bindK (getsK kbd_shift) (\<lambda>shift.
     if data = 0xE0
     then bindK (modifyK (\<lambda>s. s\<lparr>kbd_shift := shift OR E0ESC\<rparr>)) (\<lambda>_. returnK 0)
     else if data AND 0x80 \<noteq> 0
     then
       let data = (if shift AND E0ESC \<noteq> 0 then data else data AND 0x7F) in
       bindK (modifyK (\<lambda>s. s\<lparr>kbd_shift := shift AND NOT (shiftcode (unat data) OR E0ESC)\<rparr>)) (\<lambda>_.
       returnK 0)
     else
       let (data, shift) =
             (if shift AND E0ESC \<noteq> 0 then (data OR 0x80, shift AND NOT E0ESC) else (data, shift));
           shift = (shift OR shiftcode (unat data)) XOR togglecode (unat data);
           c = ucast (charcode (shift AND 3) (unat data));
           c = (if shift AND CAPSLOCK \<noteq> 0 then caps c else c)
       in
       bindK (modifyK (\<lambda>s. s\<lparr>kbd_shift := shift, led_status := led_status s XOR led_bit data\<rparr>)) (\<lambda>_.
       returnK (uint c)))"

definition kbdintr :: "uint list \<Rightarrow> unit km" where
  "kbdintr ds = ttyintr kbdgetc ds"

section \<open>The system call table\<close>

text \<open>The parameters are those of \<open>sys_sethostname\<close> and \<open>sys_time\<close>: the word in the place of a missing
  argument and the clock chip.\<close>

definition syscalls :: "uint \<Rightarrow> (nat \<Rightarrow> uchar) \<Rightarrow> int km list" where
  "syscalls junk rtc =
     [sys_fork, sys_exit, sys_wait, sys_pipe, sys_read, sys_kill, sys_execv, sys_fstat, sys_chdir,
      sys_dup, sys_getpid, sys_sbrk, sys_sleep, sys_uptime, sys_open, sys_write, sys_mknod, sys_unlink,
      sys_link, sys_mkdir, sys_close, sys_getcwd, sys_shutdown, sys_lseek, sys_touch, sys_reboot,
      sys_time rtc junk, sys_gethostname junk, sys_sethostname junk, sys_getuid, sys_setuid junk]"

definition set_eax :: "int \<Rightarrow> unit km" where
  "set_eax r = bindK myproc (\<lambda>p. upd_proc p (\<lambda>x. x\<lparr>p_tf := (p_tf x)\<lparr>tf_eax := word_of_int r\<rparr>\<rparr>))"

definition syscall :: "uint \<Rightarrow> (nat \<Rightarrow> uchar) \<Rightarrow> unit km" where
  "syscall junk rtc =
     bindK myproc (\<lambda>p.
     bindK (get_proc p) (\<lambda>x.
     let num = sint (tf_eax (p_tf x)) in
     if num > 0 \<and> num < 32
     then bindK (syscalls junk rtc ! nat (num - 1)) set_eax
     else
       bindK (cprintf (str ''%d %s: unknown sys call %d'' @ [10])
         [Arg_int (word_of_int (p_pid x)), Arg_str (Some (p_name x)), Arg_int (tf_eax (p_tf x))]) (\<lambda>_.
       set_eax (- 1))))"

section \<open>Traps\<close>

definition T_SYSCALL :: uint where "T_SYSCALL = 64"
definition T_IRQ0 :: uint where "T_IRQ0 = 32"

text \<open>\<open>if(proc->killed) exit(0)\<close> after a system call.\<close>

definition exit_if_killed :: "unit km" where
  "exit_if_killed = bindK cur_killed (\<lambda>k. if k then Exits else returnK ())"

text \<open>\<open>if(proc && proc->killed && (tf->cs&3) == DPL_USER) exit(0)\<close>.\<close>

definition exit_if_killed_user :: "trapframe \<Rightarrow> unit km" where
  "exit_if_killed_user tf =
     bindK (getsK cur) (\<lambda>c.
     case c of
       None \<Rightarrow> returnK ()
     | Some p \<Rightarrow>
         bindK (get_proc p) (\<lambda>x.
         if p_killed x \<and> tf_cs tf AND 3 = 3 then Exits else returnK ()))"

text \<open>The \<open>switch\<close> on the trap number. The acknowledgement of the interrupt at the local APIC is left out,
  and so is \<open>ideintr\<close>, which does nothing for the memory disk.\<close>

definition trap_switch :: "trapframe \<Rightarrow> nat \<Rightarrow> uint list \<Rightarrow> uint \<Rightarrow> unit km" where
  "trap_switch tf cpu ds cr2 =
     (let n = tf_trapno tf in
      if n = T_IRQ0 then
        whenK (cpu = 0) (modifyK (\<lambda>s. wakeup Chan_ticks (s\<lparr>ticks := ticks s + 1\<rparr>)))
      else if n = T_IRQ0 + 14 \<or> n = T_IRQ0 + 15 then returnK ()
      else if n = T_IRQ0 + 1 then kbdintr ds
      else if n = T_IRQ0 + 4 then uartintr ds
      else if n = T_IRQ0 + 7 \<or> n = T_IRQ0 + 31 then
        cprintf (str ''cpu%d: spurious interrupt at %x:%x'' @ [10])
          [Arg_int (of_nat cpu), Arg_int (ucast (tf_cs tf)), Arg_int (tf_eip tf)]
      else
        bindK (getsK cur) (\<lambda>c.
        case c of
          Some p \<Rightarrow>
            if tf_cs tf AND 3 \<noteq> 0 then upd_proc p (\<lambda>x. x\<lparr>p_killed := True\<rparr>)
            else
              bindK (cprintf (str ''unexpected trap %d from cpu %d eip %x (cr2=0x%x)'' @ [10])
                [Arg_int n, Arg_int (of_nat cpu), Arg_int (tf_eip tf), Arg_int cr2]) (\<lambda>_.
              panicK ''trap'')
        | None \<Rightarrow>
            bindK (cprintf (str ''unexpected trap %d from cpu %d eip %x (cr2=0x%x)'' @ [10])
              [Arg_int n, Arg_int (of_nat cpu), Arg_int (tf_eip tf), Arg_int cr2]) (\<lambda>_.
            panicK ''trap'')))"

text \<open>The end of \<open>trap\<close>. A process that yields runs its last test, \<open>exit_if_killed_user\<close>, when it is
  scheduled again.\<close>

definition trap_end :: "trapframe \<Rightarrow> unit km" where
  "trap_end tf =
     bindK (exit_if_killed_user tf) (\<lambda>_.
     bindK (getsK cur) (\<lambda>c.
     bindK (getsK procs) (\<lambda>ps.
     case c of
       Some p \<Rightarrow>
         if p_state (ps p) = RUNNING \<and> tf_trapno tf = T_IRQ0 then yield
         else exit_if_killed_user tf
     | None \<Rightarrow> returnK ())))"

definition trap :: "uint \<Rightarrow> (nat \<Rightarrow> uchar) \<Rightarrow> nat \<Rightarrow> uint list \<Rightarrow> uint \<Rightarrow> trapframe \<Rightarrow> unit km" where
  "trap junk rtc cpu ds cr2 tf =
     (if tf_trapno tf = T_SYSCALL
      then
        bindK exit_if_killed (\<lambda>_.
        bindK myproc (\<lambda>p.
        bindK (upd_proc p (\<lambda>x. x\<lparr>p_tf := tf\<rparr>)) (\<lambda>_.
        bindK (syscall junk rtc) (\<lambda>_.
        exit_if_killed))))
      else bindK (trap_switch tf cpu ds cr2) (\<lambda>_. trap_end tf))"

end
