(* ===== verification/Proc_Frame.thy ===== *)
theory Proc_Frame
  imports Trap
begin

text \<open>
  What the system calls and interrupts leave alone of the process table (kernel/proc.c): but for fork, exit,
  wait and the scheduler they change it only by waking processes up. A relation between states that is
  reflexive and transitive is kept by an operation that is put together from operations that keep it, so
  that the proofs follow the code component by component.
\<close>

section \<open>Frames\<close>

text \<open>The state an operation leaves behind when it returns, goes to sleep or exits.\<close>

fun left_state :: "'a outcome \<Rightarrow> kernel option" where
  "left_state (Ok x t) = Some t"
| "left_state (Sleeps c t) = Some t"
| "left_state (Exits t) = Some t"
| "left_state (Panic e) = None"
| "left_state (Faults e) = None"

locale frame =
  fixes R :: "kernel \<Rightarrow> kernel \<Rightarrow> bool"
  assumes refl: "R s s" and trans: "R s t \<Longrightarrow> R t u \<Longrightarrow> R s u"
begin

definition keeps :: "'a km \<Rightarrow> bool" where
  "keeps m \<longleftrightarrow> (\<forall>s t. left_state (m s) = Some t \<longrightarrow> R s t)"

lemma keepsI: "(\<And>s t. left_state (m s) = Some t \<Longrightarrow> R s t) \<Longrightarrow> keeps m"
  by (simp add: keeps_def)

lemma keeps_Ok: "keeps m \<Longrightarrow> m s = Ok x t \<Longrightarrow> R s t"
  by (simp add: keeps_def)

lemma keeps_bind:
  assumes "keeps m" and "\<And>x. keeps (f x)"
  shows "keeps (bindK m f)"
proof (rule keepsI)
  fix s t
  assume t: "left_state (bindK m f s) = Some t"
  show "R s t"
  proof (cases "m s")
    case (Ok x u)
    then show ?thesis using t assms(1) assms(2) [of x] trans [of s u t] by (simp add: keeps_def)
  qed (use t assms(1) in \<open>simp_all add: keeps_def\<close>)
qed

lemma keeps_simple:
  "keeps (returnK x)" "keeps (getsK h)" "keeps (panicK e)" "keeps (faultK e)" "keeps (Sleeps c)" "keeps Exits"
  by (simp_all add: keeps_def refl)

lemma keeps_modify: "(\<And>s. R s (g s)) \<Longrightarrow> keeps (modifyK g)"
  by (simp add: keeps_def)

lemma keeps_if: "(c \<Longrightarrow> keeps m) \<Longrightarrow> (\<not> c \<Longrightarrow> keeps m') \<Longrightarrow> keeps (if c then m else m')"
  by simp

lemma keeps_when: "(c \<Longrightarrow> keeps m) \<Longrightarrow> keeps (whenK c m)"
  by (cases c) (simp_all add: keeps_simple)

lemma keeps_for: "(\<And>i. keeps (body i)) \<Longrightarrow> keeps (forK is body)"
  by (induction "is") (simp_all add: keeps_simple keeps_bind)

lemma keeps_option: "(\<And>x. keeps (f x)) \<Longrightarrow> keeps n \<Longrightarrow> keeps (case z of None \<Rightarrow> n | Some x \<Rightarrow> f x)"
  by (cases z) simp_all

lemma keeps_prod: "(\<And>x y. keeps (f x y)) \<Longrightarrow> keeps (case z of (x, y) \<Rightarrow> f x y)"
  by (cases z) simp

lemma keeps_Let: "(\<And>x. keeps (f x)) \<Longrightarrow> keeps (Let z f)"
  by simp

lemma keeps_fdtype: "keeps n \<Longrightarrow> keeps p \<Longrightarrow> keeps i \<Longrightarrow> keeps (case z of FD_NONE \<Rightarrow> n | FD_PIPE \<Rightarrow> p | FD_INODE \<Rightarrow> i)"
  by (cases z) simp_all

lemmas keeps_intros =
  keeps_bind keeps_simple keeps_if keeps_when keeps_for keeps_option keeps_prod keeps_Let keeps_fdtype

end

section \<open>The process table\<close>

text \<open>Sleeping processes may have become runnable; apart from that nobody's state, number, parent or channel has
  changed, and neither has who runs.\<close>

definition calm :: "kernel \<Rightarrow> kernel \<Rightarrow> bool" where
  "calm s t \<longleftrightarrow> cur t = cur s \<and> initproc t = initproc s \<and> nextpid t = nextpid s \<and>
     (\<forall>p. p_pid (procs t p) = p_pid (procs s p) \<and> p_parent (procs t p) = p_parent (procs s p) \<and>
          p_chan (procs t p) = p_chan (procs s p) \<and>
          (p_state (procs t p) = p_state (procs s p) \<or>
           (p_state (procs s p) = SLEEPING \<and> p_state (procs t p) = RUNNABLE)))"

interpretation pt: frame calm
proof
  fix s t u
  show "calm s s" by (simp add: calm_def)
  show "calm s t \<Longrightarrow> calm t u \<Longrightarrow> calm s u" unfolding calm_def by (metis procstate.distinct(17))
qed

named_theorems calm \<open>operations that change the process table only by waking processes up\<close>

lemma calm_wakeup1: "calm s (wakeup1 c s)"
  by (simp add: calm_def wakeup1_def)

lemma calm_wakeup [calm]: "pt.keeps (modifyK (wakeup c))" "pt.keeps (modifyK (wakeup1 c'))"
  by (rule pt.keeps_modify, simp add: wakeup_def calm_wakeup1)+

lemma calm_global: "cur t = cur s \<Longrightarrow> initproc t = initproc s \<Longrightarrow> nextpid t = nextpid s \<Longrightarrow> procs t = procs s \<Longrightarrow> calm s t"
  by (simp add: calm_def)

text \<open>Assignments to the other global variables and to other fields of a process.\<close>

lemma calm_assign [calm]:
  "pt.keeps (modifyK (\<lambda>s. s\<lparr>kmem := k s\<rparr>))" "pt.keeps (modifyK (\<lambda>s. s\<lparr>inodes := i s\<rparr>))"
  "pt.keeps (modifyK (\<lambda>s. s\<lparr>files := f s\<rparr>))" "pt.keeps (modifyK (\<lambda>s. s\<lparr>logs := l s\<rparr>))"
  "pt.keeps (modifyK (\<lambda>s. s\<lparr>pipes := p s\<rparr>))" "pt.keeps (modifyK (\<lambda>s. s\<lparr>bufs := b s\<rparr>))"
  "pt.keeps (modifyK (\<lambda>s. s\<lparr>cr3 := a s\<rparr>))" "pt.keeps (modifyK (\<lambda>s. s\<lparr>kpgdir := a s\<rparr>))"
  "pt.keeps (modifyK (\<lambda>s. s\<lparr>cons := c s\<rparr>))" "pt.keeps (modifyK (\<lambda>s. s\<lparr>input := n s\<rparr>))"
  "pt.keeps (modifyK (\<lambda>s. s\<lparr>kbd_shift := h s\<rparr>))" "pt.keeps (modifyK (\<lambda>s. s\<lparr>kbd_shift := h s, led_status := e s\<rparr>))"
  "pt.keeps (modifyK (\<lambda>s. s\<lparr>hostname_len := u s, hostname := v s\<rparr>))" "pt.keeps (modifyK (\<lambda>s. s\<lparr>devs := d s\<rparr>))"
  by (rule pt.keeps_modify, rule calm_global, simp_all)+

lemma calm_tick [calm]: "pt.keeps (modifyK (\<lambda>s. wakeup c (s\<lparr>ticks := g s\<rparr>)))"
  by (rule pt.keeps_modify) (simp add: calm_def wakeup_def wakeup1_def)

lemma calm_upd_proc [calm]:
  "(\<And>x. p_pid (g x) = p_pid x) \<Longrightarrow> (\<And>x. p_parent (g x) = p_parent x) \<Longrightarrow> (\<And>x. p_chan (g x) = p_chan x) \<Longrightarrow>
   (\<And>x. p_state (g x) = p_state x \<or> p_state x = SLEEPING \<and> p_state (g x) = RUNNABLE) \<Longrightarrow> pt.keeps (upd_proc p g)"
  unfolding upd_proc_def by (rule pt.keeps_modify) (simp add: calm_def)

subsection \<open>Buffers\<close>

lemma calm_bget [calm]: "pt.keeps (bget dev sector)"
  by (rule pt.keepsI) (auto simp: bget_def set_buf_def calm_def split: option.splits if_splits)

lemma calm_memiderw [calm]: "pt.keeps (memiderw b)"
  by (rule pt.keepsI) (auto simp: memiderw_def set_buf_def calm_def Let_def split: if_splits)

lemma calm_bwrite [calm]: "pt.keeps (bwrite b)"
proof (rule pt.keepsI)
  fix s t
  assume "left_state (bwrite b s) = Some t"
  then have m: "left_state (memiderw b (set_buf b (\<lambda>x. x\<lparr>b_dirty := True\<rparr>) s)) = Some t"
    by (simp add: bwrite_def split: if_splits)
  have "calm (set_buf b (\<lambda>x. x\<lparr>b_dirty := True\<rparr>) s) t"
    using calm_memiderw [of b] m unfolding pt.keeps_def by blast
  then show "calm s t" by (simp add: calm_def set_buf_def)
qed

lemma calm_brelse [calm]: "pt.keeps (brelse b)"
proof (rule pt.keepsI)
  fix s t
  let ?u = "set_buf b (\<lambda>x. x\<lparr>b_busy := False\<rparr>) (s\<lparr>bufs := link_front b (unlink b (bufs s))\<rparr>)"
  assume "left_state (brelse b s) = Some t"
  then have "t = wakeup (Chan_buf b) ?u" by (auto simp: brelse_def Let_def split: if_splits)
  moreover have "calm s ?u" by (simp add: calm_def set_buf_def)
  ultimately show "calm s t" using pt.trans calm_wakeup1 unfolding wakeup_def by blast
qed

lemma calm_buffers [calm]:
  "pt.keeps (bdata b)" "pt.keeps (bdev b)" "pt.keeps (bsector b)" "pt.keeps (set_bdata b d)" "pt.keeps (set_dirty b)" "pt.keeps (bread dev k)"
  unfolding bdata_def bdev_def bsector_def set_bdata_def set_dirty_def set_buf_def bread_def
  by (intro pt.keeps_intros calm)+

lemma calm_begin_trans [calm]: "pt.keeps begin_trans"
  by (rule pt.keepsI) (auto simp: begin_trans_def calm_def split: if_splits)

subsection \<open>The log\<close>

lemma calm_Log_1 [calm]:
  "pt.keeps (readsb x1)" "pt.keeps (set_n x2)" "pt.keeps (set_sector x3 x4)" "pt.keeps install_trans"
    "pt.keeps write_head"
  unfolding readsb_def set_n_def set_sector_def install_trans_def write_head_def
  by (intro pt.keeps_intros calm; simp?)+

lemma calm_Log_2 [calm]:
  "pt.keeps commit_trans" "pt.keeps (log_write x1)"
  unfolding commit_trans_def log_write_def
  by (intro pt.keeps_intros calm; simp?)+

subsection \<open>Blocks\<close>

lemma calm_Blocks_1 [calm]:
  "pt.keeps (bzero x1 x2)" "pt.keeps (bfree x3 x4)"
  unfolding bzero_def bfree_def
  by (intro pt.keeps_intros calm; simp?)+

lemma calm_balloc_loop [calm]: "pt.keeps (balloc_loop x1 x2 x3)"
proof (induction x3 arbitrary: x1 x2)
  case Nil
  show ?case unfolding balloc_loop.simps by (intro pt.keeps_intros calm)
next
  case (Cons y ys)
  show ?case unfolding balloc_loop.simps by (intro pt.keeps_intros calm Cons)
qed

lemma calm_Blocks_2 [calm]:
  "pt.keeps (balloc x1)"
  unfolding balloc_def
  by (intro pt.keeps_intros calm; simp?)+

subsection \<open>Inodes\<close>

lemma calm_Inode_1 [calm]:
  "pt.keeps (upd_inode x1 x2)" "pt.keeps (get_inode x3)" "pt.keeps (stati x4)"
  unfolding upd_inode_def get_inode_def stati_def
  by (intro pt.keeps_intros calm; simp?)+

lemma calm_Inode_2 [calm]:
  "pt.keeps (iupdate x1)" "pt.keeps (idup x2)" "pt.keeps (ilock x3)" "pt.keeps (iunlock x4)"
    "pt.keeps (set_addr x5 x6 x7)"
  unfolding iupdate_def idup_def ilock_def iunlock_def set_addr_def
  by (intro pt.keeps_intros calm; simp?)+

lemma calm_iget [calm]: "pt.keeps (iget dev inum)"
  by (rule pt.keepsI) (auto simp: iget_def upd_inode_def calm_def split: option.splits)

lemma calm_Inode_3 [calm]:
  "pt.keeps (get_or_alloc x1 x2)" "pt.keeps (itrunc x3)"
  unfolding get_or_alloc_def itrunc_def
  by (intro pt.keeps_intros calm; simp?)+

lemma calm_ialloc_loop [calm]: "pt.keeps (ialloc_loop x1 x2 x3)"
proof (induction x3 arbitrary: x1 x2)
  case Nil
  show ?case unfolding ialloc_loop.simps by (intro pt.keeps_intros calm)
next
  case (Cons y ys)
  show ?case unfolding ialloc_loop.simps by (intro pt.keeps_intros calm Cons)
qed

lemma calm_Inode_4 [calm]:
  "pt.keeps (ialloc x1 x2)" "pt.keeps (bmap x3 x4)" "pt.keeps (iput x5)"
  unfolding ialloc_def bmap_def iput_def
  by (intro pt.keeps_intros calm; simp?)+

lemma calm_Inode_5 [calm]:
  "pt.keeps (iunlockput x1)"
  unfolding iunlockput_def
  by (intro pt.keeps_intros calm; simp?)+

subsection \<open>Memory\<close>

lemma calm_Kalloc_1 [calm]:
  "pt.keeps (kfree x1)" "pt.keeps kalloc"
  unfolding kfree_def kalloc_def
  by (intro pt.keeps_intros calm; simp?)+

subsection \<open>The console\<close>

lemma calm_Console_1 [calm]:
  "pt.keeps (upd_cons x1)"
  unfolding upd_cons_def
  by (intro pt.keeps_intros calm; simp?)+

lemma calm_Console_2 [calm]:
  "pt.keeps (uartputc x1)" "pt.keeps clear"
  unfolding uartputc_def clear_def
  by (intro pt.keeps_intros calm; simp?)+

lemma calm_cgaputc [calm]: "pt.keeps (cgaputc legacy c)"
  unfolding cgaputc_def by (intro pt.keeps_intros calm)

lemma calm_Console_3 [calm]:
  "pt.keeps (consputc x1)"
  unfolding consputc_def
  by (intro pt.keeps_intros calm; simp?)+

lemma calm_consputs [calm]: "pt.keeps (consputs x1)"
proof (induction x1)
  case Nil
  show ?case unfolding consputs.simps by (intro pt.keeps_intros calm)
next
  case (Cons y ys)
  show ?case unfolding consputs.simps by (intro pt.keeps_intros calm Cons)
qed

lemma calm_Console_4 [calm]:
  "pt.keeps (printint x1 x2 x3)"
  unfolding printint_def
  by (intro pt.keeps_intros calm; simp?)+

lemma calm_cprintf_conv: "pt.keeps (fst (cprintf_conv d args))"
  unfolding cprintf_conv_def by (auto intro!: pt.keeps_intros calm split: list.split carg.split option.split)

lemma calm_cprintf [calm]: "pt.keeps (cprintf fmt args)"
proof (induction fmt args rule: cprintf.induct)
  case (3 c d fmt args)
  obtain p a where p: "cprintf_conv d args = (p, a)" by fastforce
  show ?case unfolding cprintf.simps p prod.case
    by (intro pt.keeps_intros calm "3.IH"(1) "3.IH"(2) [OF _ p [symmetric]]) (use calm_cprintf_conv [of d args] p in simp_all)
qed (unfold cprintf.simps, (intro pt.keeps_intros calm)+)

subsection \<open>Page tables\<close>

lemma calm_Vm_1 [calm]:
  "pt.keeps (loadK x1)" "pt.keeps (memK x2)" "pt.keeps switchkvm"
  unfolding loadK_def memK_def switchkvm_def
  by (intro pt.keeps_intros calm; simp?)+

lemma calm_Vm_2 [calm]:
  "pt.keeps (storeK x1 x2)"
  unfolding storeK_def
  by (intro pt.keeps_intros calm; simp?)+

lemma calm_Vm_3 [calm]:
  "pt.keeps (walkpgdir x1 x2 x3)"
  unfolding walkpgdir_def
  by (intro pt.keeps_intros calm; simp?)+

lemma calm_Vm_4 [calm]:
  "pt.keeps (clearpteu x1 x2)" "pt.keeps (uva2ka x3 x4)"
  unfolding clearpteu_def uva2ka_def
  by (intro pt.keeps_intros calm; simp?)+

lemma calm_mappages_loop [calm]: "pt.keeps (mappages_loop x1 x2 x3 x4 x5)"
proof (induction x5 arbitrary: x1 x2 x3 x4)
  case 0
  show ?case unfolding mappages_loop.simps by (intro pt.keeps_intros calm)
next
  case (Suc n)
  show ?case unfolding mappages_loop.simps by (intro pt.keeps_intros calm Suc)
qed

lemma calm_deallocuvm_loop [calm]: "pt.keeps (deallocuvm_loop pgdir a oldsz)"
proof (induction pgdir a oldsz rule: deallocuvm_loop.induct)
  case (1 pgdir a oldsz)
  have jump: "a < oldsz \<Longrightarrow> a < a + (NPTENTRIES - 1) * PGSIZE + PGSIZE \<Longrightarrow>
      pt.keeps (deallocuvm_loop pgdir (a + (NPTENTRIES - 1) * PGSIZE + PGSIZE) oldsz)"
    using "1.IH"(1) [of 0] by simp
  have "a < oldsz \<Longrightarrow> a < a + PGSIZE \<Longrightarrow> pt.keeps (deallocuvm_loop pgdir (a + PGSIZE) oldsz)"
    using "1.IH"(2) [of 1] by simp
  with jump show ?case
    by (subst deallocuvm_loop.simps) (simp only: Let_def, intro pt.keeps_intros calm; simp)
qed

lemma calm_Vm_5 [calm]:
  "pt.keeps (mappages x1 x2 x3 x4 x5)" "pt.keeps (deallocuvm x6 x7 x8)"
  unfolding mappages_def deallocuvm_def
  by (intro pt.keeps_intros calm; simp?)+

lemma calm_copyout [calm]: "pt.keeps (copyout x1 x2 x3)"
proof (induction x1 x2 x3 rule: copyout.induct)
  case (1 x1 x2 x3)
  note IH = "1.IH"
  show ?case by (subst copyout.simps) ((simp only: Let_def)?, intro pt.keeps_intros calm IH; (assumption | rule refl)?)
qed

lemma calm_Vm_6 [calm]:
  "pt.keeps (freevm x1)"
  unfolding freevm_def
  by (intro pt.keeps_intros calm; simp?)+

lemma calm_kmap_loop [calm]: "pt.keeps (kmap_loop x1 x2)"
proof (induction x2 arbitrary: x1)
  case Nil
  show ?case unfolding kmap_loop.simps by (intro pt.keeps_intros calm)
next
  case (Cons y ys)
  show ?case unfolding kmap_loop.simps by (intro pt.keeps_intros calm Cons)
qed

lemma calm_allocuvm_loop [calm]: "pt.keeps (allocuvm_loop x1 x2 x3 x4)"
proof (induction x1 x2 x3 x4 rule: allocuvm_loop.induct)
  case (1 x1 x2 x3 x4)
  note IH = "1.IH"
  show ?case by (subst allocuvm_loop.simps) ((simp only: Let_def)?, intro pt.keeps_intros calm IH; (assumption | rule refl)?)
qed

lemma calm_Vm_7 [calm]:
  "pt.keeps setupkvm" "pt.keeps (allocuvm x1 x2 x3)"
  unfolding setupkvm_def allocuvm_def
  by (intro pt.keeps_intros calm; simp?)+

lemma calm_copyuvm_loop [calm]: "pt.keeps (copyuvm_loop x1 x2 x3 x4)"
proof (induction x1 x2 x3 x4 rule: copyuvm_loop.induct)
  case (1 x1 x2 x3 x4)
  note IH = "1.IH"
  show ?case by (subst copyuvm_loop.simps) ((simp only: Let_def)?, intro pt.keeps_intros calm IH; (assumption | rule refl)?)
qed

lemma calm_Vm_8 [calm]:
  "pt.keeps (copyuvm x1 x2)"
  unfolding copyuvm_def
  by (intro pt.keeps_intros calm; simp?)+

subsection \<open>Devices\<close>

lemma calm_Device_1 [calm]:
  "pt.keeps (device_get x1)" "pt.keeps (nullread x2 x3)" "pt.keeps (nullwrite x4 x5 x6)"
    "pt.keeps (zeroread x7 x8)" "pt.keeps (zerowrite x9 x10 x11)" "pt.keeps cur_killed" "pt.keeps (set_r x12)"
    "pt.keeps (ttywrite x13 x14 x15)"
  unfolding device_get_def nullread_def nullwrite_def zeroread_def zerowrite_def cur_killed_def set_r_def ttywrite_def
  by (intro pt.keeps_intros calm; simp?)+

lemma calm_ttyread_loop [calm]: "pt.keeps (ttyread_loop x1 x2)"
proof (induction x1 arbitrary: x2)
  case 0
  show ?case unfolding ttyread_loop.simps by (intro pt.keeps_intros calm)
next
  case (Suc n)
  show ?case unfolding ttyread_loop.simps by (intro pt.keeps_intros calm Suc)
qed

lemma calm_driver_write [calm]: "pt.keeps (driver_write d ip bs n)"
  unfolding driver_write_def by (cases d; simp only: driver.case; intro calm)

lemma calm_Device_2 [calm]:
  "pt.keeps (ttyread x1 x2)"
  unfolding ttyread_def
  by (intro pt.keeps_intros calm; simp?)+

lemma calm_driver_read [calm]: "pt.keeps (driver_read d ip n)"
  unfolding driver_read_def by (cases d; simp only: driver.case; intro calm)

subsection \<open>Files and directories\<close>

lemma calm_Fs_1 [calm]:
  "pt.keeps cur_cwd"
  unfolding cur_cwd_def
  by (intro pt.keeps_intros calm; simp?)+

lemma calm_readi_loop [calm]: "pt.keeps (readi_loop x1 x2 x3)"
proof (induction x1 x2 x3 rule: readi_loop.induct)
  case (1 x1 x2 x3)
  note IH = "1.IH"
  show ?case by (subst readi_loop.simps) ((simp only: Let_def)?, intro pt.keeps_intros calm IH; (assumption | rule refl)?)
qed

lemma calm_writei_loop [calm]: "pt.keeps (writei_loop x1 x2 x3)"
proof (induction x1 x2 x3 rule: writei_loop.induct)
  case (1 x1 x2 x3)
  note IH = "1.IH"
  show ?case by (subst writei_loop.simps) ((simp only: Let_def)?, intro pt.keeps_intros calm IH; (assumption | rule refl)?)
qed

lemma calm_Fs_2 [calm]:
  "pt.keeps (readi x1 x2 x3)" "pt.keeps (writei x4 x5 x6)"
  unfolding readi_def writei_def
  by (intro pt.keeps_intros calm; simp?)+

lemma calm_dirlookup_loop [calm]: "pt.keeps (dirlookup_loop x1 x2 x3)"
proof (induction x3 arbitrary: x1 x2)
  case Nil
  show ?case unfolding dirlookup_loop.simps by (intro pt.keeps_intros calm)
next
  case (Cons y ys)
  show ?case unfolding dirlookup_loop.simps by (intro pt.keeps_intros calm Cons)
qed

lemma calm_dirlink_loop [calm]: "pt.keeps (dirlink_loop x1 x2 x3)"
proof (induction x2 arbitrary: x1 x3)
  case Nil
  show ?case unfolding dirlink_loop.simps by (intro pt.keeps_intros calm)
next
  case (Cons y ys)
  show ?case unfolding dirlink_loop.simps by (intro pt.keeps_intros calm Cons)
qed

lemma calm_Fs_3 [calm]:
  "pt.keeps (dirlookup x1 x2)"
  unfolding dirlookup_def
  by (intro pt.keeps_intros calm; simp?)+

lemma calm_Fs_4 [calm]:
  "pt.keeps (dirlink x1 x2 x3)"
  unfolding dirlink_def
  by (intro pt.keeps_intros calm; simp?)+

lemma calm_namex_loop [calm]: "pt.keeps (namex_loop ip path parent nm)"
proof (induction ip path parent nm rule: namex_loop.induct)
  case (1 ip path parent nm)
  show ?case
  proof (cases "skipelem path")
    case None
    show ?thesis by (subst namex_loop.simps) (simp only: None option.case, intro pt.keeps_intros calm)
  next
    case (Some np)
    obtain name path' where np: "np = (name, path')" by fastforce
    show ?thesis
      by (subst namex_loop.simps)
        (simp only: Some np option.case prod.case, intro pt.keeps_intros calm "1.IH" [OF Some np [symmetric]]; (assumption | rule refl)?)
  qed
qed

lemma calm_Fs_5 [calm]:
  "pt.keeps (namex x1 x2)"
  unfolding namex_def
  by (intro pt.keeps_intros calm; simp?)+

lemma calm_Fs_6 [calm]:
  "pt.keeps (namei x1)" "pt.keeps (nameiparent x2)"
  unfolding namei_def nameiparent_def
  by (intro pt.keeps_intros calm; simp?)+

subsection \<open>Pipes\<close>

lemma calm_Pipe_1 [calm]:
  "pt.keeps (get_pipe x1)" "pt.keeps (upd_pipe x2 x3)"
  unfolding get_pipe_def upd_pipe_def
  by (intro pt.keeps_intros calm; simp?)+

lemma calm_Pipe_2 [calm]:
  "pt.keeps (pipeclose x1 x2)"
  unfolding pipeclose_def
  by (intro pt.keeps_intros calm; simp?)+

lemma calm_pipewrite_loop [calm]: "pt.keeps (pipewrite_loop x1 x2)"
proof (induction x2 arbitrary: x1)
  case Nil
  show ?case unfolding pipewrite_loop.simps by (intro pt.keeps_intros calm)
next
  case (Cons y ys)
  show ?case unfolding pipewrite_loop.simps by (intro pt.keeps_intros calm Cons)
qed

lemma calm_piperead_loop [calm]: "pt.keeps (piperead_loop x1 x2)"
proof (induction x2 arbitrary: x1)
  case 0
  show ?case unfolding piperead_loop.simps by (intro pt.keeps_intros calm)
next
  case (Suc n)
  show ?case unfolding piperead_loop.simps by (intro pt.keeps_intros calm Suc)
qed

lemma calm_Pipe_3 [calm]:
  "pt.keeps (pipewrite x1 x2 x3)" "pt.keeps (piperead x4 x5)"
  unfolding pipewrite_def piperead_def
  by (intro pt.keeps_intros calm; simp?)+

subsection \<open>Open files\<close>

lemma calm_File_1 [calm]:
  "pt.keeps (get_file x1)" "pt.keeps (upd_file x2 x3)"
  unfolding get_file_def upd_file_def
  by (intro pt.keeps_intros calm; simp?)+

lemma calm_File_2 [calm]:
  "pt.keeps filealloc" "pt.keeps (filedup x1)" "pt.keeps (fileclose x2)" "pt.keeps (filestat x3)"
    "pt.keeps (fileread x4 x5)"
  unfolding filealloc_def filedup_def fileclose_def filestat_def fileread_def
  by (intro pt.keeps_intros calm; simp?)+

lemma calm_filewrite_loop [calm]: "pt.keeps (filewrite_loop x1 x2)"
proof (induction x1 x2 rule: filewrite_loop.induct)
  case (1 x1 x2)
  note IH = "1.IH"
  show ?case by (subst filewrite_loop.simps) ((simp only: Let_def)?, intro pt.keeps_intros calm IH; (assumption | rule refl)?)
qed

lemma calm_File_3 [calm]:
  "pt.keeps (filewrite x1 x2 x3)" "pt.keeps pipealloc"
  unfolding filewrite_def pipealloc_def
  by (intro pt.keeps_intros calm; simp?)+

subsection \<open>Processes\<close>

lemma calm_Proc_1 [calm]:
  "pt.keeps (get_proc x1)" "pt.keeps myproc" "pt.keeps (kill x2)"
  unfolding get_proc_def myproc_def kill_def
  by (intro pt.keeps_intros calm; simp?)+

lemma calm_Proc_2 [calm]:
  "pt.keeps (switchuvm x1)" "pt.keeps killcur" "pt.keeps procdump"
  unfolding switchuvm_def killcur_def procdump_def
  by (intro pt.keeps_intros calm; simp?)+

lemma calm_Proc_3 [calm]:
  "pt.keeps (growproc x1)"
  unfolding growproc_def
  by (intro pt.keeps_intros calm; simp?)+

subsection \<open>System calls\<close>

lemma calm_Syscall_1 [calm]:
  "pt.keeps (access x1 x2)" "pt.keeps cur_sz" "pt.keeps sys_exit" "pt.keeps sys_getpid"
    "pt.keeps (sleep_loop x3 x4)" "pt.keeps sys_uptime" "pt.keeps cur_uid"
  unfolding access_def cur_sz_def sys_exit_def sys_getpid_def sleep_loop_def sys_uptime_def cur_uid_def
  by (intro pt.keeps_intros calm; simp?)+

lemma calm_Syscall_2 [calm]:
  "pt.keeps sys_shutdown" "pt.keeps sys_reboot" "pt.keeps sys_getuid"
  unfolding sys_shutdown_def sys_reboot_def sys_getuid_def
  by (intro pt.keeps_intros calm; simp?)+

lemma calm_uread [calm]: "pt.keeps (uread x1 x2)"
proof (induction x2 arbitrary: x1)
  case 0
  show ?case unfolding uread.simps by (intro pt.keeps_intros calm)
next
  case (Suc n)
  show ?case unfolding uread.simps by (intro pt.keeps_intros calm Suc)
qed

lemma calm_uwrite [calm]: "pt.keeps (uwrite x1 x2)"
proof (induction x2 arbitrary: x1)
  case Nil
  show ?case unfolding uwrite.simps by (intro pt.keeps_intros calm)
next
  case (Cons y ys)
  show ?case unfolding uwrite.simps by (intro pt.keeps_intros calm Cons)
qed

lemma calm_Syscall_3 [calm]:
  "pt.keeps (fetchint x1)"
  unfolding fetchint_def
  by (intro pt.keeps_intros calm; simp?)+

lemma calm_fetchstr_loop [calm]: "pt.keeps (fetchstr_loop x1 x2 x3)"
proof (induction x2 arbitrary: x1 x3)
  case 0
  show ?case unfolding fetchstr_loop.simps by (intro pt.keeps_intros calm)
next
  case (Suc n)
  show ?case unfolding fetchstr_loop.simps by (intro pt.keeps_intros calm Suc)
qed

lemma calm_ustrlen_loop [calm]: "pt.keeps (ustrlen_loop x1 x2)"
proof (induction x1 x2 rule: ustrlen_loop.induct)
  case (1 x1 x2)
  note IH = "1.IH"
  show ?case by (subst ustrlen_loop.simps) ((simp only: Let_def)?, intro pt.keeps_intros calm IH; (assumption | rule refl)?)
qed

lemma calm_Syscall_4 [calm]:
  "pt.keeps (fetchstr x1)" "pt.keeps (argint x2)"
  unfolding fetchstr_def argint_def
  by (intro pt.keeps_intros calm; simp?)+

lemma calm_Syscall_5 [calm]:
  "pt.keeps (argptr x1 x2)" "pt.keeps (argstr x3)" "pt.keeps sys_kill" "pt.keeps sys_sbrk" "pt.keeps sys_sleep"
    "pt.keeps (sys_setuid x4)"
  unfolding argptr_def argstr_def sys_kill_def sys_sbrk_def sys_sleep_def sys_setuid_def
  by (intro pt.keeps_intros calm; simp?)+

lemma calm_Syscall_6 [calm]:
  "pt.keeps (arg_string x1)" "pt.keeps (sys_sethostname x2)" "pt.keeps (sys_gethostname x3)"
  unfolding arg_string_def sys_sethostname_def sys_gethostname_def
  by (intro pt.keeps_intros calm; simp?)+

subsection \<open>System calls on files\<close>

lemma calm_Sysfile_1 [calm]:
  "pt.keeps (argfd x1)" "pt.keeps (set_fd x2 x3)" "pt.keeps (put_stat x4 x5)" "pt.keeps (bump_nlink x6 x7)"
    "pt.keeps (unlink_bad x8)" "pt.keeps sys_chdir"
  unfolding argfd_def set_fd_def put_stat_def bump_nlink_def unlink_bad_def sys_chdir_def
  by (intro pt.keeps_intros calm; simp?)+

lemma calm_isdirempty_loop [calm]: "pt.keeps (isdirempty_loop x1 x2)"
proof (induction x2 arbitrary: x1)
  case Nil
  show ?case unfolding isdirempty_loop.simps by (intro pt.keeps_intros calm)
next
  case (Cons y ys)
  show ?case unfolding isdirempty_loop.simps by (intro pt.keeps_intros calm Cons)
qed

lemma calm_created [calm]: "pt.keeps m \<Longrightarrow> pt.keeps (created ip m)"
  unfolding created_def by (intro pt.keeps_intros calm)

lemma calm_name_of_inode_loop [calm]: "pt.keeps (name_of_inode_loop x1 x2 x3)"
proof (induction x3 arbitrary: x1 x2)
  case Nil
  show ?case unfolding name_of_inode_loop.simps by (intro pt.keeps_intros calm)
next
  case (Cons y ys)
  show ?case unfolding name_of_inode_loop.simps by (intro pt.keeps_intros calm Cons)
qed

lemma calm_Sysfile_2 [calm]:
  "pt.keeps (fdalloc x1)" "pt.keeps rw_args" "pt.keeps sys_lseek" "pt.keeps sys_close" "pt.keeps sys_fstat"
    "pt.keeps (link_bad x2)" "pt.keeps (isdirempty x3)" "pt.keeps (unlink_entry x4 x5 x6)"
    "pt.keeps (create_new x7 x8 x9 x10 x11)" "pt.keeps (name_of_inode x12 x13)"
  unfolding fdalloc_def rw_args_def sys_lseek_def sys_close_def sys_fstat_def link_bad_def isdirempty_def unlink_entry_def
    create_new_def name_of_inode_def
  by (intro pt.keeps_intros calm; simp?)+

lemma calm_Sysfile_3 [calm]:
  "pt.keeps sys_dup" "pt.keeps sys_read" "pt.keeps sys_write" "pt.keeps (link_trans x1 x2)"
    "pt.keeps (unlink_trans x3 x4)" "pt.keeps (create x5 x6 x7 x8)" "pt.keeps (open_file x9 x10)"
    "pt.keeps sys_pipe"
  unfolding sys_dup_def sys_read_def sys_write_def link_trans_def unlink_trans_def create_def open_file_def sys_pipe_def
  by (intro pt.keeps_intros calm; simp?)+

lemma calm_name_for_inode [calm]: "pt.keeps (name_for_inode x1 x2 x3 x4)"
proof (induction x1 arbitrary: x2 x3 x4)
  case 0
  show ?case unfolding name_for_inode.simps by (intro pt.keeps_intros calm)
next
  case (Suc n)
  show ?case unfolding name_for_inode.simps by (intro pt.keeps_intros calm Suc)
qed

lemma calm_Sysfile_4 [calm]:
  "pt.keeps sys_link" "pt.keeps sys_unlink" "pt.keeps (open_inode x1 x2)" "pt.keeps sys_mkdir"
    "pt.keeps sys_mknod" "pt.keeps sys_touch" "pt.keeps sys_getcwd"
  unfolding sys_link_def sys_unlink_def open_inode_def sys_mkdir_def sys_mknod_def sys_touch_def sys_getcwd_def
  by (intro pt.keeps_intros calm; simp?)+

lemma calm_Sysfile_5 [calm]:
  "pt.keeps sys_open"
  unfolding sys_open_def
  by (intro pt.keeps_intros calm; simp?)+

subsection \<open>Loading programs\<close>

lemma calm_Exec_1 [calm]:
  "pt.keeps (exec_bad x1 x2)" "pt.keeps (exec_commit x3 x4 x5 x6 x7)"
  unfolding exec_bad_def exec_commit_def
  by (intro pt.keeps_intros calm; simp?)+

lemma calm_loaduvm_loop [calm]: "pt.keeps (loaduvm_loop x1 x2 x3 x4 x5 x6)"
proof (induction x1 x2 x3 x4 x5 x6 rule: loaduvm_loop.induct)
  case (1 x1 x2 x3 x4 x5 x6)
  note IH = "1.IH"
  show ?case by (subst loaduvm_loop.simps) ((simp only: Let_def)?, intro pt.keeps_intros calm IH; (assumption | rule refl)?)
qed

lemma calm_push_args [calm]: "pt.keeps (push_args x1 x2 x3 x4 x5)"
proof (induction x2 arbitrary: x1 x3 x4 x5)
  case Nil
  show ?case unfolding push_args.simps by (intro pt.keeps_intros calm)
next
  case (Cons y ys)
  show ?case unfolding push_args.simps by (intro pt.keeps_intros calm Cons)
qed

lemma calm_execv_args [calm]: "pt.keeps (execv_args x1 x2)"
proof (induction x2 arbitrary: x1)
  case 0
  show ?case unfolding execv_args.simps by (intro pt.keeps_intros calm)
next
  case (Suc n)
  show ?case unfolding execv_args.simps by (intro pt.keeps_intros calm Suc)
qed

lemma calm_Exec_2 [calm]:
  "pt.keeps (loaduvm x1 x2 x3 x4 x5)" "pt.keeps (exec_stack x6 x7 x8 x9 x10)"
  unfolding loaduvm_def exec_stack_def
  by (intro pt.keeps_intros calm; simp?)+

lemma calm_load_segments [calm]: "pt.keeps (load_segments x1 x2 x3 x4 x5)"
proof (induction x3 arbitrary: x1 x2 x4 x5)
  case 0
  show ?case unfolding load_segments.simps by (intro pt.keeps_intros calm)
next
  case (Suc n)
  show ?case unfolding load_segments.simps by (intro pt.keeps_intros calm Suc)
qed

lemma calm_Exec_3 [calm]:
  "pt.keeps (exec x1 x2)"
  unfolding exec_def
  by (intro pt.keeps_intros calm; simp?)+

lemma calm_Exec_4 [calm]:
  "pt.keeps sys_execv"
  unfolding sys_execv_def
  by (intro pt.keeps_intros calm; simp?)+

subsection \<open>The clock\<close>

lemma calm_Rtc_1 [calm]:
  "pt.keeps (sys_time x1 x2)"
  unfolding sys_time_def
  by (intro pt.keeps_intros calm; simp?)+

subsection \<open>Interrupts\<close>

lemma calm_Trap_1 [calm]:
  "pt.keeps (upd_input x1)" "pt.keeps (uartgetc x2)" "pt.keeps (kbdgetc x3)" "pt.keeps (set_eax x4)"
    "pt.keeps exit_if_killed" "pt.keeps (exit_if_killed_user x5)"
  unfolding upd_input_def uartgetc_def kbdgetc_def set_eax_def exit_if_killed_def exit_if_killed_user_def
  by (intro pt.keeps_intros calm; simp?)+

lemma calm_kill_line [calm]: "pt.keeps (kill_line x1)"
proof (induction x1)
  case 0
  show ?case unfolding kill_line.simps by (intro pt.keeps_intros calm)
next
  case (Suc n)
  show ?case unfolding kill_line.simps by (intro pt.keeps_intros calm Suc)
qed

lemma calm_Trap_2 [calm]:
  "pt.keeps (tty_char x1)"
  unfolding tty_char_def
  by (intro pt.keeps_intros calm; simp?)+

lemma calm_ttyintr [calm]: "(\<And>d. pt.keeps (getc d)) \<Longrightarrow> pt.keeps (ttyintr getc ds)"
proof (induction ds)
  case Nil
  show ?case unfolding ttyintr.simps by (intro pt.keeps_intros)
next
  case (Cons d ds)
  show ?case unfolding ttyintr.simps by (intro pt.keeps_intros calm Cons)
qed

lemma calm_Trap_3 [calm]:
  "pt.keeps (uartintr x1)" "pt.keeps (kbdintr x2)"
  unfolding uartintr_def kbdintr_def
  by (intro pt.keeps_intros calm; simp?)+

lemma calm_Trap_4 [calm]:
  "pt.keeps (trap_switch x1 x2 x3 x4)"
  unfolding trap_switch_def
  by (intro pt.keeps_intros calm; simp?)+

end
