(* ===== verification/Proc_Inv.thy ===== *)
theory Proc_Inv
  imports Proc_Frame
begin

text \<open>
  The invariant of the process table (kernel/proc.c) over all system calls, interrupts and switches of a
  machine with one CPU: who runs, who is whose parent, and that process numbers are unique.
\<close>

section \<open>The invariant\<close>

definition alive :: "kernel \<Rightarrow> nat \<Rightarrow> bool" where
  "alive s p \<longleftrightarrow> p_state (procs s p) \<in> {SLEEPING, RUNNABLE, RUNNING}"

definition in_use :: "kernel \<Rightarrow> nat \<Rightarrow> bool" where
  "in_use s p \<longleftrightarrow> p_state (procs s p) \<noteq> UNUSED"

text \<open>The slot \<open>p\<close> is in order.\<close>

definition slot_ok :: "kernel \<Rightarrow> nat \<Rightarrow> bool" where
  "slot_ok s p \<longleftrightarrow>
     (p_state (procs s p) = RUNNING \<longleftrightarrow> cur s = Some p) \<and>
     p_state (procs s p) \<noteq> EMBRYO \<and>
     (p_state (procs s p) = SLEEPING \<longrightarrow> p_chan (procs s p) \<noteq> None) \<and>
     (if in_use s p
      then p < NPROC \<and> 1 \<le> p_pid (procs s p) \<and> p_pid (procs s p) < nextpid s \<and>
           (initproc s = Some p \<and> p_parent (procs s p) = None \<or> (\<exists>q. p_parent (procs s p) = Some q \<and> alive s q))
      else p_parent (procs s p) = None)"

definition ptable_ok :: "kernel \<Rightarrow> bool" where
  "ptable_ok s \<longleftrightarrow> (\<forall>p. slot_ok s p) \<and> (\<exists>i. initproc s = Some i \<and> alive s i) \<and>
     inj_on (\<lambda>p. p_pid (procs s p)) {p. in_use s p}"

lemma calm_alive: "calm s t \<Longrightarrow> alive t p = alive s p"
  unfolding calm_def alive_def by (elim conjE allE [of _ p]) auto

lemma calm_in_use: "calm s t \<Longrightarrow> in_use t p = in_use s p"
  unfolding calm_def in_use_def by (elim conjE allE [of _ p]) auto

lemma calm_slot:
  assumes "calm s t" and "slot_ok s p"
  shows "slot_ok t p"
proof -
  have "p_state (procs t p) = p_state (procs s p) \<or> p_state (procs s p) = SLEEPING \<and> p_state (procs t p) = RUNNABLE"
    "p_pid (procs t p) = p_pid (procs s p)" "p_parent (procs t p) = p_parent (procs s p)"
    "p_chan (procs t p) = p_chan (procs s p)" "cur t = cur s" "initproc t = initproc s" "nextpid t = nextpid s"
    using assms(1) by (simp_all add: calm_def)
  then show ?thesis
    using assms(2) calm_in_use [OF assms(1)] calm_alive [OF assms(1)] unfolding slot_ok_def by (elim disjE) auto
qed

lemma calm_ptable: "calm s t \<Longrightarrow> ptable_ok s \<Longrightarrow> ptable_ok t"
  unfolding ptable_ok_def using calm_slot [of s t] calm_alive [of s t] calm_in_use [of s t]
  by (auto simp: calm_def inj_on_def)

section \<open>Switching\<close>

text \<open>The fields the invariant looks at.\<close>

lemma slot_okD:
  assumes "ptable_ok s"
  shows "cur s = Some p \<Longrightarrow> p_state (procs s p) = RUNNING" "p_state (procs s p) = RUNNING \<Longrightarrow> cur s = Some p"
    "p_state (procs s p) \<noteq> EMBRYO" "p_state (procs s p) = SLEEPING \<Longrightarrow> p_chan (procs s p) \<noteq> None"
    "in_use s p \<Longrightarrow> p < NPROC" "in_use s p \<Longrightarrow> 1 \<le> p_pid (procs s p) \<and> p_pid (procs s p) < nextpid s"
    "p_parent (procs s p) = Some q \<Longrightarrow> alive s q" "\<not> in_use s p \<Longrightarrow> p_parent (procs s p) = None"
proof -
  have "slot_ok s p" using assms by (simp add: ptable_ok_def)
  then show "cur s = Some p \<Longrightarrow> p_state (procs s p) = RUNNING" "p_state (procs s p) = RUNNING \<Longrightarrow> cur s = Some p"
    "p_state (procs s p) \<noteq> EMBRYO" "p_state (procs s p) = SLEEPING \<Longrightarrow> p_chan (procs s p) \<noteq> None"
    "in_use s p \<Longrightarrow> p < NPROC" "in_use s p \<Longrightarrow> 1 \<le> p_pid (procs s p) \<and> p_pid (procs s p) < nextpid s"
    "p_parent (procs s p) = Some q \<Longrightarrow> alive s q" "\<not> in_use s p \<Longrightarrow> p_parent (procs s p) = None"
    unfolding slot_ok_def by (auto split: if_splits)
qed

lemma alive_in_use: "alive s p \<Longrightarrow> in_use s p"
  by (auto simp: alive_def in_use_def)

text \<open>A change of one living process to another living state.\<close>

lemma ptable_change:
  assumes ok: "ptable_ok s" and p: "alive s p"
    and x: "p_pid x = p_pid (procs s p)" "p_parent x = p_parent (procs s p)"
      "p_state x \<in> {SLEEPING, RUNNABLE, RUNNING}" "p_state x = SLEEPING \<longrightarrow> p_chan x \<noteq> None"
    and t: "procs t = (procs s)(p := x)" "initproc t = initproc s" "nextpid t = nextpid s"
    and run: "\<And>q. p_state (procs t q) = RUNNING \<longleftrightarrow> cur t = Some q"
  shows "ptable_ok t"
proof -
  have al: "alive t q = alive s q" for q using p x(3) by (auto simp: alive_def t)
  have iu: "in_use t q = in_use s q" for q
    using alive_in_use [OF p] x(3) by (auto simp: in_use_def t)
  have "slot_ok t q" for q
  proof -
    have s: "slot_ok s q" using ok by (simp add: ptable_ok_def)
    have e: "p_pid (procs t q) = p_pid (procs s q)" "p_parent (procs t q) = p_parent (procs s q)"
      "p_state (procs t q) \<noteq> EMBRYO" "p_state (procs t q) = SLEEPING \<longrightarrow> p_chan (procs t q) \<noteq> None"
      using x s by (auto simp: t(1) slot_ok_def)
    show ?thesis using s unfolding slot_ok_def al iu e(1,2) t(2,3) by (simp add: run e(3,4))
  qed
  moreover have "(\<lambda>q. p_pid (procs t q)) = (\<lambda>q. p_pid (procs s q))" by (rule ext) (simp add: t(1) x(1))
  then have "inj_on (\<lambda>p. p_pid (procs t p)) {p. in_use t p}" using ok by (simp add: iu ptable_ok_def)
  ultimately show ?thesis using ok by (auto simp: ptable_ok_def al t(2))
qed

lemma scheduler_run_ptable:
  assumes ok: "ptable_ok s" and c: "cur s = None" and r: "p_state (procs s p) = RUNNABLE" and run: "scheduler_run p s = Ok () t"
  shows "ptable_ok t"
proof -
  have t: "procs t = (procs s)(p := (procs s p)\<lparr>p_state := RUNNING\<rparr>)" "cur t = Some p" "initproc t = initproc s" "nextpid t = nextpid s"
    using run unfolding scheduler_run_def switchuvm_def get_proc_def upd_proc_def bindK_assoc by (simp_all split: if_splits, auto)
  have "p_state (procs s q) \<noteq> RUNNING" for q using slot_okD(2) [OF ok, of q] c by auto
  then show ?thesis
    using t r by (intro ptable_change [OF ok, of p "(procs s p)\<lparr>p_state := RUNNING\<rparr>"]) (auto simp: alive_def)
qed

lemma sched_ptable:
  assumes ok: "ptable_ok s" and c: "cur s = Some p" and g: "p_pid (g (procs s p)) = p_pid (procs s p)"
    "p_parent (g (procs s p)) = p_parent (procs s p)"
    "p_state (g (procs s p)) = RUNNABLE \<or> p_state (g (procs s p)) = SLEEPING \<and> p_chan (g (procs s p)) \<noteq> None"
    and r: "bindK (upd_proc p g) (\<lambda>_. sched) s = Ok () t"
  shows "ptable_ok t" and "cur t = None"
proof -
  have t: "procs t = (procs s)(p := g (procs s p))" "cur t = None" "initproc t = initproc s" "nextpid t = nextpid s"
    using r c unfolding sched_def myproc_def get_proc_def upd_proc_def scheduler_back_def switchkvm_def bindK_assoc
    by (simp_all split: if_splits, auto)
  have al: "alive s p" by (simp add: alive_def slot_okD(1) [OF ok c])
  have nr: "p_state (procs t q) = RUNNING \<longleftrightarrow> cur t = Some q" for q
    using slot_okD(2) [OF ok, of q] c g(3) by (cases "q = p") (auto simp: t(1,2))
  show "ptable_ok t"
    by (rule ptable_change [OF ok al g(1,2) _ _ t(1,3,4) nr]) (use g(3) in auto)
  show "cur t = None" by (rule t)
qed

lemma yield_ptable: "ptable_ok s \<Longrightarrow> yield s = Ok () t \<Longrightarrow> ptable_ok t \<and> cur t = None"
proof -
  assume ok: "ptable_ok s" and y: "yield s = Ok () t"
  obtain p where c: "cur s = Some p" using y by (cases "cur s") (simp_all add: yield_def myproc_def)
  have "bindK (upd_proc p (\<lambda>x. x\<lparr>p_state := RUNNABLE\<rparr>)) (\<lambda>_. sched) s = Ok () t"
    using y c by (simp add: yield_def myproc_def)
  from sched_ptable [OF ok c _ _ _ this] show ?thesis by simp
qed

lemma sleep_ptable: "ptable_ok s \<Longrightarrow> sleep ch s = Ok () t \<Longrightarrow> ptable_ok t \<and> cur t = None"
proof -
  assume ok: "ptable_ok s" and y: "sleep ch s = Ok () t"
  obtain p where c: "cur s = Some p" using y by (cases "cur s") (simp_all add: sleep_def)
  have "bindK (upd_proc p (\<lambda>x. x\<lparr>p_chan := Some ch, p_state := SLEEPING\<rparr>)) (\<lambda>_. sched) s = Ok () t"
    using y c by (simp add: sleep_def)
  from sched_ptable [OF ok c _ _ _ this] show ?thesis by simp
qed

lemma sleep_return_ptable: "ptable_ok s \<Longrightarrow> sleep_return s = Ok () t \<Longrightarrow> ptable_ok t"
proof -
  assume ok: "ptable_ok s" and y: "sleep_return s = Ok () t"
  obtain p where c: "cur s = Some p" using y by (cases "cur s") (simp_all add: sleep_return_def myproc_def)
  have t: "t = s\<lparr>procs := (procs s)(p := (procs s p)\<lparr>p_chan := None\<rparr>)\<rparr>"
    using y c by (simp add: sleep_return_def myproc_def upd_proc_def)
  have r: "p_state (procs s p) = RUNNING" by (rule slot_okD(1) [OF ok c])
  have nr: "p_state (procs t q) = RUNNING \<longleftrightarrow> cur t = Some q" for q
    using slot_okD(1,2) [OF ok, of q] by (auto simp: t)
  show ?thesis
    by (rule ptable_change [OF ok, of p "(procs s p)\<lparr>p_chan := None\<rparr>", OF _ _ _ _ _ _ _ _ nr]) (simp_all add: alive_def t r)
qed

section \<open>Operations that neither sleep nor exit\<close>

definition awake :: "'a km \<Rightarrow> bool" where
  "awake m \<longleftrightarrow> (\<forall>s t. left_state (m s) = Some t \<longrightarrow> (\<exists>x. m s = Ok x t))"

named_theorems awake \<open>operations that neither sleep nor exit\<close>

lemma awakeD: "awake m \<Longrightarrow> left_state (m s) = Some t \<Longrightarrow> \<exists>x. m s = Ok x t"
  by (simp add: awake_def)

lemma awake_bind: "awake m \<Longrightarrow> (\<And>x. awake (f x)) \<Longrightarrow> awake (bindK m f)"
  unfolding awake_def
proof (intro allI impI)
  fix s t
  assume m: "\<forall>s t. left_state (m s) = Some t \<longrightarrow> (\<exists>x. m s = Ok x t)"
    and f: "\<And>x. \<forall>s t. left_state (f x s) = Some t \<longrightarrow> (\<exists>y. f x s = Ok y t)"
    and t: "left_state (bindK m f s) = Some t"
  show "\<exists>y. bindK m f s = Ok y t"
    by (cases "m s") (use m [rule_format, of s] f t in \<open>auto simp: bindK_Ok_iff\<close>)
qed

lemma awake_simple:
  "awake (returnK x)" "awake (getsK h)" "awake (panicK e)" "awake (faultK e)" "awake (modifyK g)"
  by (simp_all add: awake_def)

lemma awake_if: "(c \<Longrightarrow> awake m) \<Longrightarrow> (\<not> c \<Longrightarrow> awake m') \<Longrightarrow> awake (if c then m else m')"
  by simp

lemma awake_when: "(c \<Longrightarrow> awake m) \<Longrightarrow> awake (whenK c m)"
  by (cases c) (simp_all add: awake_simple)

lemma awake_for: "(\<And>i. awake (body i)) \<Longrightarrow> awake (forK is body)"
  by (induction "is") (simp_all add: awake_simple awake_bind)

lemma awake_option: "(\<And>x. awake (f x)) \<Longrightarrow> awake n \<Longrightarrow> awake (case z of None \<Rightarrow> n | Some x \<Rightarrow> f x)"
  by (cases z) simp_all

lemma awake_prod: "(\<And>x y. awake (f x y)) \<Longrightarrow> awake (case z of (x, y) \<Rightarrow> f x y)"
  by (cases z) simp

lemma awake_Let: "(\<And>x. awake (f x)) \<Longrightarrow> awake (Let z f)"
  by simp

lemmas awake_intros = awake_bind awake_simple awake_if awake_when awake_for awake_option awake_prod awake_Let

lemma awake_kmem [awake]: "awake kalloc" "awake (kfree v)" "awake (loadK a)" "awake (memK g)" "awake (storeK a w)"
  unfolding kalloc_def kfree_def loadK_def memK_def storeK_def by (intro awake_intros)+

lemma awake_walkpgdir [awake]: "awake (walkpgdir pgdir va alloc)"
  unfolding walkpgdir_def by (intro awake_intros awake)

lemma awake_mappages [awake]: "awake (mappages pgdir va sz pa perm)"
proof -
  have "awake (mappages_loop pgdir a pa perm n)" for a pa n
    by (induction n arbitrary: a pa) (simp_all only: mappages_loop.simps, (intro awake_intros awake; assumption?)+)
  then show ?thesis by (simp add: mappages_def Let_def)
qed

lemma awake_setupkvm [awake]: "awake setupkvm"
proof -
  have "awake (kmap_loop pgdir ks)" for pgdir ks
    by (induction ks) (simp_all only: kmap_loop.simps, (intro awake_intros awake; assumption?)+)
  then show ?thesis unfolding setupkvm_def by (intro awake_intros awake)
qed

lemma awake_deallocuvm_loop [awake]: "awake (deallocuvm_loop pgdir a oldsz)"
proof (induction pgdir a oldsz rule: deallocuvm_loop.induct)
  case (1 pgdir a oldsz)
  note IH = 1 [simplified Let_def]
  show ?case by (subst deallocuvm_loop.simps) (simp only: Let_def, intro awake_intros awake IH; (assumption | rule refl)?)
qed

lemma awake_freevm [awake]: "awake (freevm pgdir)"
  unfolding freevm_def deallocuvm_def by (intro awake_intros awake)

lemma awake_copyuvm_loop [awake]: "awake (copyuvm_loop pgdir d i sz)"
proof (induction pgdir d i sz rule: copyuvm_loop.induct)
  case (1 pgdir d i sz)
  show ?case by (subst copyuvm_loop.simps) (intro awake_intros awake 1; (assumption | rule refl)?)
qed

lemma awake_procs [awake]: "awake myproc" "awake (get_proc p)" "awake (upd_proc p g)" "awake (filedup f)" "awake (idup ip)"
  unfolding myproc_def get_proc_def upd_proc_def filedup_def idup_def get_file_def upd_file_def upd_inode_def
  by (intro awake_intros)+

lemma awake_copyuvm [awake]: "awake (copyuvm pgdir sz)"
  unfolding copyuvm_def by (intro awake_intros awake)

lemma awake_fork: "awake fork"
  unfolding fork_def allocproc_def by (intro awake_intros awake)

lemma awake_pass_children: "awake (pass_children p)"
  unfolding pass_children_def by (intro awake_intros awake)

lemma awake_reap: "awake (reap c)"
  unfolding reap_def by (intro awake_intros awake)

section \<open>Fork\<close>

text \<open>The state with a new process in the slot \<open>np\<close>, and what \<open>t\<close> knows of \<open>s\<close> while the process is being made.\<close>

definition grown :: "kernel \<Rightarrow> nat \<Rightarrow> proc \<Rightarrow> kernel" where
  "grown s np x = s\<lparr>procs := (procs s)(np := x), nextpid := nextpid s + 1\<rparr>"

definition born :: "kernel \<Rightarrow> nat \<Rightarrow> nat option \<Rightarrow> kernel \<Rightarrow> bool" where
  "born s np par t \<longleftrightarrow> (\<exists>x. p_state x = EMBRYO \<and> p_pid x = nextpid s \<and> p_parent x = par \<and> calm (grown s np x) t)"

lemma bornI: "p_state x = EMBRYO \<Longrightarrow> p_pid x = nextpid s \<Longrightarrow> p_parent x = par \<Longrightarrow> calm (grown s np x) t \<Longrightarrow> born s np par t"
  by (auto simp: born_def)

lemma born_keeps: "born s np par t \<Longrightarrow> pt.keeps m \<Longrightarrow> m t = Ok y u \<Longrightarrow> born s np par u"
  unfolding born_def using pt.keeps_Ok [of m t y u] pt.trans [of _ t u] by blast

text \<open>Two states that agree up to wakeups still do so after the same assignment to a slot.\<close>

lemma calm_update:
  assumes "calm (grown s np x) t" and "p_pid y = p_pid z" "p_parent y = p_parent z" "p_chan y = p_chan z" "p_state y = p_state z"
  shows "calm (grown s np y) (t\<lparr>procs := (procs t)(np := z)\<rparr>)"
  using assms unfolding calm_def grown_def by (auto dest: spec split: if_splits)

lemma born_slot:
  assumes "born s np par t"
  shows "p_state (procs t np) = EMBRYO" "p_pid (procs t np) = nextpid s" "p_parent (procs t np) = par" "cur t = cur s"
  using assms unfolding born_def calm_def grown_def by (auto dest: spec [of _ np])

lemma born_update:
  assumes "born s np par t"
  shows "calm (grown s np y) (t\<lparr>procs := (procs t)(np := y)\<rparr>)"
  using assms unfolding born_def by (auto intro: calm_update)

lemma grown_ptable:
  assumes ok: "ptable_ok s" and np: "p_state (procs s np) = UNUSED" "np < NPROC"
    and x: "p_state x = UNUSED \<and> p_parent x = None \<or> p_state x = RUNNABLE \<and> p_pid x = nextpid s \<and> p_parent x = Some p \<and> alive s p"
  shows "ptable_ok (grown s np x)"
proof -
  let ?t = "grown s np x"
  have f: "procs ?t q = (if q = np then x else procs s q)" "cur ?t = cur s" "initproc ?t = initproc s" "nextpid ?t = nextpid s + 1" for q
    by (simp_all add: grown_def)
  have al: "alive s q \<Longrightarrow> alive ?t q" for q using np(1) by (auto simp: alive_def f)
  obtain i where i: "initproc s = Some i" "alive s i" using ok by (auto simp: ptable_ok_def)
  have pid: "in_use s q \<Longrightarrow> 1 \<le> p_pid (procs s q) \<and> p_pid (procs s q) < nextpid s" for q by (rule slot_okD(6) [OF ok])
  have c: "cur s \<noteq> Some np" using slot_okD(1) [OF ok, of np] np(1) by auto
  have "slot_ok ?t q" for q
  proof (cases "q = np")
    case True
    have "1 \<le> nextpid s" using pid [OF alive_in_use [OF i(2)]] by simp
    then show ?thesis using x np c al by (auto simp: slot_ok_def f True in_use_def)
  next
    case False
    have "slot_ok s q" using ok by (simp add: ptable_ok_def)
    then show ?thesis using False al unfolding slot_ok_def in_use_def f by (auto split: if_splits)
  qed
  moreover have "inj_on (\<lambda>q. p_pid (procs ?t q)) {q. in_use ?t q}"
  proof (rule inj_onI, clarsimp simp: f in_use_def split: if_splits)
    show "q = r" if "p_pid (procs s q) = p_pid (procs s r)" "p_state (procs s q) \<noteq> UNUSED" "p_state (procs s r) \<noteq> UNUSED" for q r
      using ok that by (auto simp: ptable_ok_def inj_on_def in_use_def)
    show False if "p_pid x = p_pid (procs s r)" "p_state x \<noteq> UNUSED" "p_state (procs s r) \<noteq> UNUSED" for r
      using that x pid [of r] by (auto simp: in_use_def)
    show False if "p_pid (procs s r) = p_pid x" "p_state x \<noteq> UNUSED" "p_state (procs s r) \<noteq> UNUSED" for r
      using that x pid [of r] by (auto simp: in_use_def)
  qed
  ultimately show ?thesis using i al by (auto simp: ptable_ok_def f)
qed

lemma upd_proc_Ok: "upd_proc p g s = Ok y t \<longleftrightarrow> t = s\<lparr>procs := (procs s)(p := g (procs s p))\<rparr>"
  by (auto simp: upd_proc_def)

lemma find_slot: "find P [0..<n] = Some p \<Longrightarrow> P p \<and> p < n"
  by (auto simp: find_Some_iff)

lemma free_parent: "ptable_ok s \<Longrightarrow> \<forall>p. \<not> in_use s p \<longrightarrow> p_parent (procs s p) = None"
  using slot_okD(8) by blast

lemma allocproc_born:
  assumes ok: "\<forall>p. \<not> in_use s p \<longrightarrow> p_parent (procs s p) = None" and a: "allocproc s = Ok (Some np) t"
  shows "born s np None t" "p_state (procs s np) = UNUSED" "np < NPROC"
proof -
  obtain p where p: "find (\<lambda>p. p_state (procs s p) = UNUSED) [0..<NPROC] = Some p"
    using a by (auto simp: allocproc_def split: option.splits)
  let ?x = "(procs s p)\<lparr>p_state := EMBRYO, p_pid := nextpid s\<rparr>"
  obtain k u where k: "kalloc (grown s p ?x) = Ok k u" and np: "np = p"
    and t: "t = u\<lparr>procs := (procs u)(p := (procs u p)\<lparr>p_kstack := k, p_context := zero_ctxt\<lparr>cx_eip := forkret_addr u\<rparr>\<rparr>)\<rparr>"
    using a p by (auto simp: allocproc_def bindK_Ok_iff upd_proc_def grown_def split: if_splits)
  show u: "p_state (procs s np) = UNUSED" "np < NPROC" using find_slot [OF p] np by simp_all
  have "p_parent (procs s p) = None" using u ok by (simp add: in_use_def np)
  then have "born s p None u" using pt.keeps_Ok [OF calm_Kalloc_1(2) k] by (intro bornI [of ?x]) simp_all
  moreover have "pt.keeps (upd_proc p (\<lambda>x. x\<lparr>p_kstack := k, p_context := zero_ctxt\<lparr>cx_eip := forkret_addr u\<rparr>\<rparr>))"
    by (intro calm) simp_all
  ultimately show "born s np None t" unfolding np by (rule born_keeps) (simp add: upd_proc_Ok t)
qed

lemma allocproc_none:
  assumes ok: "ptable_ok s" and a: "allocproc s = Ok None t"
  shows "ptable_ok t"
proof (cases "find (\<lambda>p. p_state (procs s p) = UNUSED) [0..<NPROC]")
  case None
  then show ?thesis using a ok by (simp add: allocproc_def)
next
  case (Some p)
  let ?x = "(procs s p)\<lparr>p_state := EMBRYO, p_pid := nextpid s\<rparr>"
  obtain u where k: "kalloc (grown s p ?x) = Ok 0 u"
    and t: "t = u\<lparr>procs := (procs u)(p := (procs u p)\<lparr>p_kstack := 0, p_state := UNUSED\<rparr>)\<rparr>"
    using a Some by (auto simp: allocproc_def bindK_Ok_iff upd_proc_def grown_def split: if_splits)
  have p: "p_state (procs s p) = UNUSED" "p < NPROC" using find_slot [OF Some] by simp_all
  then have "p_parent (procs s p) = None" using slot_okD(8) [OF ok, of p] by (simp add: in_use_def)
  then have b: "born s p None u" using pt.keeps_Ok [OF calm_Kalloc_1(2) k] by (intro bornI [of ?x]) simp_all
  have "ptable_ok (grown s p ((procs u p)\<lparr>p_kstack := 0, p_state := UNUSED\<rparr>))"
    using born_slot(3) [OF b] by (intro grown_ptable [OF ok p]) simp
  then show ?thesis unfolding t by (rule calm_ptable [OF born_update [OF b]])
qed

lemma fork_fails:
  assumes ok: "ptable_ok s" and n: "p_state (procs s n) = UNUSED" "n < NPROC" and b: "born s n None u"
    and t: "bindK (kfree v) (\<lambda>_. bindK (upd_proc n (\<lambda>y. y\<lparr>p_kstack := 0, p_state := UNUSED\<rparr>)) (\<lambda>_. returnK e)) u = Ok r t"
  shows "ptable_ok t"
proof -
  obtain w where k: "kfree v u = Ok () w" and t: "t = w\<lparr>procs := (procs w)(n := (procs w n)\<lparr>p_kstack := 0, p_state := UNUSED\<rparr>)\<rparr>"
    using t by (auto simp: bindK_Ok_iff upd_proc_Ok)
  have b: "born s n None w" by (rule born_keeps [OF b calm_Kalloc_1(1) k])
  have "ptable_ok (grown s n ((procs w n)\<lparr>p_kstack := 0, p_state := UNUSED\<rparr>))"
    using born_slot(3) [OF b] by (intro grown_ptable [OF ok n]) simp
  then show ?thesis unfolding t by (rule calm_ptable [OF born_update [OF b]])
qed

lemma fork_succeeds:
  assumes ok: "ptable_ok s" and n: "p_state (procs s n) = UNUSED" "n < NPROC" and b: "born s n None u" and c: "cur s = Some p"
    and k: "pt.keeps m" "\<And>z y. pt.keeps (f z y)"
    and t: "bindK (upd_proc n (\<lambda>y. y\<lparr>p_sz := sz, p_parent := Some p, p_tf := tf\<rparr>)) (\<lambda>_. bindK m (\<lambda>z.
              bindK (get_proc n) (\<lambda>y. bindK (upd_proc n (\<lambda>y. y\<lparr>p_cwd := Some z, p_state := RUNNABLE, p_name := nm\<rparr>)) (\<lambda>_.
              f z y)))) u = Ok r t"
  shows "ptable_ok t"
proof -
  let ?y = "(procs u n)\<lparr>p_sz := sz, p_parent := Some p, p_tf := tf\<rparr>"
  obtain z w where w: "m (u\<lparr>procs := (procs u)(n := ?y)\<rparr>) = Ok z w"
    using t by (auto simp: bindK_Ok_iff upd_proc_def)
  let ?z = "(procs w n)\<lparr>p_cwd := Some z, p_state := RUNNABLE, p_name := nm\<rparr>"
  obtain v y where v: "f z y (w\<lparr>procs := (procs w)(n := ?z)\<rparr>) = Ok r t"
    using t w by (auto simp: bindK_Ok_iff upd_proc_def get_proc_def)
  have "born s n (Some p) (u\<lparr>procs := (procs u)(n := ?y)\<rparr>)"
    using born_slot [OF b] by (intro bornI [of ?y] born_update [OF b]) simp_all
  then have b: "born s n (Some p) w" by (rule born_keeps [OF _ k(1) w])
  have "alive s p" using slot_okD(1) [OF ok c] by (simp add: alive_def)
  then have "ptable_ok (grown s n ?z)" using born_slot [OF b] by (intro grown_ptable [OF ok n]) simp
  then have "ptable_ok (w\<lparr>procs := (procs w)(n := ?z)\<rparr>)" by (rule calm_ptable [OF born_update [OF b]])
  then show ?thesis by (rule calm_ptable [OF pt.keeps_Ok [OF k(2) v]])
qed

lemma fork_body:
  assumes ok: "ptable_ok s" and a: "allocproc s = Ok (Some n) u" and c: "cur s = Some p" and f: "fork s = Ok r t"
  shows "ptable_ok t"
proof -
  note b = allocproc_born [OF free_parent [OF ok] a]
  have cu: "cur u = Some p" using born_slot(4) [OF b(1)] c by simp
  let ?x = "procs u p"
  obtain pgdir w where w: "copyuvm (p_pgdir ?x) (p_sz ?x) u = Ok pgdir w"
    using f a cu by (auto simp: fork_def myproc_def get_proc_def bindK_Ok_iff)
  have k: "pt.keeps (upd_proc n (\<lambda>y. y\<lparr>p_pgdir := pgdir\<rparr>))" by (rule calm) simp_all
  obtain v where v: "upd_proc n (\<lambda>y. y\<lparr>p_pgdir := pgdir\<rparr>) w = Ok () v" by (simp add: upd_proc_Ok)
  have bv: "born s n None v" by (rule born_keeps [OF born_keeps [OF b(1) calm_Vm_8 w] k v])
  have s: "fork s = (if pgdir = 0 then bindK (kfree (p_kstack (procs v n)))
        (\<lambda>_. bindK (upd_proc n (\<lambda>y. y\<lparr>p_kstack := 0, p_state := UNUSED\<rparr>)) (\<lambda>_. returnK (- 1))) v
      else bindK (upd_proc n (\<lambda>y. y\<lparr>p_sz := p_sz ?x, p_parent := Some p, p_tf := (p_tf ?x)\<lparr>tf_eax := 0\<rparr>\<rparr>)) (\<lambda>_.
        bindK (bindK (forK [0..<NOFILE] (\<lambda>i. case p_ofile ?x i of None \<Rightarrow> returnK ()
            | Some f \<Rightarrow> bindK (filedup f) (\<lambda>f. upd_proc n (\<lambda>y. y\<lparr>p_ofile := (p_ofile y)(i := Some f)\<rparr>))))
          (\<lambda>_. case p_cwd ?x of None \<Rightarrow> faultK ''no cwd'' | Some ip \<Rightarrow> idup ip)) (\<lambda>cwd.
        bindK (get_proc n) (\<lambda>y. bindK (upd_proc n (\<lambda>y. y\<lparr>p_cwd := Some cwd, p_state := RUNNABLE, p_name := proc_name (p_name ?x)\<rparr>))
          (\<lambda>_. returnK (p_pid y))))) v)"
    unfolding fork_def using a cu w v by (simp add: myproc_def get_proc_def bindK_assoc)
  show ?thesis
  proof (cases "pgdir = 0")
    case True
    show ?thesis by (rule fork_fails [OF ok b(2,3) bv f [unfolded s if_P [OF True]]])
  next
    case False
    show ?thesis
      by (rule fork_succeeds [OF ok b(2,3) bv c _ _ f [unfolded s if_not_P [OF False]]]) (intro pt.keeps_intros calm; simp)+
  qed
qed

lemma fork_ptable:
  assumes ok: "ptable_ok s" and f: "fork s = Ok r t"
  shows "ptable_ok t"
proof -
  obtain np s1 where a: "allocproc s = Ok np s1" using f by (cases "allocproc s") (simp_all add: fork_def)
  show ?thesis
  proof (cases np)
    case None
    then show ?thesis using a f allocproc_none [OF ok, of s1] by (simp add: fork_def)
  next
    case (Some n)
    note b = allocproc_born [OF free_parent [OF ok] a [unfolded Some]]
    obtain p where "cur s = Some p" using f a Some born_slot(4) [OF b(1)]
      by (cases "cur s") (auto simp: fork_def myproc_def)
    then show ?thesis using fork_body [OF ok a [unfolded Some] _ f] by blast
  qed
qed

section \<open>Wait\<close>

text \<open>Nobody's parent is a zombie, and \<open>initproc\<close> is none.\<close>

lemma ptable_free:
  assumes ok: "ptable_ok s" and c: "p_state (procs s c) = ZOMBIE" and x: "p_state x = UNUSED" "p_parent x = None"
  shows "ptable_ok (s\<lparr>procs := (procs s)(c := x)\<rparr>)"
proof -
  let ?t = "s\<lparr>procs := (procs s)(c := x)\<rparr>"
  have al: "alive s q \<Longrightarrow> alive ?t q" for q using c by (auto simp: alive_def)
  have "slot_ok ?t q" for q
  proof -
    have "slot_ok s q" "slot_ok s c" using ok by (simp_all add: ptable_ok_def)
    then show ?thesis using c x al unfolding slot_ok_def in_use_def by (cases "q = c") (auto split: if_splits)
  qed
  moreover have "inj_on (\<lambda>q. p_pid (procs ?t q)) {q. in_use ?t q}"
    using ok x(1) by (auto simp: ptable_ok_def in_use_def inj_on_def)
  ultimately show ?thesis using ok al by (auto simp: ptable_ok_def)
qed

lemma reap_ptable:
  assumes ok: "ptable_ok s" and c: "p_state (procs s c) = ZOMBIE" and r: "reap c s = Ok r t"
  shows "ptable_ok t"
proof -
  let ?m = "bindK (kfree (p_kstack (procs s c))) (\<lambda>_. bindK (upd_proc c (\<lambda>x. x\<lparr>p_kstack := 0\<rparr>)) (\<lambda>_. freevm (p_pgdir (procs s c))))"
  obtain u where u: "?m s = Ok () u"
    and t: "t = u\<lparr>procs := (procs u)(c := (procs u c)\<lparr>p_state := UNUSED, p_pid := 0, p_parent := None, p_name := [], p_killed := False\<rparr>)\<rparr>"
    using r by (auto simp: reap_def get_proc_def bindK_Ok_iff upd_proc_Ok)
  have k: "pt.keeps ?m" by (intro pt.keeps_intros calm; simp)
  have su: "calm s u" by (rule pt.keeps_Ok [OF k u])
  then have "p_state (procs u c) = ZOMBIE" using c unfolding calm_def by (auto dest: spec [of _ c])
  then show ?thesis unfolding t by (intro ptable_free [OF calm_ptable [OF su ok]]) simp_all
qed

lemma wait_ptable:
  assumes ok: "ptable_ok s" and w: "left_state (wait s) = Some t"
  shows "ptable_ok t"
proof -
  obtain p where p: "cur s = Some p" using w by (cases "cur s") (simp_all add: wait_def myproc_def)
  show ?thesis
  proof (cases "find (\<lambda>c. p_parent (procs s c) = Some p \<and> p_state (procs s c) = ZOMBIE) [0..<NPROC]")
    case None
    then have "t = s" using w p by (auto simp: wait_def myproc_def split: if_splits)
    then show ?thesis using ok by simp
  next
    case (Some c)
    then have "left_state (reap c s) = Some t" using w p by (simp add: wait_def myproc_def)
    then obtain r where "reap c s = Ok r t" using awakeD [OF awake_reap] by blast
    then show ?thesis using find_slot [OF Some] by (intro reap_ptable [OF ok]) simp_all
  qed
qed

section \<open>Exit\<close>

text \<open>The first \<open>n\<close> processes have been looked at for children of \<open>p\<close>.\<close>

definition passed :: "nat \<Rightarrow> nat \<Rightarrow> kernel \<Rightarrow> kernel \<Rightarrow> bool" where
  "passed p n s t \<longleftrightarrow> cur t = cur s \<and> initproc t = initproc s \<and> nextpid t = nextpid s \<and>
     (\<forall>c. p_pid (procs t c) = p_pid (procs s c) \<and> p_chan (procs t c) = p_chan (procs s c) \<and>
          (p_state (procs t c) = p_state (procs s c) \<or> p_state (procs s c) = SLEEPING \<and> p_state (procs t c) = RUNNABLE) \<and>
          p_parent (procs t c) = (if c < n \<and> p_parent (procs s c) = Some p then initproc s else p_parent (procs s c)))"

lemma passed_calm: "passed p n s t \<Longrightarrow> calm t u \<Longrightarrow> passed p n s u"
  unfolding passed_def calm_def by (metis procstate.distinct(17))

lemma passed_next:
  "passed p n s t \<Longrightarrow> p_parent (procs s n) \<noteq> Some p \<Longrightarrow> passed p (Suc n) s t"
  "passed p n s t \<Longrightarrow> p_parent (procs s n) = Some p \<Longrightarrow>
     passed p (Suc n) s (t\<lparr>procs := (procs t)(n := (procs t n)\<lparr>p_parent := initproc s\<rparr>)\<rparr>)"
  by (auto simp: passed_def less_Suc_eq)

lemma pass_children_passed: "\<exists>t. pass_children p s = Ok () t \<and> passed p NPROC s t"
proof -
  have "hoare (passed p c s)
      (bindK (get_proc c) (\<lambda>x. bindK (getsK initproc) (\<lambda>ini. whenK (p_parent x = Some p)
         (bindK (upd_proc c (\<lambda>x. x\<lparr>p_parent := ini\<rparr>)) (\<lambda>_.
          whenK (p_state x = ZOMBIE) (modifyK (wakeup1 (map_option Chan_proc ini))))))))
      (\<lambda>_. passed p (Suc c) s)" for c
  proof (rule hoareI)
    fix u
    assume u: "passed p c s u"
    then have e: "p_parent (procs u c) = p_parent (procs s c)" "initproc u = initproc s" by (simp_all add: passed_def)
    show "\<exists>x t. bindK (get_proc c) (\<lambda>x. bindK (getsK initproc) (\<lambda>ini. whenK (p_parent x = Some p)
         (bindK (upd_proc c (\<lambda>x. x\<lparr>p_parent := ini\<rparr>)) (\<lambda>_.
          whenK (p_state x = ZOMBIE) (modifyK (wakeup1 (map_option Chan_proc ini))))))) u = Ok x t \<and> passed p (Suc c) s t"
      using passed_next [OF u] passed_calm [OF passed_next(2) [OF u] calm_wakeup1]
      by (simp add: get_proc_def upd_proc_def e whenK_def)
  qed
  then have "hoare (passed p 0 s) (pass_children p) (\<lambda>_. passed p NPROC s)"
    unfolding pass_children_def by (rule hoare_for)
  moreover have "passed p 0 s s" by (simp add: passed_def)
  ultimately show ?thesis by (auto elim: hoareE)
qed

text \<open>The parts of \<open>exit\<close>: closing files and the directory, the wakeup of the parent, handing on the children,
  the state.\<close>

lemma exit_parts:
  assumes e: "exit s = Ok () t" and c: "cur s = Some p"
  obtains u v where "initproc s \<noteq> Some p" "calm s u" "passed p NPROC (wakeup1 (map_option Chan_proc (p_parent (procs s p))) u) v"
    "t = v\<lparr>procs := (procs v)(p := (procs v p)\<lparr>p_state := ZOMBIE\<rparr>)\<rparr>"
proof -
  let ?m = "bindK (forK [0..<NOFILE] (\<lambda>fd. bindK (get_proc p) (\<lambda>x. case p_ofile x fd of None \<Rightarrow> returnK ()
         | Some f \<Rightarrow> bindK (fileclose f) (\<lambda>_. upd_proc p (\<lambda>x. x\<lparr>p_ofile := (p_ofile x)(fd := None)\<rparr>))))) (\<lambda>_.
       bindK (get_proc p) (\<lambda>x. bindK (case p_cwd x of None \<Rightarrow> faultK ''no cwd'' | Some ip \<Rightarrow> iput ip) (\<lambda>_.
       upd_proc p (\<lambda>x. x\<lparr>p_cwd := None\<rparr>))))"
  have i: "initproc s \<noteq> Some p" using e c by (auto simp: exit_def myproc_def)
  let ?f = "\<lambda>_ :: unit. bindK (get_proc p) (\<lambda>x. bindK (modifyK (wakeup1 (map_option Chan_proc (p_parent x)))) (\<lambda>_.
      bindK (pass_children p) (\<lambda>_. upd_proc p (\<lambda>x. x\<lparr>p_state := ZOMBIE\<rparr>))))"
  have "bindK ?m ?f s = Ok () t"
    using e c i unfolding exit_def by (simp add: myproc_def bindK_assoc)
  then obtain u where u: "?m s = Ok () u" and f: "?f () u = Ok () t"
    by (subst (asm) bindK_Ok_iff) auto
  have t: "bindK (pass_children p) (\<lambda>_. upd_proc p (\<lambda>x. x\<lparr>p_state := ZOMBIE\<rparr>))
        (wakeup1 (map_option Chan_proc (p_parent (procs u p))) u) = Ok () t"
    using f by (simp add: get_proc_def)
  have k: "pt.keeps ?m" by (intro pt.keeps_intros calm; simp)
  have su: "calm s u" by (rule pt.keeps_Ok [OF k u])
  then have par: "p_parent (procs u p) = p_parent (procs s p)" by (simp add: calm_def)
  show thesis
    using that [OF i su] pass_children_passed [of p "wakeup1 (map_option Chan_proc (p_parent (procs s p))) u"] t
    by (auto simp: par bindK_Ok_iff upd_proc_Ok)
qed

lemma ptable_exit:
  assumes ok: "ptable_ok s" and c: "cur s = Some p" "initproc s \<noteq> Some p" and v: "passed p NPROC s v"
    and t: "procs t = (procs v)(p := (procs v p)\<lparr>p_state := ZOMBIE\<rparr>)" "cur t = None" "initproc t = initproc s" "nextpid t = nextpid s"
  shows "ptable_ok t"
proof -
  obtain i where i: "initproc s = Some i" "alive s i" "i \<noteq> p" using ok c(2) by (auto simp: ptable_ok_def)
  have f: "p_pid (procs t q) = p_pid (procs s q)" "p_chan (procs t q) = p_chan (procs s q)"
    "p_parent (procs t q) = (if q < NPROC \<and> p_parent (procs s q) = Some p then Some i else p_parent (procs s q))"
    "q \<noteq> p \<Longrightarrow> p_state (procs t q) = p_state (procs s q) \<or> p_state (procs s q) = SLEEPING \<and> p_state (procs t q) = RUNNABLE" for q
    using v i(1) by (auto simp: passed_def t(1))
  have z: "p_state (procs t p) = ZOMBIE" by (simp add: t(1))
  have r: "p_state (procs s q) = RUNNING \<longleftrightarrow> q = p" for q using slot_okD(1,2) [OF ok, of q] c(1) by auto
  have al: "alive s q \<Longrightarrow> q \<noteq> p \<Longrightarrow> alive t q" for q using f(4) [of q] by (auto simp: alive_def)
  have iu: "in_use t q = in_use s q" for q
    using f(4) [of q] z r [of q] by (cases "q = p") (auto simp: in_use_def)
  have "slot_ok t q" for q
  proof -
    have s: "slot_ok s q" using ok by (simp add: ptable_ok_def)
    have par: "in_use s q \<Longrightarrow> p_parent (procs s q) \<noteq> Some p \<Longrightarrow> p_parent (procs s q) = Some k \<Longrightarrow> alive t k" for k
      using slot_okD(7) [OF ok, of q k] al [of k] by auto
    have st: "p_state (procs t q) \<noteq> RUNNING" "p_state (procs t q) \<noteq> EMBRYO" "p_state (procs t q) = SLEEPING \<Longrightarrow> p_state (procs s q) = SLEEPING"
      using f(4) [of q] z r [of q] s by (cases "q = p"; auto simp: slot_ok_def)+
    show ?thesis using s st par al [OF i(2,3)] unfolding slot_ok_def iu f(1-3) t(2-4) by (auto simp: i(1) split: if_splits)
  qed
  moreover have "(\<lambda>q. p_pid (procs t q)) = (\<lambda>q. p_pid (procs s q))" by (rule ext) (rule f)
  then have "inj_on (\<lambda>p. p_pid (procs t p)) {p. in_use t p}" using ok by (simp add: iu ptable_ok_def)
  ultimately show ?thesis using i al t(3) by (auto simp: ptable_ok_def)
qed

lemma sched_switch:
  assumes "sched t = Ok () w"
  shows "procs w = procs t" "cur w = None" "initproc w = initproc t" "nextpid w = nextpid t"
  using assms unfolding sched_def myproc_def get_proc_def scheduler_back_def switchkvm_def bindK_assoc
  by (auto split: option.splits if_splits)

lemma exit_ptable:
  assumes ok: "ptable_ok s" and e: "exit s = Ok () t" and d: "sched t = Ok () w"
  shows "ptable_ok w" "cur w = None"
proof -
  obtain p where c: "cur s = Some p" using e by (cases "cur s") (simp_all add: exit_def myproc_def)
  obtain u v where u: "initproc s \<noteq> Some p" "calm s u" "passed p NPROC (wakeup1 (map_option Chan_proc (p_parent (procs s p))) u) v"
    "t = v\<lparr>procs := (procs v)(p := (procs v p)\<lparr>p_state := ZOMBIE\<rparr>)\<rparr>"
    by (rule exit_parts [OF e c])
  let ?x = "wakeup1 (map_option Chan_proc (p_parent (procs s p))) u"
  have x: "calm s ?x" by (rule pt.trans [OF u(2) calm_wakeup1])
  have cx: "cur ?x = Some p" "initproc ?x = initproc s" using x c by (simp_all add: calm_def)
  note w = sched_switch [OF d]
  show "ptable_ok w"
    by (rule ptable_exit [OF calm_ptable [OF x ok] cx(1) _ u(3)]) (use u(1,3) cx w in \<open>simp_all add: u(4) passed_def\<close>)
  show "cur w = None" by (rule w)
qed

section \<open>Traps\<close>

definition safe :: "kernel \<Rightarrow> kernel \<Rightarrow> bool" where
  "safe s t \<longleftrightarrow> (ptable_ok s \<longrightarrow> ptable_ok t)"

interpretation sf: frame safe
  by standard (auto simp: safe_def)

lemma calm_safe: "pt.keeps m \<Longrightarrow> sf.keeps m"
  unfolding pt.keeps_def sf.keeps_def safe_def using calm_ptable by blast

lemma awake_safe:
  assumes "awake m" and "\<And>s x t. ptable_ok s \<Longrightarrow> m s = Ok x t \<Longrightarrow> ptable_ok t"
  shows "sf.keeps m"
  unfolding sf.keeps_def safe_def using awakeD [OF assms(1)] assms(2) by blast

lemma awake_yield: "awake yield"
  unfolding yield_def sched_def scheduler_back_def switchkvm_def by (intro awake_intros awake)

lemma fork_safe: "sf.keeps fork"
  by (rule awake_safe [OF awake_fork]) (rule fork_ptable)

lemma yield_safe: "sf.keeps yield"
  by (rule awake_safe [OF awake_yield]) (rule yield_ptable [THEN conjunct1], simp_all)

lemma wait_safe: "sf.keeps wait"
  unfolding sf.keeps_def safe_def using wait_ptable by blast

lemma syscalls_safe: "\<forall>m\<in>set (syscalls junk rtc). sf.keeps m"
  unfolding syscalls_def sys_fork_def sys_wait_def
  by (simp only: list.set ball_simps) (intro conjI TrueI fork_safe wait_safe calm_safe calm)

lemma syscall_safe: "sf.keeps (syscall junk rtc)"
proof -
  have "0 < n \<Longrightarrow> n < 32 \<Longrightarrow> sf.keeps (syscalls junk rtc ! nat (n - 1))" for n :: int
    by (rule bspec [OF syscalls_safe nth_mem]) (simp add: syscalls_def)
  then show ?thesis
    unfolding syscall_def Let_def by (intro sf.keeps_intros ) (auto intro: calm_safe calm)
qed

lemma trap_safe: "sf.keeps (trap junk rtc cpu ds cr2 tf)"
  unfolding trap_def trap_end_def
  by (intro sf.keeps_intros syscall_safe yield_safe) (rule calm_safe, (rule calm; simp))+

section \<open>The first process\<close>

text \<open>The process table in the kernel's zeroed memory, with \<open>nextpid = 1\<close>.\<close>

definition no_procs :: "kernel \<Rightarrow> bool" where
  "no_procs s \<longleftrightarrow> cur s = None \<and> nextpid s = 1 \<and> (\<forall>p. p_state (procs s p) = UNUSED \<and> p_parent (procs s p) = None)"

lemma calm_inituvm: "pt.keeps (inituvm pgdir init)"
  unfolding inituvm_def by (intro pt.keeps_intros calm; simp?)

lemma ptable_first:
  assumes "\<And>q. q \<noteq> p \<Longrightarrow> p_state (procs t q) = UNUSED" "\<And>q. p_parent (procs t q) = None" "p_state (procs t p) = RUNNABLE"
    "p < NPROC" "p_pid (procs t p) = 1" "nextpid t = 2" "cur t = None" "initproc t = Some p"
  shows "ptable_ok t"
proof -
  have u: "in_use t q \<longleftrightarrow> q = p" for q using assms(1) [of q] assms(3) by (auto simp: in_use_def)
  have "slot_ok t q" for q using assms(1) [of q] assms(2-8) by (cases "q = p") (simp_all add: slot_ok_def u)
  moreover have "alive t p" by (simp add: alive_def assms(3))
  ultimately show ?thesis by (simp add: ptable_ok_def u assms(8))
qed

lemma userinit_ptable:
  assumes s: "no_procs s" and u: "userinit initcode s = Ok () t"
  shows "ptable_ok t"
proof -
  obtain np s1 where a: "allocproc s = Ok np s1" using u by (cases "allocproc s") (simp_all add: userinit_def)
  obtain p where p: "np = Some p" using u a by (cases np) (simp_all add: userinit_def)
  have b: "born s p None s1" "p < NPROC" using allocproc_born [OF _ a [unfolded p]] s by (auto simp: no_procs_def)
  let ?s = "s1\<lparr>initproc := Some p\<rparr>"
  let ?m = "bindK setupkvm (\<lambda>pgdir.
       bindK (upd_proc p (\<lambda>x. x\<lparr>p_pgdir := pgdir\<rparr>)) (\<lambda>_.
       if pgdir = 0 then panicK ''userinit: out of memory?''
       else bindK (inituvm pgdir initcode) (\<lambda>_.
         bindK (upd_proc p (\<lambda>x. x\<lparr>p_sz := PGSIZE,
            p_tf := zero_tf\<lparr>tf_cs := USER_CS, tf_ds := USER_DS, tf_es := USER_DS, tf_ss := USER_DS,
              tf_eflags := FL_IF, tf_esp := PGSIZE, tf_eip := 0\<rparr>,
            p_name := proc_name (str ''initcode'')\<rparr>)) (\<lambda>_.
         namei (str ''/'')))))"
  have bindK_if: "bindK (if c then panicK e else m) f = (if c then panicK e else bindK m f)" for c e f and m :: "nat option km"
    by (rule ext) simp
  have "bindK ?m (\<lambda>cwd. upd_proc p (\<lambda>x. x\<lparr>p_cwd := cwd, p_state := RUNNABLE\<rparr>)) ?s = Ok () t"
    using u a p by (simp add: userinit_def bindK_assoc bindK_if cong: if_cong)
  then obtain cwd v where v: "?m ?s = Ok cwd v"
    and t: "upd_proc p (\<lambda>x. x\<lparr>p_cwd := cwd, p_state := RUNNABLE\<rparr>) v = Ok () t"
    by (subst (asm) bindK_Ok_iff) auto
  have k: "pt.keeps ?m" by (intro pt.keeps_intros calm calm_inituvm; simp)
  have sv: "calm ?s v" by (rule pt.keeps_Ok [OF k v])
  have one: "cur s1 = None" "nextpid s1 = 2" "\<And>q. q \<noteq> p \<Longrightarrow> p_state (procs s1 q) = UNUSED \<and> p_parent (procs s1 q) = None"
    using b(1) s unfolding born_def calm_def grown_def no_procs_def by (auto split: if_splits)
  then have "p_state (procs v q) = UNUSED" if "q \<noteq> p" for q using sv that by (auto simp: calm_def dest!: spec [of _ q])
  then show ?thesis
    by (intro ptable_first [of p])
      (use one sv b born_slot [OF b(1)] s t in \<open>auto simp: upd_proc_Ok calm_def no_procs_def\<close>)
qed

section \<open>Runs of the machine\<close>

text \<open>The steps of one CPU: the scheduler picks a process; a trap runs to its end, to a sleep or to an exit; the
  process goes to sleep, and goes on after it was woken; it exits; \<open>wait\<close> looks at the table again; and
  the rest of a system call that had slept changes the table at most by waking processes.\<close>

inductive kstep :: "kernel \<Rightarrow> kernel \<Rightarrow> bool" where
  kstep_run: "cur s = None \<Longrightarrow> p_state (procs s p) = RUNNABLE \<Longrightarrow> scheduler_run p s = Ok () t \<Longrightarrow> kstep s t"
| kstep_trap: "left_state (trap junk rtc cpu ds cr2 tf s) = Some t \<Longrightarrow> kstep s t"
| kstep_sleep: "sleep c s = Ok () t \<Longrightarrow> kstep s t"
| kstep_resume: "sleep_return s = Ok () t \<Longrightarrow> kstep s t"
| kstep_exit: "exit s = Ok () t \<Longrightarrow> sched t = Ok () u \<Longrightarrow> kstep s u"
| kstep_wait: "left_state (wait s) = Some t \<Longrightarrow> kstep s t"
| kstep_calm: "calm s t \<Longrightarrow> kstep s t"

inductive reachable :: "uchar list \<Rightarrow> kernel \<Rightarrow> bool" for initcode where
  reachable_boot: "no_procs s \<Longrightarrow> userinit initcode s = Ok () t \<Longrightarrow> reachable initcode t"
| reachable_step: "reachable initcode s \<Longrightarrow> kstep s t \<Longrightarrow> reachable initcode t"

lemma kstep_ptable: "kstep s t \<Longrightarrow> ptable_ok s \<Longrightarrow> ptable_ok t"
proof (induction rule: kstep.induct)
  case (kstep_trap junk rtc cpu ds cr2 tf s t)
  then show ?case using trap_safe unfolding sf.keeps_def safe_def by blast
qed (use scheduler_run_ptable sleep_ptable sleep_return_ptable exit_ptable wait_ptable calm_ptable in \<open>blast+\<close>)

lemma reachable_ptable: "reachable initcode s \<Longrightarrow> ptable_ok s"
  by (induction rule: reachable.induct) (use userinit_ptable kstep_ptable in blast)+

text \<open>The states of a concrete machine: \<open>initproc\<close> waits for its child, which runs.\<close>

definition two_procs :: kernel where
  "two_procs = zero_kernel\<lparr>
     procs := (\<lambda>_. zero_proc)
       (0 := zero_proc\<lparr>p_state := SLEEPING, p_pid := 1, p_chan := Some (Chan_proc 0), p_pgdir := 0x80400000\<rparr>,
        1 := zero_proc\<lparr>p_state := RUNNING, p_pid := 2, p_parent := Some 0, p_cwd := Some 0\<rparr>),
     inodes := (\<lambda>_. zero_inode)(0 := zero_inode\<lparr>i_ref := 2\<rparr>),
     cur := Some 1, initproc := Some 0, nextpid := 3\<rparr>"

lemma two_procs_ok: "ptable_ok two_procs"
proof -
  have u: "in_use two_procs q \<longleftrightarrow> q = 0 \<or> q = 1" for q by (auto simp: in_use_def two_procs_def zero_proc_def)
  have a: "alive two_procs 0" by (simp add: alive_def two_procs_def)
  have "slot_ok two_procs q" for q
    using a unfolding slot_ok_def u by (auto simp: two_procs_def zero_proc_def NPROC_def)
  moreover have "inj_on (\<lambda>p. p_pid (procs two_procs p)) {p. in_use two_procs p}"
    unfolding u by (auto simp: inj_on_def two_procs_def)
  ultimately show ?thesis using a by (auto simp: ptable_ok_def two_procs_def)
qed

text \<open>\<open>exit\<close> of a process with no open files and no children whose directory others use too.\<close>

lemma exit_plain:
  assumes c: "cur s = Some p" "initproc s \<noteq> Some p" and f: "p_ofile (procs s p) = (\<lambda>_. None)" "p_cwd (procs s p) = Some ip"
    and i: "i_ref (inodes s ip) \<noteq> 1" and ch: "\<And>c. p_parent (procs s c) \<noteq> Some p"
  shows "exit s = Ok () ((\<lambda>x. x\<lparr>procs := (procs x)(p := (procs x p)\<lparr>p_state := ZOMBIE\<rparr>)\<rparr>)
    (wakeup1 (map_option Chan_proc (p_parent (procs s p)))
      (s\<lparr>inodes := (inodes s)(ip := (inodes s ip)\<lparr>i_ref := i_ref (inodes s ip) - 1\<rparr>),
         procs := (procs s)(p := (procs s p)\<lparr>p_cwd := None\<rparr>)\<rparr>)))"
proof -
  let ?x = "wakeup1 (map_option Chan_proc (p_parent (procs s p)))
      (s\<lparr>inodes := (inodes s)(ip := (inodes s ip)\<lparr>i_ref := i_ref (inodes s ip) - 1\<rparr>),
         procs := (procs s)(p := (procs s p)\<lparr>p_cwd := None\<rparr>)\<rparr>)"
  have fd: "forK fds (\<lambda>fd. bindK (get_proc p) (\<lambda>x. case p_ofile x fd of None \<Rightarrow> returnK () | Some f \<Rightarrow> m f fd)) s = Ok () s" for fds m
    by (induction fds) (simp_all add: get_proc_def f)
  have "p_parent (procs ?x c) \<noteq> Some p" for c using ch by (simp add: wakeup1_def)
  then have "forK cs (\<lambda>c. bindK (get_proc c) (\<lambda>x. bindK (getsK initproc) (\<lambda>ini. whenK (p_parent x = Some p) (m c x ini)))) ?x = Ok () ?x" for cs m
    by (induction cs) (simp_all add: get_proc_def)
  then have "pass_children p ?x = Ok () ?x" by (simp add: pass_children_def)
  moreover have "iput ip s = Ok () (s\<lparr>inodes := (inodes s)(ip := (inodes s ip)\<lparr>i_ref := i_ref (inodes s ip) - 1\<rparr>)\<rparr>)"
    using i by (simp add: iput_def get_inode_def upd_inode_def)
  moreover have "bindK (get_proc p) g u = g (procs u p) u" for g :: "proc \<Rightarrow> unit km" and u by (simp add: get_proc_def)
  ultimately show ?thesis
    using c f fd by (simp add: exit_def myproc_def upd_proc_def)
qed

lemma two_procs_exit: "\<exists>t u. exit two_procs = Ok () t \<and> sched t = Ok () u \<and> p_pgdir (procs u 0) = 0x80400000"
proof -
  have c: "cur two_procs = Some 1" by (simp add: two_procs_def)
  have p: "procs two_procs 1 = zero_proc\<lparr>p_state := RUNNING, p_pid := 2, p_parent := Some 0, p_cwd := Some 0\<rparr>"
    by (simp add: two_procs_def)
  obtain t where t: "exit two_procs = Ok () t" "cur t = Some 1" "p_state (procs t 1) = ZOMBIE" "p_pgdir (procs t 0) = 0x80400000"
    by (subst (asm) exit_plain [OF c]) (auto simp: two_procs_def zero_proc_def wakeup1_def)
  then show ?thesis by (auto simp: sched_def myproc_def get_proc_def scheduler_back_def switchkvm_def)
qed

section \<open>Properties\<close>



text \<open>C4. No wakeup of wait is lost: when the running process exits while its parent sleeps in wait, the
  parent is RUNNABLE after the switch to the scheduler, and when it is then run, the loop of wait finds a
  zombie child and frees it; it does not go to sleep again.\<close>

theorem exit_wakes_parent:
  assumes "ptable_ok s" and "cur s = Some p" and "p_parent (procs s p) = Some q"
    and "p_state (procs s q) = SLEEPING" and "p_chan (procs s q) = Some (Chan_proc q)"
    and "exit s = Ok () t" and "sched t = Ok () u" and "p_pgdir (procs u q) \<noteq> 0"
  shows "p_state (procs u q) = RUNNABLE \<and>
    (\<exists>v w c. scheduler_run q u = Ok () v \<and> sleep_return v = Ok () w \<and>
       p_parent (procs w c) = Some q \<and> p_state (procs w c) = ZOMBIE \<and> wait w = reap c w)"
proof -
  have q: "q \<noteq> p" using slot_okD(1) [OF assms(1,2)] assms(4) by auto
  obtain u0 v where u: "calm s u0" "passed p NPROC (wakeup1 (map_option Chan_proc (p_parent (procs s p))) u0) v"
    "t = v\<lparr>procs := (procs v)(p := (procs v p)\<lparr>p_state := ZOMBIE\<rparr>)\<rparr>"
    by (rule exit_parts [OF assms(6,2)]) blast
  let ?x = "wakeup1 (Some (Chan_proc q)) u0"
  have "q < NPROC" using slot_okD(5) [OF assms(1), of q] assms(4) by (simp add: in_use_def)
  then have "p_state (procs ?x q) = RUNNABLE" using u(1) assms(4,5) by (auto simp: calm_def wakeup1_def dest!: spec [of _ q])
  then have vq: "p_state (procs v q) = RUNNABLE" using u(2) assms(3) by (auto simp: passed_def dest!: spec [of _ q])
  have vp: "p_parent (procs v p) = Some q" 
    using u(2) assms(3) pt.trans [OF u(1) calm_wakeup1 [of u0 "Some (Chan_proc q)"]] q by (simp add: passed_def calm_def)
  note d = sched_switch [OF assms(7)]
  let ?y = "(procs u q)\<lparr>p_state := RUNNING, p_chan := None\<rparr>"
  obtain v' w where w: "scheduler_run q u = Ok () v'" "sleep_return v' = Ok () w" "procs w = (procs u)(q := ?y)" "cur w = Some q"
    using assms(8) by (auto simp: scheduler_run_def switchuvm_def sleep_return_def myproc_def get_proc_def upd_proc_def)
  have z: "p_parent (procs w p) = Some q \<and> p_state (procs w p) = ZOMBIE" using vp q by (simp add: w(3) d(1) u(3))
  have "p < NPROC" using slot_okD(1,5) [OF assms(1), of p] assms(2) by (auto simp: in_use_def)
  then obtain c where c: "find (\<lambda>c. p_parent (procs w c) = Some q \<and> p_state (procs w c) = ZOMBIE) [0..<NPROC] = Some c"
    using z by (cases "find (\<lambda>c. p_parent (procs w c) = Some q \<and> p_state (procs w c) = ZOMBIE) [0..<NPROC]") (auto simp: find_None_iff)
  have "wait w = reap c w" using c w(4) by (simp add: wait_def myproc_def)
  moreover have "p_state (procs u q) = RUNNABLE" using vq q by (simp add: d(1) u(3))
  ultimately show ?thesis using w(1,2) find_slot [OF c] by blast
qed

theorem exit_wakes_parent_witness:
  "\<exists>t u v w c. exit two_procs = Ok () t \<and> sched t = Ok () u \<and> p_state (procs u 0) = RUNNABLE \<and>
     scheduler_run 0 u = Ok () v \<and> sleep_return v = Ok () w \<and> wait w = reap c w"
proof -
  obtain t u where t: "exit two_procs = Ok () t" "sched t = Ok () u" "p_pgdir (procs u 0) = 0x80400000" using two_procs_exit by blast
  have "p_state (procs u 0) = RUNNABLE \<and> (\<exists>v w c. scheduler_run 0 u = Ok () v \<and> sleep_return v = Ok () w \<and>
       p_parent (procs w c) = Some 0 \<and> p_state (procs w c) = ZOMBIE \<and> wait w = reap c w)"
    by (rule exit_wakes_parent [OF two_procs_ok _ _ _ _ t(1,2), where p = 1]) (use t(3) in \<open>simp_all add: two_procs_def\<close>)
  then show ?thesis using t(1,2) by blast
qed

end
