(* ===== verification/Syscall_Spec.thy ===== *)
theory Syscall_Spec
  imports Trap
begin

text \<open>
  The checks of system call arguments (kernel/syscall.c): for a process whose address space is mapped, no
  argument makes the kernel fault or leave the process's memory, and a call with an unknown number fails.
\<close>

section \<open>Arguments\<close>

text \<open>The byte of user memory at \<open>va\<close>, and an address space with all bytes below \<open>sz\<close> mapped.\<close>

definition ubyte :: "kernel \<Rightarrow> uint \<Rightarrow> uchar" where
  "ubyte s va = km_mem (kmem s) (the (translate (km_mem (kmem s)) (p2v (cr3 s)) False va))"

definition mapped_below :: "kernel \<Rightarrow> uint \<Rightarrow> bool" where
  "mapped_below s sz \<longleftrightarrow> (\<forall>va. va < sz \<longrightarrow> translate (km_mem (kmem s)) (p2v (cr3 s)) False va \<noteq> None)"

lemma uread_mapped:
  assumes "mapped_below s sz" and "uint va + int n \<le> uint sz"
  shows "uread va n s = Ok (map (\<lambda>i. ubyte s (va + of_nat i)) [0..<n]) s"
  using assms(2)
proof (induction n arbitrary: va)
  case (Suc n)
  have "va < sz" using Suc.prems by (simp add: word_less_def)
  then obtain a where a: "translate (km_mem (kmem s)) (p2v (cr3 s)) False va = Some a"
    using assms(1) by (auto simp: mapped_below_def)
  have m: "uint (va + 1) + int n \<le> uint sz" if "0 < n"
  proof -
    have "uint va + 1 < 2 ^ 32" using Suc.prems that uint_bounded [of sz] by simp
    then have "uint (va + 1) = uint va + 1" by (simp add: uint_word_ariths)
    then show ?thesis using Suc.prems by simp
  qed
  have "uread (va + 1) n s = Ok (map (\<lambda>i. ubyte s (va + 1 + of_nat i)) [0..<n]) s"
    using Suc.IH [OF m] by (cases "n = 0") simp_all
  moreover have "map f [0..<Suc n] = f 0 # map (\<lambda>i. f (Suc i)) [0..<n]" for f :: "nat \<Rightarrow> uchar"
    by (simp add: upt_conv_Cons map_Suc_upt [symmetric] del: upt_Suc map_Suc_upt)
  ultimately show ?case by (simp add: access_def a ubyte_def algebra_simps del: upt_Suc)
qed simp

text \<open>The word at \<open>va\<close>.\<close>

definition uword :: "kernel \<Rightarrow> uint \<Rightarrow> uint" where
  "uword s va = bytes_word (map (\<lambda>i. ubyte s (va + of_nat i)) [0..<4])"

lemma fetchint_mapped:
  assumes c: "cur s = Some p" and m: "mapped_below s (p_sz (procs s p))" and z: "p_sz (procs s p) \<le> KERNBASE"
  shows "fetchint va s = Ok (if uint va + 4 \<le> uint (p_sz (procs s p)) then Some (uword s va) else None) s"
proof -
  let ?sz = "p_sz (procs s p)"
  have k: "uint ?sz \<le> 2 ^ 31" using z by (simp add: word_le_def KERNBASE_def)
  have "(va \<ge> ?sz \<or> va + 4 > ?sz) \<longleftrightarrow> \<not> uint va + 4 \<le> uint ?sz"
  proof (cases "va \<ge> ?sz")
    case True
    then show ?thesis by (simp add: word_le_def)
  next
    case False
    then have "uint va < uint ?sz" by (simp add: word_le_def)
    then have "uint (va + 4) = uint va + 4" using k by (simp add: uint_word_ariths)
    then show ?thesis using False by (auto simp: word_less_def)
  qed
  then show ?thesis using c uread_mapped [OF m, of va 4]
    by (auto simp: fetchint_def cur_sz_def myproc_def uword_def)
qed

lemma argint_mapped:
  fixes n :: nat
  assumes "cur s = Some p" and "mapped_below s (p_sz (procs s p))" and "p_sz (procs s p) \<le> KERNBASE"
  defines "va \<equiv> tf_esp (p_tf (procs s p)) + 4 + 4 * of_nat n"
  shows "argint n s = Ok (if uint va + 4 \<le> uint (p_sz (procs s p)) then Some (uword s va) else None) s"
  using fetchint_mapped [OF assms(1-3), of va] assms(1) by (simp add: argint_def myproc_def get_proc_def va_def)

lemma argptr_mapped:
  assumes c: "cur s = Some p" and m: "mapped_below s (p_sz (procs s p))" and z: "p_sz (procs s p) \<le> KERNBASE"
    and len: "0 \<le> len" "len < 2 ^ 31"
  shows "\<exists>r. argptr n len s = Ok r s \<and> (\<forall>a. r = Some a \<longrightarrow> a < p_sz (procs s p) \<and> uint a + len \<le> uint (p_sz (procs s p)))"
proof -
  let ?sz = "p_sz (procs s p)"
  have k: "uint ?sz \<le> 2 ^ 31" using z by (simp add: word_le_def KERNBASE_def)
  have "a < ?sz \<and> uint a + len \<le> uint ?sz" if "\<not> (a \<ge> ?sz \<or> a + word_of_int len > ?sz)" for a
  proof -
    have "uint a < uint ?sz" using that by (simp add: word_le_def)
    then have "uint (a + word_of_int len) = uint a + len" using k len by (simp add: uint_word_ariths uint_word_of_int)
    then show ?thesis using that by (auto simp: word_less_def word_le_def)
  qed
  then show ?thesis using argint_mapped [OF c m z, of n] c
    by (auto simp: argptr_def cur_sz_def myproc_def)
qed

text \<open>The scan for the end of a string.\<close>

lemma fetchstr_loop_mapped:
  assumes m: "mapped_below s sz" and n: "uint va + int n \<le> uint sz"
  shows "\<exists>r. fetchstr_loop va n len s = Ok r s \<and>
    (r = - 1 \<or> (\<exists>k<n. r = len + int k \<and> ubyte s (va + of_nat k) = 0 \<and> (\<forall>i<k. ubyte s (va + of_nat i) \<noteq> 0)))"
  using n
proof (induction n arbitrary: va len)
  case (Suc n)
  have b: "uread va 1 s = Ok [ubyte s va] s" using uread_mapped [OF m, of va 1] Suc.prems by simp
  show ?case
  proof (cases "ubyte s va = 0")
    case True
    then show ?thesis using b by (auto intro!: exI [of _ 0])
  next
    case False
    have "uint (va + 1) + int n \<le> uint sz \<or> n = 0"
    proof (cases "n = 0")
      case False
      then have "uint va + 1 < 2 ^ 32" using Suc.prems uint_bounded [of sz] by simp
      then have "uint (va + 1) = uint va + 1" by (simp add: uint_word_ariths)
      then show ?thesis using Suc.prems by simp
    qed simp
    then have "\<exists>r. fetchstr_loop (va + 1) n (len + 1) s = Ok r s \<and>
        (r = - 1 \<or> (\<exists>k<n. r = len + 1 + int k \<and> ubyte s (va + 1 + of_nat k) = 0 \<and> (\<forall>i<k. ubyte s (va + 1 + of_nat i) \<noteq> 0)))"
      using Suc.IH by (cases "n = 0") auto
    then obtain r where r: "fetchstr_loop (va + 1) n (len + 1) s = Ok r s" and c: "r = - 1 \<or> (\<exists>k<n. r = len + 1 + int k \<and>
        ubyte s (va + 1 + of_nat k) = 0 \<and> (\<forall>i<k. ubyte s (va + 1 + of_nat i) \<noteq> 0))" by blast
    have "\<exists>k<Suc n. r = len + int k \<and> ubyte s (va + of_nat k) = 0 \<and> (\<forall>i<k. ubyte s (va + of_nat i) \<noteq> 0)"
      if k: "k < n" "r = len + 1 + int k" "ubyte s (va + 1 + of_nat k) = 0" "\<forall>i<k. ubyte s (va + 1 + of_nat i) \<noteq> 0" for k
      using k False by (intro exI [of _ "Suc k"]) (auto simp: less_Suc_eq_0_disj algebra_simps)
    then show ?thesis using b False r c by auto
  qed
qed simp

lemma argstr_mapped:
  assumes c: "cur s = Some p" and m: "mapped_below s (p_sz (procs s p))" and z: "p_sz (procs s p) \<le> KERNBASE"
  shows "\<exists>r pp. argstr n s = Ok (r, pp) s \<and> (r = - 1 \<or> (\<exists>a k. pp = Some a \<and> r = int k \<and>
    uint a + r < uint (p_sz (procs s p)) \<and> ubyte s (a + of_nat k) = 0 \<and> (\<forall>i<k. ubyte s (a + of_nat i) \<noteq> 0)))"
proof -
  let ?sz = "p_sz (procs s p)"
  have "\<exists>r pp. fetchstr a s = Ok (r, pp) s \<and> (r = - 1 \<or> pp = Some a \<and> (\<exists>k. r = int k \<and>
      uint a + r < uint ?sz \<and> ubyte s (a + of_nat k) = 0 \<and> (\<forall>i<k. ubyte s (a + of_nat i) \<noteq> 0)))" for a
  proof (cases "a \<ge> ?sz")
    case True
    then show ?thesis using c by (simp add: fetchstr_def cur_sz_def myproc_def)
  next
    case False
    then have u: "uint a + int (unat (?sz - a)) = uint ?sz" by (simp add: word_le_nat_alt unat_sub of_nat_diff)
    obtain r where r: "fetchstr_loop a (unat (?sz - a)) 0 s = Ok r s" "r = - 1 \<or> (\<exists>k<unat (?sz - a). r = 0 + int k \<and>
        ubyte s (a + of_nat k) = 0 \<and> (\<forall>i<k. ubyte s (a + of_nat i) \<noteq> 0))"
      using fetchstr_loop_mapped [OF m, of a "unat (?sz - a)" 0] u by auto
    have "fetchstr a s = Ok (r, Some a) s" using False c r(1) by (simp add: fetchstr_def cur_sz_def myproc_def)
    moreover have "uint a + int k < uint ?sz" if "k < unat (?sz - a)" for k using that u by linarith
    ultimately show ?thesis using r(2) by auto
  qed
  note f = this
  show ?thesis
  proof (cases "uint (tf_esp (p_tf (procs s p)) + 4 + 4 * of_nat n) + 4 \<le> uint ?sz")
    case True
    then have "argstr n s = fetchstr (uword s (tf_esp (p_tf (procs s p)) + 4 + 4 * of_nat n)) s"
      using argint_mapped [OF c m z, of n] by (simp add: argstr_def)
    then show ?thesis using f [of "uword s (tf_esp (p_tf (procs s p)) + 4 + 4 * of_nat n)"] by metis
  next
    case False
    then show ?thesis using argint_mapped [OF c m z, of n] by (simp add: argstr_def)
  qed
qed


section \<open>Unknown calls\<close>

lemma format_plain:
  "0x25 \<notin> set t \<Longrightarrow> format_text (t @ c # fmt) args = map_option (append t) (format_text (c # fmt) args)"
proof (induction t)
  case (Cons d t)
  then show ?case by (cases t) (auto simp: option.map_comp comp_def)
qed (cases "format_text (c # fmt) args"; simp)

text \<open>C16. A system call number that is not in the table prints a message and returns -1 to the caller; nothing
  else changes.\<close>

theorem syscall_unknown:
  assumes "cur s = Some p" and "\<not> (0 < sint (tf_eax (p_tf (procs s p))) \<and> sint (tf_eax (p_tf (procs s p))) < 32)"
    and "\<not> con_panicked (cons s)" and "con_uart (cons s)"
  shows "\<exists>k. syscall junk rtc s = Ok () (s\<lparr>cons := k,
      procs := (procs s)(p := (procs s p)\<lparr>p_tf := (p_tf (procs s p))\<lparr>tf_eax := - 1\<rparr>\<rparr>)\<rparr>) \<and>
    con_uart_out k = con_uart_out (cons s) @ int_text (word_of_int (p_pid (procs s p))) 10 True @ [0x20] @
      p_name (procs s p) @ str '': unknown sys call '' @ int_text (tf_eax (p_tf (procs s p))) 10 True @ [0x0A]"
proof -
  let ?x = "procs s p"
  let ?fmt = "str ''%d %s: unknown sys call %d'' @ [10]"
  let ?args = "[Arg_int (word_of_int (p_pid ?x)), Arg_str (Some (p_name ?x)), Arg_int (tf_eax (p_tf ?x))]"
  let ?out = "int_text (word_of_int (p_pid ?x)) 10 True @ [0x20] @ p_name ?x @ str '': unknown sys call '' @
    int_text (tf_eax (p_tf ?x)) 10 True @ [0x0A]"
  have "?fmt = 0x25 # 0x64 # [0x20] @ 0x25 # 0x73 # str '': unknown sys call '' @ 0x25 # 0x64 # [0x0A]" by (simp add: str_def)
  moreover have "0x25 \<notin> set (str '': unknown sys call '')" by (simp add: str_def)
  ultimately have "format_text ?fmt ?args = Some ?out" using format_plain [of "str '': unknown sys call ''"] format_plain [of "[0x20]"]
    by (simp add: conv_text_def)
  from printsE [OF cprintf_prints [OF this] assms(3,4)] obtain k where
    k: "cprintf ?fmt ?args s = Ok () (s\<lparr>cons := k\<rparr>)" "con_uart_out k = con_uart_out (cons s) @ ?out" by blast
  have "syscall junk rtc s = Ok () (s\<lparr>cons := k, procs := (procs s)(p := ?x\<lparr>p_tf := (p_tf ?x)\<lparr>tf_eax := - 1\<rparr>\<rparr>)\<rparr>)"
  proof -
    have "syscall junk rtc s = bindK (cprintf ?fmt ?args) (\<lambda>_. set_eax (- 1)) s"
      using assms(1) unfolding syscall_def Let_def myproc_def get_proc_def by (simp del: cprintf.simps add: if_not_P [OF assms(2)])
    then show ?thesis using k(1) assms(1) by (simp add: set_eax_def myproc_def upd_proc_def del: cprintf.simps)
  qed
  with k(2) show ?thesis by blast
qed

text \<open>A machine that runs a process of eight bytes, with a page directory, a page table and one page.\<close>

definition small_proc :: kernel where
  "small_proc = zero_kernel\<lparr>cur := Some 1, cr3 := 0x100000, cons := (cons zero_kernel)\<lparr>con_uart := True\<rparr>,
     kmem := (kmem zero_kernel)\<lparr>km_mem := store32 (store32 (\<lambda>_. 0) 0x80100000 0x101007) 0x80101000 0x102007\<rparr>,
     procs := (\<lambda>_. zero_proc)(1 := zero_proc\<lparr>p_sz := 8, p_pid := 7, p_name := str ''sh'', p_tf := zero_tf\<lparr>tf_eax := 99\<rparr>\<rparr>)\<rparr>"

lemma small_proc_mapped: "mapped_below small_proc 8"
  unfolding mapped_below_def
proof (intro allI impI)
  fix va :: uint
  assume "va < 8"
  then have "unat va < 8" by (simp add: word_less_nat_alt)
  then have "drop_bit 12 va = 0" "drop_bit 22 va = 0" by (simp_all add: word_unat_eq_iff drop_bit_eq_div unat_div)
  then have i: "PDX va = 0" "PTX va = 0" by (simp_all add: PDX_def PTX_def)
  show "translate (km_mem (kmem small_proc)) (p2v (cr3 small_proc)) False va \<noteq> None"
    by (simp add: translate_def i small_proc_def p2v_def KERNBASE_def PTE_P_def PTE_ADDR_def load32_def store32_def)
qed


theorem syscall_unknown_witness:
  "\<exists>k. syscall 0 (\<lambda>_. 0) small_proc = Ok () (small_proc\<lparr>cons := k,
      procs := (procs small_proc)(1 := (procs small_proc 1)\<lparr>p_tf := zero_tf\<lparr>tf_eax := - 1\<rparr>\<rparr>)\<rparr>)"
  using syscall_unknown [of small_proc 1 0 "\<lambda>_. 0"] by (auto simp: small_proc_def zero_kernel_def zero_tf_def)

end
