(* ===== verification/Spinlock.thy ===== *)
theory Spinlock
  imports Prelude
begin

text \<open>
  Spinlocks (kernel/spinlock.c) on several CPUs. \<open>acquire\<close> and \<open>release\<close> are split at their atomic
  \<open>xchg\<close> instructions; the CPUs run the pieces in any order. The call stack that \<open>getcallerpcs\<close>
  records for debugging is left out.
\<close>

section \<open>State\<close>

text \<open>\<open>struct spinlock\<close> (spinlock.h); the fields \<open>ncli\<close> and \<open>intena\<close> of \<open>struct cpu\<close> (proc.h) with the
  interrupt flag of the CPU's status register.\<close>

record spinlock =
  lk_locked :: bool
  lk_cpu :: "nat option"

record cpust =
  ncli :: int
  intena :: bool
  eflags_if :: bool

section \<open>Operations\<close>

definition initlock :: spinlock where
  "initlock = \<lparr>lk_locked = False, lk_cpu = None\<rparr>"

definition pushcli :: "cpust \<Rightarrow> cpust" where
  "pushcli k = k\<lparr>eflags_if := False, ncli := ncli k + 1,
     intena := (if ncli k = 0 then eflags_if k else intena k)\<rparr>"

text \<open>\<open>Inl\<close> is the message of a panic.\<close>

definition popcli :: "cpust \<Rightarrow> string + cpust" where
  "popcli k =
     (if eflags_if k then Inl ''popcli - interruptible''
      else if ncli k - 1 < 0 then Inl ''popcli''
      else Inr (k\<lparr>ncli := ncli k - 1, eflags_if := (if ncli k - 1 = 0 \<and> intena k then True else eflags_if k)\<rparr>))"

definition holding :: "spinlock \<Rightarrow> nat \<Rightarrow> bool" where
  "holding lk c \<longleftrightarrow> lk_locked lk \<and> lk_cpu lk = Some c"

text \<open>\<open>acquire\<close>: up to the loop, one \<open>xchg(&lk->locked, 1)\<close> with the value it returns, and the rest.\<close>

definition acquire_begin :: "spinlock \<Rightarrow> nat \<Rightarrow> cpust \<Rightarrow> string + cpust" where
  "acquire_begin lk c k = (if holding lk c then Inl ''acquire'' else Inr (pushcli k))"

definition acquire_xchg :: "spinlock \<Rightarrow> bool \<times> spinlock" where
  "acquire_xchg lk = (lk_locked lk, lk\<lparr>lk_locked := True\<rparr>)"

definition acquire_end :: "nat \<Rightarrow> spinlock \<Rightarrow> spinlock" where
  "acquire_end c lk = lk\<lparr>lk_cpu := Some c\<rparr>"

text \<open>\<open>release\<close>: up to its \<open>xchg\<close>, and the \<open>xchg\<close> with \<open>popcli\<close>.\<close>

definition release_begin :: "spinlock \<Rightarrow> nat \<Rightarrow> string + spinlock" where
  "release_begin lk c = (if \<not> holding lk c then Inl ''release'' else Inr (lk\<lparr>lk_cpu := None\<rparr>))"

definition release_xchg :: "spinlock \<Rightarrow> spinlock" where
  "release_xchg lk = lk\<lparr>lk_locked := False\<rparr>"

section \<open>The machine\<close>

text \<open>Where a CPU is: in neither function, in the loop of \<open>acquire\<close>, between the successful \<open>xchg\<close> and
  the end of \<open>acquire\<close>, or between the two parts of \<open>release\<close>.\<close>

datatype lpc = Run | Spin nat | Got nat | Rel nat

record smp =
  locks :: "nat \<Rightarrow> spinlock"
  cpus :: "nat \<Rightarrow> cpust"
  pcs :: "nat \<Rightarrow> lpc"

text \<open>The step relation: any CPU may start to acquire a lock it does not hold, go on with what it has
  started, release a lock it holds, or change its interrupt flag outside \<open>pushcli\<close>.\<close>

inductive smp_step :: "smp \<Rightarrow> smp \<Rightarrow> bool" where
  acq_begin: "pcs m c = Run \<Longrightarrow> acquire_begin (locks m l) c (cpus m c) = Inr k \<Longrightarrow>
    smp_step m (m\<lparr>cpus := (cpus m)(c := k), pcs := (pcs m)(c := Spin l)\<rparr>)"
| acq_spin: "pcs m c = Spin l \<Longrightarrow> acquire_xchg (locks m l) = (True, lk) \<Longrightarrow>
    smp_step m (m\<lparr>locks := (locks m)(l := lk)\<rparr>)"
| acq_got: "pcs m c = Spin l \<Longrightarrow> acquire_xchg (locks m l) = (False, lk) \<Longrightarrow>
    smp_step m (m\<lparr>locks := (locks m)(l := lk), pcs := (pcs m)(c := Got l)\<rparr>)"
| acq_end: "pcs m c = Got l \<Longrightarrow>
    smp_step m (m\<lparr>locks := (locks m)(l := acquire_end c (locks m l)), pcs := (pcs m)(c := Run)\<rparr>)"
| rel_begin: "pcs m c = Run \<Longrightarrow> release_begin (locks m l) c = Inr lk \<Longrightarrow>
    smp_step m (m\<lparr>locks := (locks m)(l := lk), pcs := (pcs m)(c := Rel l)\<rparr>)"
| rel_end: "pcs m c = Rel l \<Longrightarrow> popcli (cpus m c) = Inr k \<Longrightarrow>
    smp_step m (m\<lparr>locks := (locks m)(l := release_xchg (locks m l)), cpus := (cpus m)(c := k), pcs := (pcs m)(c := Run)\<rparr>)"
| set_if: "pcs m c = Run \<Longrightarrow> ncli (cpus m c) = 0 \<Longrightarrow>
    smp_step m (m\<lparr>cpus := (cpus m)(c := (cpus m c)\<lparr>eflags_if := b\<rparr>)\<rparr>)"

inductive_cases smp_stepE: "smp_step m m'"

definition smp_init :: smp where
  "smp_init = \<lparr>locks = (\<lambda>_. initlock), cpus = (\<lambda>_. \<lparr>ncli = 0, intena = False, eflags_if = True\<rparr>), pcs = (\<lambda>_. Run)\<rparr>"

section \<open>Invariant\<close>

text \<open>The locks a CPU holds as \<open>holding\<close> sees them, and the CPUs a lock belongs to, those in the middle
  of \<open>acquire\<close> and \<open>release\<close> included.\<close>

definition held :: "smp \<Rightarrow> nat \<Rightarrow> nat set" where
  "held m c = {l. lk_cpu (locks m l) = Some c}"

definition owns :: "smp \<Rightarrow> nat \<Rightarrow> nat \<Rightarrow> bool" where
  "owns m c l \<longleftrightarrow> pcs m c = Got l \<or> pcs m c = Rel l \<or> lk_cpu (locks m l) = Some c"

definition pending :: "lpc \<Rightarrow> int" where
  "pending p = (if p = Run then 0 else 1)"

definition lock_inv :: "smp \<Rightarrow> bool" where
  "lock_inv m \<longleftrightarrow>
     (\<forall>l c d. owns m c l \<longrightarrow> owns m d l \<longrightarrow> c = d) \<and>
     (\<forall>l c. owns m c l \<longrightarrow> lk_locked (locks m l)) \<and>
     (\<forall>l c. pcs m c = Got l \<or> pcs m c = Rel l \<longrightarrow> lk_cpu (locks m l) = None)"

definition cli_ok :: "nat set \<Rightarrow> lpc \<Rightarrow> cpust \<Rightarrow> bool" where
  "cli_ok H p k \<longleftrightarrow> finite H \<and> int (card H) + pending p \<le> ncli k \<and> (0 < ncli k \<longrightarrow> \<not> eflags_if k)"

definition cli_inv :: "smp \<Rightarrow> bool" where
  "cli_inv m \<longleftrightarrow> (\<forall>c. cli_ok (held m c) (pcs m c) (cpus m c))"

lemmas smp_ops = acquire_begin_def acquire_xchg_def acquire_end_def release_begin_def release_xchg_def
  holding_def

lemma lock_inv_step: "smp_step m m' \<Longrightarrow> lock_inv m \<Longrightarrow> lock_inv m'"
proof (induction rule: smp_step.induct)
  case (acq_begin m c l k)
  then show ?case by (force simp: lock_inv_def owns_def smp_ops)
next
  case (acq_spin m c l lk)
  then show ?case by (auto simp: lock_inv_def owns_def smp_ops)
next
  case (acq_got m c l lk)
  then have "lk_cpu (locks m l) = None"
    by (cases "lk_cpu (locks m l)") (auto simp: lock_inv_def owns_def smp_ops)
  with acq_got show ?case by (auto simp: lock_inv_def owns_def smp_ops split: if_splits)
next
  case (acq_end m c l)
  then show ?case by (auto simp: lock_inv_def owns_def smp_ops split: if_splits)
next
  case (rel_begin m c l lk)
  then show ?case by (auto simp: lock_inv_def owns_def smp_ops split: if_splits)
next
  case (rel_end m c l k)
  then show ?case by (auto simp: lock_inv_def owns_def smp_ops split: if_splits)
next
  case (set_if m c b)
  then show ?case by (auto simp: lock_inv_def owns_def)
qed

lemma lock_inv_none: "lock_inv m \<Longrightarrow> pcs m c = Got l \<Longrightarrow> lk_cpu (locks m l) = None"
  unfolding lock_inv_def by blast

lemma held_upd:
  "held (m\<lparr>locks := (locks m)(l := lk)\<rparr>) c =
     (if lk_cpu lk = Some c then insert l (held m c) else held m c - {l})"
  by (auto simp: held_def)

lemma held_other [simp]:
  "held (m\<lparr>cpus := x\<rparr>) = held m" "held (m\<lparr>pcs := y\<rparr>) = held m"
  by (auto simp: held_def fun_eq_iff)

lemma held_upd_pc [simp]:
  "held (m\<lparr>locks := x, pcs := y\<rparr>) = held (m\<lparr>locks := x\<rparr>)"
  "held (m\<lparr>locks := x, cpus := z, pcs := y\<rparr>) = held (m\<lparr>locks := x\<rparr>)"
  "held (m\<lparr>cpus := z, pcs := y\<rparr>) = held m"
  by (auto simp: held_def fun_eq_iff)

lemma pending_simps [simp]: "pending Run = 0" "pending (Spin l) = 1" "pending (Got l) = 1" "pending (Rel l) = 1"
  by (simp_all add: pending_def)

lemma pending_nonneg: "0 \<le> pending p"
  by (simp add: pending_def)

lemma cli_inv_at:
  assumes "cli_inv m" and "cli_ok (held m' c) (pcs m' c) (cpus m' c)"
    and "\<And>d. d \<noteq> c \<Longrightarrow> held m' d = held m d" and "\<And>d. d \<noteq> c \<Longrightarrow> pcs m' d = pcs m d"
    and "\<And>d. d \<noteq> c \<Longrightarrow> cpus m' d = cpus m d"
  shows "cli_inv m'"
  unfolding cli_inv_def
proof
  fix d
  show "cli_ok (held m' d) (pcs m' d) (cpus m' d)"
    using assms by (cases "d = c") (simp_all add: cli_inv_def)
qed

lemma lock_same: "lk_cpu (locks m l) = lk_cpu lk \<Longrightarrow> held (m\<lparr>locks := (locks m)(l := lk)\<rparr>) = held m"
  by (auto simp: held_def fun_eq_iff)

lemma pushcli_fields [simp]: "ncli (pushcli k) = ncli k + 1" "\<not> eflags_if (pushcli k)"
  by (simp_all add: pushcli_def)

lemma popcli_fields:
  "popcli k = Inr k' \<Longrightarrow> ncli k' = ncli k - 1 \<and> 0 \<le> ncli k' \<and> (0 < ncli k' \<longrightarrow> \<not> eflags_if k')"
  by (auto simp: popcli_def split: if_splits)

lemma cli_inv_ok: "cli_inv m \<Longrightarrow> cli_ok (held m c) (pcs m c) (cpus m c)"
  by (simp add: cli_inv_def)

lemma cli_inv_step: "smp_step m m' \<Longrightarrow> cli_inv m \<Longrightarrow> lock_inv m \<Longrightarrow> cli_inv m'"
proof (induction rule: smp_step.induct)
  case (acq_begin m c l k)
  have k: "k = pushcli (cpus m c)" using acq_begin.hyps by (simp add: acquire_begin_def split: if_splits)
  show ?case
    by (rule cli_inv_at [of m _ c])
      (use k acq_begin.hyps(1) acq_begin.prems(1) cli_inv_ok [OF acq_begin.prems(1), of c] in \<open>simp_all add: cli_ok_def\<close>)
next
  case (acq_spin m c l lk)
  have h: "held (m\<lparr>locks := (locks m)(l := lk)\<rparr>) = held m"
    using acq_spin.hyps(2) by (intro lock_same) (auto simp: acquire_xchg_def)
  show ?case using acq_spin.prems(1) by (simp add: cli_inv_def h)
next
  case (acq_got m c l lk)
  have h: "held (m\<lparr>locks := (locks m)(l := lk)\<rparr>) = held m"
    using acq_got.hyps(2) by (intro lock_same) (auto simp: acquire_xchg_def)
  show ?case
    by (rule cli_inv_at [of m _ c])
      (use acq_got.hyps(1) acq_got.prems(1) cli_inv_ok [OF acq_got.prems(1), of c] in \<open>simp_all add: cli_ok_def h\<close>)
next
  case (acq_end m c l)
  have l: "l \<notin> held m d" for d using lock_inv_none [OF acq_end.prems(2) acq_end.hyps] by (simp add: held_def)
  have h: "held (m\<lparr>locks := (locks m)(l := acquire_end c (locks m l))\<rparr>) d =
      (if d = c then insert l (held m c) else held m d)" for d
    using l by (auto simp: held_upd acquire_end_def)
  show ?case
    by (rule cli_inv_at [of m _ c])
      (use acq_end.hyps(1) acq_end.prems(1) cli_inv_ok [OF acq_end.prems(1), of c] l in \<open>simp_all add: cli_ok_def h\<close>)
next
  case (rel_begin m c l lk)
  have lk: "lk_cpu (locks m l) = Some c" "lk_cpu lk = None"
    using rel_begin.hyps(2) by (auto simp: smp_ops split: if_splits)
  then have l: "l \<in> held m c" "\<And>d. d \<noteq> c \<Longrightarrow> l \<notin> held m d" by (auto simp: held_def)
  then have h: "held (m\<lparr>locks := (locks m)(l := lk)\<rparr>) d = (if d = c then held m c - {l} else held m d)" for d
    using lk by (auto simp: held_upd)
  have "finite (held m c)" using rel_begin.prems(1) by (simp add: cli_inv_def cli_ok_def)
  moreover from this have "0 < card (held m c)" using l(1) card_gt_0_iff by blast
  ultimately have k: "int (card (held m c - {l})) = int (card (held m c)) - 1"
    using l(1) by (simp add: of_nat_diff Suc_leI)
  show ?case
    by (rule cli_inv_at [of m _ c])
      (use k rel_begin.hyps(1) rel_begin.prems(1) cli_inv_ok [OF rel_begin.prems(1), of c] in \<open>simp_all add: cli_ok_def h\<close>)
next
  case (rel_end m c l k)
  have h: "held (m\<lparr>locks := (locks m)(l := release_xchg (locks m l))\<rparr>) = held m"
    by (intro lock_same) (simp add: release_xchg_def)
  show ?case
    by (rule cli_inv_at [of m _ c])
      (use rel_end.hyps(1) rel_end.prems(1) popcli_fields [OF rel_end.hyps(2)] cli_inv_ok [OF rel_end.prems(1), of c] in \<open>simp_all add: cli_ok_def h\<close>)
next
  case (set_if m c b)
  show ?case
    by (rule cli_inv_at [of m _ c])
      (use set_if cli_inv_ok [OF set_if.prems(1), of c] in \<open>simp_all add: cli_ok_def\<close>)
qed

text \<open>The reachable states.\<close>

lemma smp_reachable: "smp_step\<^sup>*\<^sup>* smp_init m \<Longrightarrow> lock_inv m \<and> cli_inv m"
proof (induction rule: rtranclp_induct)
  case base
  show ?case
    by (auto simp: smp_init_def lock_inv_def cli_inv_def cli_ok_def owns_def held_def initlock_def)
next
  case (step m m')
  then show ?case using lock_inv_step cli_inv_step by blast
qed

section \<open>Properties\<close>

text \<open>C5. Mutual exclusion. In every state that CPUs can reach from the initial one, however their
  instructions are interleaved, at most one CPU is past the \<open>xchg\<close> of \<open>acquire\<close> and before the \<open>xchg\<close> of
  \<open>release\<close> on a lock; such a CPU runs with interrupts off.\<close>

theorem spinlock_mutual_exclusion:
  assumes "smp_step\<^sup>*\<^sup>* smp_init m" and "owns m c l" and "owns m d l"
  shows "c = d \<and> lk_locked (locks m l) \<and> \<not> eflags_if (cpus m c)"
proof -
  have inv: "lock_inv m" "cli_inv m" using smp_reachable [OF assms(1)] by simp_all
  then have ok: "cli_ok (held m c) (pcs m c) (cpus m c)" by (simp add: cli_inv_def)
  have "0 < ncli (cpus m c)"
  proof (cases "l \<in> held m c")
    case True
    then have "0 < card (held m c)" using ok by (auto simp: cli_ok_def card_gt_0_iff)
    then show ?thesis using ok pending_nonneg [of "pcs m c"] by (auto simp: cli_ok_def)
  next
    case False
    then have "pending (pcs m c) = 1" using assms(2) by (auto simp: owns_def held_def)
    then show ?thesis using ok by (auto simp: cli_ok_def)
  qed
  then show ?thesis using inv(1) assms(2,3) ok by (auto simp: lock_inv_def cli_ok_def)
qed

definition smp_held :: smp where
  "smp_held = \<lparr>locks = (\<lambda>_. initlock)(5 := \<lparr>lk_locked = True, lk_cpu = Some 0\<rparr>),
     cpus = (\<lambda>_. \<lparr>ncli = 0, intena = False, eflags_if = True\<rparr>)(0 := \<lparr>ncli = 1, intena = True, eflags_if = False\<rparr>),
     pcs = (\<lambda>_. Run)\<rparr>"

lemma smp_held_reachable: "smp_step\<^sup>*\<^sup>* smp_init smp_held"
proof -
  define k where "k = \<lparr>ncli = 1, intena = True, eflags_if = False\<rparr>"
  define lk where "lk = \<lparr>lk_locked = True, lk_cpu = None\<rparr>"
  define m1 where "m1 = smp_init\<lparr>cpus := (cpus smp_init)(0 := k), pcs := (pcs smp_init)(0 := Spin 5)\<rparr>"
  define m2 where "m2 = m1\<lparr>locks := (locks m1)(5 := lk), pcs := (pcs m1)(0 := Got 5)\<rparr>"
  define m3 where "m3 = m2\<lparr>locks := (locks m2)(5 := acquire_end 0 (locks m2 5)), pcs := (pcs m2)(0 := Run)\<rparr>"
  have 1: "smp_step smp_init m1"
    unfolding m1_def by (rule smp_step.acq_begin) (simp_all add: smp_init_def smp_ops pushcli_def initlock_def k_def)
  have 2: "smp_step m1 m2"
    unfolding m2_def by (rule smp_step.acq_got) (simp_all add: m1_def smp_init_def smp_ops initlock_def lk_def)
  have 3: "smp_step m2 m3" unfolding m3_def by (rule smp_step.acq_end) (simp add: m2_def)
  have "m3 = smp_held"
    by (simp add: m3_def m2_def m1_def k_def lk_def smp_held_def smp_init_def acquire_end_def fun_eq_iff)
  with 1 2 3 show ?thesis by (meson rtranclp.rtrancl_into_rtrancl rtranclp.rtrancl_refl)
qed

theorem spinlock_mutual_exclusion_witness:
  "smp_step\<^sup>*\<^sup>* smp_init smp_held \<and> owns smp_held 0 5 \<and> \<not> eflags_if (cpus smp_held 0)"
proof -
  have o: "owns smp_held 0 5" by (simp add: owns_def smp_held_def)
  with spinlock_mutual_exclusion [OF smp_held_reachable o o] smp_held_reachable show ?thesis by simp
qed

end
