(* ===== verification/Content.thy ===== *)
theory Content
  imports File
begin

text \<open>
  What the inode layer promises about the contents of a file: the bytes that \<open>readi\<close> returns and
  \<open>writei\<close> replaces, and that a write to an open file is atomic under crashes.
\<close>

section \<open>Contents\<close>

text \<open>The block that holds block \<open>bn\<close> of a file, directly or through the indirect block.\<close>

definition file_block :: "(nat \<Rightarrow> blk) \<Rightarrow> inode \<Rightarrow> nat \<Rightarrow> uint" where
  "file_block V i bn =
     (if bn < NDIRECT then i_addrs i bn
      else get32 (V (unat (i_addrs i NDIRECT))) (4 * (bn - NDIRECT)))"

definition file_byte :: "(nat \<Rightarrow> blk) \<Rightarrow> inode \<Rightarrow> nat \<Rightarrow> uchar" where
  "file_byte V i k = V (unat (file_block V i (k div BSIZE))) (k mod BSIZE)"

definition file_bytes :: "(nat \<Rightarrow> blk) \<Rightarrow> inode \<Rightarrow> uchar list" where
  "file_bytes V i = map (file_byte V i) [0..<unat (i_size i)]"

text \<open>The blocks of a file that a read or write of the bytes below \<open>e\<close> needs are there: they are allocated,
  lie outside the log, and nobody holds them.\<close>

definition mapped :: "txabs \<Rightarrow> inode \<Rightarrow> nat \<Rightarrow> bool" where
  "mapped T i e \<longleftrightarrow> i_dev i = 1 \<and> e \<le> MAXFILE * BSIZE \<and>
     (\<forall>bn. bn * BSIZE < e \<longrightarrow> file_block (tx_view T) i bn \<noteq> 0 \<and> readable T (unat (file_block (tx_view T) i bn))) \<and>
     (NDIRECT * BSIZE < e \<longrightarrow> i_addrs i NDIRECT \<noteq> 0 \<and> readable T (unat (i_addrs i NDIRECT)))"

lemma mappedD:
  assumes "mapped T i e" and "k < e"
  shows "i_dev i = 1" "k div BSIZE < MAXFILE" "file_block (tx_view T) i (k div BSIZE) \<noteq> 0"
    "readable T (unat (file_block (tx_view T) i (k div BSIZE)))"
    "\<not> k div BSIZE < NDIRECT \<Longrightarrow> i_addrs i NDIRECT \<noteq> 0 \<and> readable T (unat (i_addrs i NDIRECT))"
proof -
  have le: "k div BSIZE * BSIZE < e" using assms(2) by (meson div_times_less_eq_dividend le_less_trans)
  with assms show "i_dev i = 1" "file_block (tx_view T) i (k div BSIZE) \<noteq> 0"
    "readable T (unat (file_block (tx_view T) i (k div BSIZE)))"
    by (auto simp: mapped_def)
  have "k div BSIZE * BSIZE < MAXFILE * BSIZE" using assms(1) le unfolding mapped_def by linarith
  then show "k div BSIZE < MAXFILE" by simp
  assume "\<not> k div BSIZE < NDIRECT"
  then have "NDIRECT * BSIZE \<le> k div BSIZE * BSIZE" by simp
  with le have "NDIRECT * BSIZE < e" by linarith
  with assms(1) show "i_addrs i NDIRECT \<noteq> 0 \<and> readable T (unat (i_addrs i NDIRECT))" by (simp add: mapped_def)
qed

section \<open>Reading\<close>

abbreviation tx_inode :: "txabs \<Rightarrow> nat \<Rightarrow> inode" where
  "tx_inode T ip \<equiv> inodes (tx_rest T) ip"

lemma get_inode_tx:
  assumes "hoare (tx_at d0 tr0 T) (f (tx_inode T ip)) Q"
  shows "hoare (tx_at d0 tr0 T) (bindK (get_inode ip) f) Q"
  unfolding get_inode_def by (rule tx_gets_inodes [where h = "\<lambda>I. I ip"]) (rule assms)

lemma bmap_tx:
  assumes m: "mapped T (tx_inode T ip) e" "k < e"
    and f: "hoare (tx_at d0 tr0 T) (f (file_block (tx_view T) (tx_inode T ip) (k div BSIZE))) Q"
  shows "hoare (tx_at d0 tr0 T) (bindK (bmap ip (k div BSIZE)) f) Q"
proof (cases "k div BSIZE < NDIRECT")
  case True
  note d = mappedD [OF m]
  show ?thesis
    using True d(3) f unfolding bmap_def get_or_alloc_def
    by (simp add: bindK_assoc) (rule get_inode_tx, simp add: file_block_def bindK_returnK_left)
next
  case False
  note d = mappedD [OF m]
  let ?i = "tx_inode T ip" and ?bn = "k div BSIZE"
  have lt: "?bn - NDIRECT < NINDIRECT" using d(2) False by (simp add: MAXFILE_def)
  have fb: "get32 (tx_view T (unat (i_addrs ?i NDIRECT))) (4 * (?bn - NDIRECT)) = file_block (tx_view T) ?i ?bn"
    using False by (simp add: file_block_def)
  have g: "hoare (tx_at d0 tr0 T) (bindK (get_inode ip) (\<lambda>i. bindK (bread (i_dev i) (unat (i_addrs ?i NDIRECT))) (\<lambda>bp.
        bindK (bdata bp) (\<lambda>a.
        bindK (if get32 a (4 * (?bn - NDIRECT)) = 0 then m1 i bp else
          bindK (brelse bp) (\<lambda>_. returnK (get32 a (4 * (?bn - NDIRECT))))) f)))) Q" for m1
  proof (rule get_inode_tx, unfold d(1), rule tx.read_then)
    show r: "readable T (unat (i_addrs ?i NDIRECT))" using d(5) [OF False] by simp
    fix bp
    assume nd: "unat (i_addrs ?i NDIRECT) \<notin> tx_dirty T"
    show "hoare (tx_at d0 tr0 (holding (unat (i_addrs ?i NDIRECT)) bp T))
       (bindK (if get32 (tx_view T (unat (i_addrs ?i NDIRECT))) (4 * (?bn - NDIRECT)) = 0 then m1 ?i bp
         else bindK (brelse bp) (\<lambda>_. returnK (get32 (tx_view T (unat (i_addrs ?i NDIRECT))) (4 * (?bn - NDIRECT))))) f) Q"
      unfolding fb if_not_P [OF d(3)] bindK_assoc bindK_returnK_left
      by (rule tx.read_done) (use r nd f in \<open>simp_all add: readable_def\<close>)
  qed
  show ?thesis
    using False lt d(5) [OF False] unfolding bmap_def get_or_alloc_def
    by (simp add: bindK_assoc) (rule get_inode_tx, simp add: bindK_returnK_left, rule g [simplified])
qed

text \<open>A stretch of bytes within one block.\<close>

lemma same_block:
  assumes "j < BSIZE - off mod BSIZE"
  shows "(off + j) div BSIZE = off div BSIZE" "(off + j) mod BSIZE = off mod BSIZE + j"
proof -
  have B: "0 < BSIZE" by (simp add: BSIZE_def)
  then have lt: "off mod BSIZE + j < BSIZE" using assms mod_less_divisor [OF B, of off] by linarith
  have e: "off + j = off div BSIZE * BSIZE + (off mod BSIZE + j)" using div_mult_mod_eq [of off BSIZE] by linarith
  show "(off + j) div BSIZE = off div BSIZE" using div_mult_self3 [of BSIZE "off div BSIZE" "off mod BSIZE + j"] B lt by (simp only: e) simp
  show "(off + j) mod BSIZE = off mod BSIZE + j" using mod_mult_self3 [of "off div BSIZE" BSIZE "off mod BSIZE + j"] lt by (simp only: e) simp
qed

lemma block_bytes:
  assumes "m \<le> BSIZE - off mod BSIZE"
  shows "map (V (unat (file_block V i (off div BSIZE)))) [off mod BSIZE..<off mod BSIZE + m] =
    map (file_byte V i) [off..<off + m]"
  by (rule nth_equalityI) (use assms in \<open>simp_all add: file_byte_def same_block\<close>)

lemma readi_loop_tx:
  assumes m: "mapped T (tx_inode T ip) e" "off + rem \<le> e"
    and f: "hoare (tx_at d0 tr0 T) (f (map (file_byte (tx_view T) (tx_inode T ip)) [off..<off + rem])) Q"
  shows "hoare (tx_at d0 tr0 T) (bindK (readi_loop ip off rem) f) Q"
  using m(2) f
proof (induction rem arbitrary: off f rule: less_induct)
  case (less rem)
  let ?V = "tx_view T" and ?i = "tx_inode T ip" and ?m = "min rem (BSIZE - off mod BSIZE)"
  let ?b = "file_block ?V ?i (off div BSIZE)"
  show ?case
  proof (cases "rem = 0")
    case True
    then show ?thesis using less.prems(2) by (subst readi_loop.simps) (simp add: bindK_returnK_left)
  next
    case False
    have B: "0 < BSIZE - off mod BSIZE" by (simp add: BSIZE_def)
    then have k: "off < e" "?m > 0" "?m \<le> rem" using False less.prems(1) by simp_all
    note d = mappedD [OF m(1) k(1)]
    have IH: "hoare (tx_at d0 tr0 T)
        (bindK (readi_loop ip (off + ?m) (rem - ?m)) (\<lambda>bs. f (map (?V (unat ?b)) [off mod BSIZE..<off mod BSIZE + ?m] @ bs))) Q"
    proof (rule less.IH)
      show "rem - ?m < rem" "off + ?m + (rem - ?m) \<le> e" using k less.prems(1) by auto
      have "map (?V (unat ?b)) [off mod BSIZE..<off mod BSIZE + ?m] @ map (file_byte ?V ?i) [off + ?m..<off + ?m + (rem - ?m)] =
          map (file_byte ?V ?i) [off..<off + rem]"
        unfolding block_bytes [OF min.cobounded2] map_append [symmetric]
        using upt_add_eq_append [of off "off + ?m" "rem - ?m"] k(3) by simp
      then show "hoare (tx_at d0 tr0 T) (f (map (?V (unat ?b)) [off mod BSIZE..<off mod BSIZE + ?m] @
          map (file_byte ?V ?i) [off + ?m..<off + ?m + (rem - ?m)])) Q" using less.prems(2) by simp
    qed
    show ?thesis
      unfolding readi_loop.simps [of ip off rem] if_not_P [OF False] Let_def bindK_assoc
    proof (rule bmap_tx [OF m(1) k(1)], rule get_inode_tx, unfold d(1), rule tx.read_then [OF d(4)])
      fix bp
      assume nd: "unat ?b \<notin> tx_dirty T"
      show "hoare (tx_at d0 tr0 (holding (unat ?b) bp T)) (bindK (brelse bp) (\<lambda>x.
          bindK (readi_loop ip (off + ?m) (rem - ?m)) (\<lambda>xa.
          bindK (returnK (map (?V (unat ?b)) [off mod BSIZE..<off mod BSIZE + ?m] @ xa)) f))) Q"
        unfolding bindK_returnK_left by (rule tx.read_done) (use nd d(4) IH in \<open>simp_all add: readable_def\<close>)
    qed
  qed
qed

text \<open>\<open>readi\<close> of a file or directory.\<close>

lemma readi_tx:
  fixes off n :: uint
  defines "bs \<equiv> \<lambda>V i. take (unat n) (drop (unat off) (file_bytes V i))"
  assumes m: "mapped T (tx_inode T ip) (unat (i_size (tx_inode T ip)))" and ty: "i_type (tx_inode T ip) \<noteq> T_DEV"
    and off: "off \<le> i_size (tx_inode T ip)" "\<not> off + n < off"
    and f: "hoare (tx_at d0 tr0 T) (f (int (length (bs (tx_view T) (tx_inode T ip))), bs (tx_view T) (tx_inode T ip))) Q"
  shows "hoare (tx_at d0 tr0 T) (bindK (readi ip off n) f) Q"
proof -
  let ?i = "tx_inode T ip" and ?V = "tx_view T"
  define n' where "n' = (if off + n > i_size ?i then i_size ?i - off else n)"
  have sum: "unat (off + n) = unat off + unat n"
    by (rule unat_add_no_wrap) (use off(2) in \<open>simp add: add_wraps_iff\<close>)
  have n': "unat n' = min (unat n) (unat (i_size ?i) - unat off)"
    using off(1) sum by (auto simp: n'_def unat_sub word_less_nat_alt word_le_nat_alt)
  have bs: "bs ?V ?i = map (file_byte ?V ?i) [unat off..<unat off + unat n']"
    by (rule nth_equalityI) (use off(1) in \<open>auto simp: bs_def file_bytes_def n' word_le_nat_alt\<close>)
  have small: "unat (i_size ?i) < 2 ^ 31" using m by (simp add: mapped_def layout)
  have si: "sint n' = int (unat n')" by (rule sint_unat) (use n' small in linarith)
  have le: "unat off + unat n' \<le> unat (i_size ?i)" using n' off(1) by (simp add: word_le_nat_alt)
  show ?thesis
    unfolding readi_def bindK_assoc
  proof (rule get_inode_tx)
    have "(off > i_size ?i \<or> off + n < off) = False" using off by auto
    then show "hoare (tx_at d0 tr0 T) (bindK (if i_type ?i = T_DEV
         then if \<not> is_dev_major (i_major ?i) then returnK (- 1, [])
           else bindK (device_get (sint (i_major ?i))) (\<lambda>d. case d_read d of None \<Rightarrow> returnK (- 1, [])
             | Some drv \<Rightarrow> driver_read drv ip (sint n))
         else if off > i_size ?i \<or> off + n < off then returnK (- 1, [])
           else let n = if off + n > i_size ?i then i_size ?i - off else n
             in bindK (readi_loop ip (unat off) (unat n)) (\<lambda>bs. returnK (sint n, bs))) f) Q"
      unfolding if_not_P [OF ty] Let_def n'_def [symmetric]
      by (simp only: if_False bindK_assoc bindK_returnK_left)
        (rule readi_loop_tx [OF m le], use f in \<open>simp add: bs si\<close>)
  qed
qed

section \<open>Locking\<close>

text \<open>An inode that can be locked without sleeping or reading it from disk.\<close>

definition lockable :: "inode \<Rightarrow> bool" where
  "lockable i \<longleftrightarrow> 1 \<le> i_ref i \<and> \<not> i_busy i \<and> i_valid i"

definition locked :: "nat \<Rightarrow> txabs \<Rightarrow> txabs" where
  "locked ip T = tx_set_inodes ((inodes (tx_rest T))(ip := (tx_inode T ip)\<lparr>i_busy := True\<rparr>)) T"

lemma locked_fields [simp]:
  "tx_view (locked ip T) = tx_view T" "tx_held (locked ip T) = tx_held T" "tx_dirty (locked ip T) = tx_dirty T"
  "tx_logged (locked ip T) = tx_logged T" "tx_size (locked ip T) = tx_size T" "tx_log (locked ip T) = tx_log T"
  "readable (locked ip T) = readable T" "tx_inode (locked ip T) ip = (tx_inode T ip)\<lparr>i_busy := True\<rparr>"
  "files (tx_rest (locked ip T)) = files (tx_rest T)"
  by (simp_all add: locked_def) (simp add: tx_set_inodes_def)

lemma file_block_busy [simp]: "file_block V (i\<lparr>i_busy := b\<rparr>) = file_block V i"
  by (rule ext) (simp add: file_block_def)

lemma content_busy [simp]:
  "file_byte V (i\<lparr>i_busy := b\<rparr>) = file_byte V i" "file_bytes V (i\<lparr>i_busy := b\<rparr>) = file_bytes V i"
  by (simp_all add: file_bytes_def fun_eq_iff file_byte_def)

lemma mapped_locked [simp]: "mapped (locked ip T) (i\<lparr>i_busy := b\<rparr>) e = mapped T i e"
  by (simp add: mapped_def)

lemma ilock_tx:
  assumes "lockable (tx_inode T ip)" and "hoare (tx_at d0 tr0 (locked ip T)) (f ()) Q"
  shows "hoare (tx_at d0 tr0 T) (bindK (ilock ip) f) Q"
  unfolding ilock_def bindK_assoc
  by (rule get_inode_tx, use assms in \<open>simp add: lockable_def bindK_assoc upd_inode_def\<close>)
    (rule tx_modify_inodes [where g = "\<lambda>I. I(ip := (I ip)\<lparr>i_busy := True\<rparr>)"],
     use assms in \<open>simp add: locked_def lockable_def bindK_returnK_left\<close>)

lemma iunlock_tx:
  assumes "lockable (tx_inode T ip)" and "hoare (tx_at d0 tr0 T) (f ()) Q"
  shows "hoare (tx_at d0 tr0 (locked ip T)) (bindK (iunlock ip) f) Q"
proof -
  have e: "(tx_inode T ip)\<lparr>i_busy := False\<rparr> = tx_inode T ip"
    using assms(1) by (cases "tx_inode T ip") (simp add: lockable_def)
  have u: "tx_set_inodes ((inodes (tx_rest (locked ip T)))(ip := (tx_inode (locked ip T) ip)\<lparr>i_busy := False\<rparr>)) (locked ip T) = T"
    by (simp add: locked_def tx_set_inodes_def e)
  show ?thesis
    unfolding iunlock_def bindK_assoc
    by (rule get_inode_tx, use assms in \<open>simp add: lockable_def bindK_assoc upd_inode_def\<close>)
      (rule tx_modify_inodes [where g = "\<lambda>I. I(ip := (I ip)\<lparr>i_busy := False\<rparr>)"], unfold u, rule tx_wakeup, rule assms(2))
qed

section \<open>Open files\<close>

definition tx_set_files :: "(nat \<Rightarrow> ofile) \<Rightarrow> txabs \<Rightarrow> txabs" where
  "tx_set_files F T = T\<lparr>tx_rest := (tx_rest T)\<lparr>files := F\<rparr>\<rparr>"

lemma tx_set_files_fields [simp]:
  "tx_view (tx_set_files F T) = tx_view T" "tx_held (tx_set_files F T) = tx_held T"
  "tx_dirty (tx_set_files F T) = tx_dirty T" "tx_logged (tx_set_files F T) = tx_logged T"
  "tx_size (tx_set_files F T) = tx_size T" "tx_log (tx_set_files F T) = tx_log T"
  "inodes (tx_rest (tx_set_files F T)) = inodes (tx_rest T)" "files (tx_rest (tx_set_files F T)) = F"
  "locked ip (tx_set_files F T) = tx_set_files F (locked ip T)"
  by (simp_all add: tx_set_files_def locked_def tx_set_inodes_def)

lemma get_file_tx:
  assumes "hoare (tx_at d0 tr0 T) (f (files (tx_rest T) k)) Q"
  shows "hoare (tx_at d0 tr0 T) (bindK (get_file k) f) Q"
  unfolding get_file_def by (rule tx_gets) (use assms in simp_all)

lemma upd_file_tx:
  assumes "hoare (tx_at d0 tr0 (tx_set_files ((files (tx_rest T))(k := g (files (tx_rest T) k))) T)) (f ()) Q"
  shows "hoare (tx_at d0 tr0 T) (bindK (upd_file k g) f) Q"
proof (rule hoareI)
  fix s
  assume s: "tx_at d0 tr0 T s"
  let ?t = "s\<lparr>files := (files s)(k := g (files s k))\<rparr>"
  have r: "tx_rest T = (rest s)\<lparr>logs := hide_log (logs s)\<rparr>" by (rule tx_at_rest [OF s])
  have "tx_at d0 tr0 (T\<lparr>tx_rest := (rest ?t)\<lparr>logs := hide_log (logs ?t)\<rparr>\<rparr>) ?t"
    by (rule tx_at_frame [OF s]) simp_all
  moreover have "T\<lparr>tx_rest := (rest ?t)\<lparr>logs := hide_log (logs ?t)\<rparr>\<rparr> =
      tx_set_files ((files (tx_rest T))(k := g (files (tx_rest T) k))) T"
    unfolding tx_set_files_def r by (simp add: rest_def procs_data_def)
  ultimately show "\<exists>x t. bindK (upd_file k g) f s = Ok x t \<and> Q x t"
    using assms by (simp add: upd_file_def hoare_def)
qed

text \<open>\<open>fileread\<close> between transactions.\<close>

definition file_open :: "kernel \<Rightarrow> nat \<Rightarrow> bool" where
  "file_open s f \<longleftrightarrow> f_type (files s f) = FD_INODE \<and> lockable (inodes s (f_ip (files s f))) \<and>
     i_type (inodes s (f_ip (files s f))) \<noteq> T_DEV"

text \<open>The file that the open file \<open>f\<close> refers to, and its contents on the disk.\<close>

abbreviation file_inode :: "kernel \<Rightarrow> nat \<Rightarrow> inode" where
  "file_inode s f \<equiv> inodes s (f_ip (files s f))"

definition disk_content :: "kernel \<Rightarrow> nat \<Rightarrow> uchar list" where
  "disk_content s f = file_bytes (home_view (log_area (logs s)) (memdisk s)) (file_inode s f)"

lemma idle_fields [simp]:
  "tx_view (idle s) = home_view (log_area (logs s)) (memdisk s)" "tx_held (idle s) = Map.empty" "tx_dirty (idle s) = {}"
  "tx_logged (idle s) = {}" "tx_size (idle s) = disksize s" "inodes (tx_rest (idle s)) = inodes s"
  "files (tx_rest (idle s)) = files s" "l_busy (tx_log (idle s)) = l_busy (logs s)"
  "log_area (tx_log (idle s)) = log_area (logs s)"
  by (simp_all add: idle_def)

lemma fileread_tx:
  fixes s :: kernel and f :: nat and n :: int
  defines "off \<equiv> f_off (files s f)" and "i \<equiv> file_inode s f"
  defines "bs \<equiv> take (nat n) (drop (unat off) (disk_content s f))"
  assumes f: "f_readable (files s f)" "file_open s f" and m: "mapped (idle s) i (unat (i_size i))"
    and off: "off \<le> i_size i" and n: "0 \<le> n" "n < 2 ^ 31"
  shows "hoare (tx_at d0 tr0 (idle s)) (fileread f n)
    (\<lambda>r t. r = (int (length bs), bs) \<and>
       tx_at d0 tr0 (tx_set_files ((files s)(f := (files s f)\<lparr>f_off := off + word_of_nat (length bs)\<rparr>)) (idle s)) t)"
proof -
  let ?ip = "f_ip (files s f)"
  have un: "unat (word_of_int n :: uint) = nat n" by (rule unat_word_of_int) (use n in simp_all)
  have "unat (i_size i) \<le> 71680" using m by (simp add: mapped_def layout)
  then have nw: "\<not> off + word_of_int n < off"
    using n off by (simp add: add_wraps_iff un word_le_nat_alt nat_less_iff)
  have lk: "lockable (tx_inode (idle s) ?ip)" "i_type (tx_inode (idle s) ?ip) \<noteq> T_DEV"
    using f(2) by (simp_all add: file_open_def)
  have bs: "take (unat (word_of_int n :: uint)) (drop (unat off) (file_bytes (tx_view (locked ?ip (idle s))) (tx_inode (locked ?ip (idle s)) ?ip))) = bs"
    by (simp add: bs_def disk_content_def un)
  let ?F = "(files s)(f := (files s f)\<lparr>f_off := off + word_of_nat (length bs)\<rparr>)"
  let ?Q = "\<lambda>r t. r = (int (length bs), bs) \<and> tx_at d0 tr0 (tx_set_files ?F (idle s)) t"
  have tail: "hoare (tx_at d0 tr0 (locked ?ip (idle s)))
     (bindK (whenK (0 < int (length bs)) (upd_file f (\<lambda>x. x\<lparr>f_off := f_off x + word_of_int (int (length bs))\<rparr>))) (\<lambda>_.
      bindK (iunlock ?ip) (\<lambda>_. returnK (int (length bs), bs)))) ?Q"
  proof (rule hoare_bind_when)
    have "hoare (tx_at d0 tr0 (locked ?ip (tx_set_files ?F (idle s)))) (bindK (iunlock ?ip) (\<lambda>_. returnK (int (length bs), bs))) ?Q"
      by (rule iunlock_tx) (use lk in \<open>simp_all add: hoare_def\<close>)
    then show "hoare (tx_at d0 tr0 (locked ?ip (idle s)))
       (bindK (upd_file f (\<lambda>x. x\<lparr>f_off := f_off x + word_of_int (int (length bs))\<rparr>)) (\<lambda>_.
        bindK (iunlock ?ip) (\<lambda>_. returnK (int (length bs), bs)))) ?Q"
      by (intro upd_file_tx) (simp add: off_def)
    assume "\<not> 0 < int (length bs)"
    then have "tx_set_files ?F (idle s) = idle s" by (simp add: tx_set_files_def off_def fun_upd_idem)
    then show "hoare (tx_at d0 tr0 (locked ?ip (idle s))) (bindK (iunlock ?ip) (\<lambda>_. returnK (int (length bs), bs))) ?Q"
      by (intro iunlock_tx) (use lk in \<open>simp_all add: hoare_def\<close>)
  qed
  show ?thesis
    unfolding fileread_def
  proof (rule get_file_tx, simp add: f(1) f(2) [unfolded file_open_def], rule ilock_tx [OF lk(1)], rule readi_tx)
    show "mapped (locked ?ip (idle s)) (tx_inode (locked ?ip (idle s)) ?ip) (unat (i_size (tx_inode (locked ?ip (idle s)) ?ip)))"
      using m by (simp add: i_def)
    show "i_type (tx_inode (locked ?ip (idle s)) ?ip) \<noteq> T_DEV" using lk(2) by simp
    show "f_off (files s f) \<le> i_size (tx_inode (locked ?ip (idle s)) ?ip)" using off by (simp add: off_def i_def)
    show "\<not> f_off (files s f) + word_of_int n < f_off (files s f)" using nw by (simp add: off_def)
  qed (use tail in \<open>simp add: bs [unfolded off_def] del: locked_fields\<close>)
qed

section \<open>Writing\<close>

text \<open>No two blocks of the file are the same, and none is its indirect block.\<close>

definition separate :: "(nat \<Rightarrow> blk) \<Rightarrow> inode \<Rightarrow> nat \<Rightarrow> bool" where
  "separate V i e \<longleftrightarrow> inj_on (file_block V i) {bn. bn * BSIZE < e} \<and>
     (NDIRECT * BSIZE < e \<longrightarrow> i_addrs i NDIRECT \<notin> file_block V i ` {bn. bn * BSIZE < e})"

text \<open>The bytes \<open>src\<close> have replaced those of the file from \<open>off\<close> on, and only blocks of the file have changed.\<close>

definition overwritten :: "inode \<Rightarrow> nat \<Rightarrow> nat \<Rightarrow> uchar list \<Rightarrow> (nat \<Rightarrow> blk) \<Rightarrow> (nat \<Rightarrow> blk) \<Rightarrow> bool" where
  "overwritten i e off src V V' \<longleftrightarrow>
     (\<forall>bn. bn * BSIZE < e \<longrightarrow> file_block V' i bn = file_block V i bn) \<and>
     (\<forall>k<e. file_byte V' i k = (if off \<le> k \<and> k < off + length src then src ! (k - off) else file_byte V i k)) \<and>
     (\<forall>b. b \<notin> unat ` file_block V i ` {bn. bn * BSIZE < e} \<longrightarrow> V' b = V b)"

lemma overwritten_Nil: "overwritten i e off [] V V"
  by (auto simp: overwritten_def)

lemma overwritten_append:
  assumes a: "overwritten i e off xs V W" and b: "overwritten i e (off + length xs) ys W X"
  shows "overwritten i e off (xs @ ys) V X"
proof -
  have fb: "file_block W i ` {bn. bn * BSIZE < e} = file_block V i ` {bn. bn * BSIZE < e}"
    using a by (auto simp: overwritten_def)
  have "file_byte X i k = (if off \<le> k \<and> k < off + length (xs @ ys) then (xs @ ys) ! (k - off) else file_byte V i k)"
    if "k < e" for k
  proof -
    have "file_byte X i k = (if off + length xs \<le> k \<and> k < off + length xs + length ys then ys ! (k - (off + length xs))
        else file_byte W i k)" using b that by (simp add: overwritten_def)
    moreover have "file_byte W i k = (if off \<le> k \<and> k < off + length xs then xs ! (k - off) else file_byte V i k)"
      using a that by (simp add: overwritten_def)
    ultimately show ?thesis by (auto simp: nth_append not_less diff_diff_eq)
  qed
  then show ?thesis using a b fb unfolding overwritten_def by simp
qed

text \<open>One block.\<close>

lemma file_block_upd:
  assumes sep: "separate V i e" and bn: "bn * BSIZE < e" "c * BSIZE < e"
  shows "file_block (V(unat (file_block V i c) := d)) i bn = file_block V i bn"
proof (cases "bn < NDIRECT")
  case False
  then have "NDIRECT * BSIZE \<le> bn * BSIZE" by simp
  with bn(1) have "NDIRECT * BSIZE < e" by linarith
  then have "i_addrs i NDIRECT \<noteq> file_block V i c" using sep bn by (auto simp: separate_def)
  with False show ?thesis by (simp add: file_block_def [of _ _ bn] word_unat_eq_iff)
qed (simp add: file_block_def [of _ _ bn])

lemma overwritten_block:
  assumes sep: "separate V i e" and m: "0 < length xs" "length xs \<le> BSIZE - off mod BSIZE" "off + length xs \<le> e"
  shows "overwritten i e off xs V (V(unat (file_block V i (off div BSIZE)) :=
     splice (V (unat (file_block V i (off div BSIZE)))) (off mod BSIZE) xs))"
proof -
  let ?c = "off div BSIZE"
  let ?W = "V(unat (file_block V i ?c) := splice (V (unat (file_block V i ?c))) (off mod BSIZE) xs)"
  have c: "?c * BSIZE < e" using m(1,3) div_times_less_eq_dividend [of off BSIZE] by linarith
  have B: "0 < BSIZE" by (simp add: BSIZE_def)
  note fb = file_block_upd [OF sep _ c]
  have "file_byte ?W i k = (if off \<le> k \<and> k < off + length xs then xs ! (k - off) else file_byte V i k)" if k: "k < e" for k
  proof -
    have kb: "k div BSIZE * BSIZE < e" using k div_times_less_eq_dividend [of k BSIZE] by linarith
    show ?thesis
    proof (cases "k div BSIZE = ?c")
      case True
      obtain q a b where q: "k = q + a" "off = q + b" "k mod BSIZE = a" "off mod BSIZE = b"
        using div_mult_mod_eq [of k BSIZE] div_mult_mod_eq [of off BSIZE] True by metis
      have "off \<le> k \<longleftrightarrow> off mod BSIZE \<le> k mod BSIZE" "k < off + length xs \<longleftrightarrow> k mod BSIZE < off mod BSIZE + length xs"
        "k - off = k mod BSIZE - off mod BSIZE"
        unfolding q(3,4) by (simp_all add: q(1,2))
      then show ?thesis using fb [OF kb] True by (simp add: file_byte_def splice_def)
    next
      case False
      then have "file_block V i (k div BSIZE) \<noteq> file_block V i ?c"
        using sep kb c by (auto simp: separate_def inj_on_def)
      then have "unat (file_block V i (k div BSIZE)) \<noteq> unat (file_block V i ?c)" by (simp add: word_unat_eq_iff)
      moreover have "\<not> (off \<le> k \<and> k < off + length xs)"
      proof
        assume o: "off \<le> k \<and> k < off + length xs"
        then have "k - off < BSIZE - off mod BSIZE" using m(2) by linarith
        then show False using same_block(1) [of "k - off" off] o False by simp
      qed
      ultimately show ?thesis using fb [OF kb] by (auto simp: file_byte_def)
    qed
  qed
  moreover have "?W b = V b" if "b \<notin> unat ` file_block V i ` {bn. bn * BSIZE < e}" for b
    using that c by auto
  ultimately show ?thesis using fb by (simp add: overwritten_def)
qed

text \<open>The number of blocks that \<open>len\<close> bytes from \<open>off\<close> on lie in.\<close>

definition blocks_of :: "nat \<Rightarrow> nat \<Rightarrow> nat" where
  "blocks_of off len = (if len = 0 then 0 else (off + len - 1) div BSIZE - off div BSIZE + 1)"

lemma blocks_of_step:
  assumes "0 < len"
  shows "blocks_of off len = Suc (blocks_of (off + min len (BSIZE - off mod BSIZE)) (len - min len (BSIZE - off mod BSIZE)))"
proof (cases "len \<le> BSIZE - off mod BSIZE")
  case True
  then have "(off + (len - 1)) div BSIZE = off div BSIZE" using assms by (intro same_block) linarith
  with True assms show ?thesis by (simp add: blocks_of_def min_absorb1)
next
  case False
  have B: "0 < BSIZE" by (simp add: BSIZE_def)
  have o: "off + (BSIZE - off mod BSIZE) = Suc (off div BSIZE) * BSIZE"
    unfolding mult_Suc using div_mult_mod_eq [of off BSIZE] mod_less_divisor [OF B, of off] by linarith
  then have "Suc (off div BSIZE) * BSIZE \<le> off + len - 1" using False by linarith
  then have "Suc (off div BSIZE) \<le> (off + len - 1) div BSIZE" using B by (simp add: less_eq_div_iff_mult_less_eq)
  moreover have "off + (BSIZE - off mod BSIZE) + (len - (BSIZE - off mod BSIZE)) - 1 = off + len - 1" using False by simp
  moreover have "(off + (BSIZE - off mod BSIZE)) div BSIZE = Suc (off div BSIZE)" unfolding o using B by simp
  ultimately show ?thesis using False assms by (simp add: blocks_of_def min_absorb2)
qed

lemma readable_home: "readable T k \<Longrightarrow> home T k \<and> tx_held T k = None"
  by (simp add: readable_def home_def)

lemma mapped_write:
  fixes d :: blk
  assumes m: "mapped T i e" and sep: "separate (tx_view T) i e" and c: "c * BSIZE < e" and b: "budget T (Suc n)"
  defines "T' \<equiv> tx_write (unat (file_block (tx_view T) i c)) d T"
  shows "mapped T' i e" and "separate (tx_view T') i e"
proof -
  have fb: "file_block (tx_view T') i bn = file_block (tx_view T) i bn" if "bn * BSIZE < e" for bn
    using file_block_upd [OF sep that c] by (simp add: T'_def)
  have r: "readable T' k" if "readable T k" for k
    by (rule budget_readable [OF budget_write [OF b, where k = "unat (file_block (tx_view T) i c)" and d = d, folded T'_def]])
      (use readable_home [OF that] in \<open>simp_all add: T'_def\<close>)
  then show "mapped T' i e" using m fb by (simp add: mapped_def)
  show "separate (tx_view T') i e"
    using sep fb by (auto simp: separate_def inj_on_def image_iff)
qed

lemma writei_loop_tx:
  assumes "mapped T (tx_inode T ip) e" and "separate (tx_view T) (tx_inode T ip) e" and "off + length src \<le> e"
    and "l_busy (tx_log T)" and "budget T (blocks_of off (length src))"
  shows "hoare (tx_at d0 tr0 T) (writei_loop ip off src)
    (\<lambda>_ s. \<exists>T'. tx_at d0 tr0 T' s \<and> overwritten (tx_inode T ip) e off src (tx_view T) (tx_view T') \<and>
       tx_rest T' = tx_rest T \<and> tx_held T' = tx_held T \<and> tx_size T' = tx_size T \<and>
       card (tx_logged T') \<le> card (tx_logged T) + blocks_of off (length src))"
  using assms
proof (induction "length src" arbitrary: off src T rule: less_induct)
  case less
  let ?i = "tx_inode T ip" and ?V = "tx_view T" and ?m = "min (length src) (BSIZE - off mod BSIZE)"
  let ?b = "unat (file_block ?V ?i (off div BSIZE))"
  show ?case
  proof (cases "src = []")
    case True
    then show ?thesis
      by (subst writei_loop.simps) (auto simp: hoare_def overwritten_Nil)
  next
    case False
    have B: "0 < BSIZE - off mod BSIZE" by (simp add: BSIZE_def)
    moreover have pos: "0 < length src" using False by simp
    ultimately have k: "off < e" "0 < ?m" "?m \<le> length src" using less.prems(3) by linarith+
    have c: "off div BSIZE * BSIZE < e" using k(1) div_times_less_eq_dividend [of off BSIZE] by linarith
    note d = mappedD [OF less.prems(1) k(1)]
    define T1 where "T1 = tx_write ?b (splice (?V ?b) (off mod BSIZE) (take ?m src)) T"
    have bl: "blocks_of off (length src) = Suc (blocks_of (off + ?m) (length (drop ?m src)))"
      using blocks_of_step [of "length src" off] False by simp
    have b1: "budget T1 (blocks_of (off + ?m) (length (drop ?m src)))"
      unfolding T1_def by (rule budget_write) (use less.prems(5) bl in simp)
    have step: "overwritten ?i e off (take ?m src) ?V (tx_view T1)"
      using overwritten_block [OF less.prems(2), of "take ?m src" off] k less.prems(3) by (simp add: T1_def)
    have r1: "tx_rest T1 = tx_rest T" "tx_held T1 = tx_held T" "tx_size T1 = tx_size T"
      "card (tx_logged T1) \<le> Suc (card (tx_logged T))"
      using less.prems(5) card_insert_le_m1 [of "Suc (card (tx_logged T))" "tx_logged T" ?b]
      by (simp_all add: T1_def budget_def)
    note m1 = mapped_write [OF less.prems(1,2) c less.prems(5) [unfolded bl], where d = "splice (?V ?b) (off mod BSIZE) (take ?m src)", folded T1_def]
    have IH: "hoare (tx_at d0 tr0 T1) (writei_loop ip (off + ?m) (drop ?m src))
      (\<lambda>_ s. \<exists>T'. tx_at d0 tr0 T' s \<and> overwritten (tx_inode T1 ip) e (off + ?m) (drop ?m src) (tx_view T1) (tx_view T') \<and>
         tx_rest T' = tx_rest T1 \<and> tx_held T' = tx_held T1 \<and> tx_size T' = tx_size T1 \<and>
         card (tx_logged T') \<le> card (tx_logged T1) + blocks_of (off + ?m) (length (drop ?m src)))"
    proof (rule less.hyps [OF _ _ _ _ _ b1])
      show "length (drop ?m src) < length src" "off + ?m + length (drop ?m src) \<le> e"
        using k less.prems(3) by (simp_all only: length_drop)
      show "mapped T1 (tx_inode T1 ip) e" "separate (tx_view T1) (tx_inode T1 ip) e" "l_busy (tx_log T1)"
        using m1 less.prems(4) by (simp_all only: r1(1))
    qed
    have app: "overwritten ?i e off src ?V W" if "overwritten ?i e (off + ?m) (drop ?m src) (tx_view T1) W" for W
      using overwritten_append [OF step, of "drop ?m src" W] that k(3) by (simp add: min_absorb2)
    have post: "hoare (tx_at d0 tr0 T1) (writei_loop ip (off + ?m) (drop ?m src))
      (\<lambda>_ s. \<exists>T'. tx_at d0 tr0 T' s \<and> overwritten ?i e off src ?V (tx_view T') \<and>
         tx_rest T' = tx_rest T \<and> tx_held T' = tx_held T \<and> tx_size T' = tx_size T \<and>
         card (tx_logged T') \<le> card (tx_logged T) + blocks_of off (length src))"
    proof (rule hoare_post [OF IH], elim exE conjE)
      fix s T'
      assume T': "tx_at d0 tr0 T' s" "overwritten (tx_inode T1 ip) e (off + ?m) (drop ?m src) (tx_view T1) (tx_view T')"
         "tx_rest T' = tx_rest T1" "tx_held T' = tx_held T1" "tx_size T' = tx_size T1"
         "card (tx_logged T') \<le> card (tx_logged T1) + blocks_of (off + ?m) (length (drop ?m src))"
      have "overwritten ?i e off src ?V (tx_view T')" by (rule app) (use T'(2) r1(1) in simp)
      moreover have "card (tx_logged T') \<le> card (tx_logged T) + blocks_of off (length src)"
        using T'(6) r1(4) unfolding bl by linarith
      ultimately show "\<exists>T'. tx_at d0 tr0 T' s \<and> overwritten ?i e off src ?V (tx_view T') \<and>
         tx_rest T' = tx_rest T \<and> tx_held T' = tx_held T \<and> tx_size T' = tx_size T \<and>
         card (tx_logged T') \<le> card (tx_logged T) + blocks_of off (length src)"
        using T'(1,3-5) r1(1-3) by (intro exI [of _ T']) simp
    qed
    show ?thesis
      unfolding writei_loop.simps [of ip off src] if_not_P [OF False] Let_def
    proof (rule bmap_tx [OF less.prems(1) k(1)], rule get_inode_tx, unfold d(1), rule tx.read_then [OF d(4)], rule tx.update_done)
      show "tx_held T ?b = None" using d(4) by (simp add: readable_def)
      show "loggable T ?b" by (rule budget_loggable [OF less.prems(5) [unfolded bl]])
    qed (use less.prems(4) post in \<open>simp_all add: T1_def\<close>)
  qed
qed

definition replaced :: "nat \<Rightarrow> nat \<Rightarrow> uchar list \<Rightarrow> txabs \<Rightarrow> txabs \<Rightarrow> bool" where
  "replaced ip off src T T' \<longleftrightarrow>
     overwritten (tx_inode T ip) (unat (i_size (tx_inode T ip))) off src (tx_view T) (tx_view T') \<and>
     tx_held T' = tx_held T \<and> tx_size T' = tx_size T \<and>
     card (tx_logged T') \<le> card (tx_logged T) + blocks_of off (length src)"

lemma writei_tx:
  fixes T :: txabs and off :: uint
  defines "i \<equiv> \<lambda>ip. tx_inode T ip"
  assumes m: "mapped T (i ip) (unat (i_size (i ip)))" "separate (tx_view T) (i ip) (unat (i_size (i ip)))"
    and ty: "i_type (i ip) \<noteq> T_DEV" and off: "unat off + length src \<le> unat (i_size (i ip))"
    and busy: "l_busy (tx_log T)" and b: "budget T (blocks_of (unat off) (length src))"
  shows "hoare (tx_at d0 tr0 T) (writei ip src off)
    (\<lambda>r s. r = int (length src) \<and> (\<exists>T'. tx_at d0 tr0 T' s \<and> tx_rest T' = tx_rest T \<and> replaced ip (unat off) src T T'))"
proof -
  have sz: "unat (i_size (i ip)) \<le> 71680" using m(1) by (simp add: mapped_def layout)
  define n :: uint where "n = word_of_nat (length src)"
  have n: "unat n = length src" using off sz by (simp add: n_def unat_of_nat take_bit_nat_eq_self)
  have sum: "unat (off + n) = unat off + length src"
    using unat_add_no_wrap [of off n] off sz n by simp
  have c: "\<not> (off > i_size (i ip) \<or> off + n < off)" "\<not> off + n > word_of_nat (MAXFILE * BSIZE)" "\<not> (n > 0 \<and> off + n > i_size (i ip))"
    using off sum n sz by (simp_all add: word_less_nat_alt layout)
  let ?P = "\<lambda>s. \<exists>T'. tx_at d0 tr0 T' s \<and> tx_rest T' = tx_rest T \<and> replaced ip (unat off) src T T'"
  have loop: "hoare (tx_at d0 tr0 T) (writei_loop ip (unat off) src) (\<lambda>_. ?P)"
    by (rule hoare_post [OF writei_loop_tx [OF m [unfolded i_def] _ busy b]])
      (use off in \<open>auto simp: replaced_def i_def\<close>)
  have last: "hoare ?P (bindK (get_inode ip) (\<lambda>i. bindK (whenK (n > 0 \<and> off + n > i_size i)
      (bindK (upd_inode ip (\<lambda>i. i\<lparr>i_size := off + n\<rparr>)) (\<lambda>_. iupdate ip))) (\<lambda>_. returnK (sint n)))) (\<lambda>r s. r = int (length src) \<and> ?P s)"
  proof (rule hoareI, elim exE conjE)
    fix s T'
    assume T': "tx_at d0 tr0 T' s" "tx_rest T' = tx_rest T" "replaced ip (unat off) src T T'"
    have "inodes s = inodes (tx_rest T)" using tx_at_rest [OF T'(1)] T'(2) by simp
    then have "(n > 0 \<and> off + n > i_size (inodes s ip)) = False" using c(3) by (simp add: i_def)
    moreover have "sint n = int (length src)" using sint_unat [of n] n off sz by simp
    ultimately show "\<exists>x t. bindK (get_inode ip) (\<lambda>i. bindK (whenK (n > 0 \<and> off + n > i_size i)
      (bindK (upd_inode ip (\<lambda>i. i\<lparr>i_size := off + n\<rparr>)) (\<lambda>_. iupdate ip))) (\<lambda>_. returnK (sint n))) s = Ok x t \<and>
      x = int (length src) \<and> ?P t"
      using T' by (auto simp: get_inode_def)
  qed
  show ?thesis
    unfolding writei_def Let_def n_def [symmetric]
  proof (rule get_inode_tx)
    show "hoare (tx_at d0 tr0 T) (if i_type (tx_inode T ip) = T_DEV
        then if \<not> is_dev_major (i_major (tx_inode T ip)) then returnK (- 1)
          else bindK (device_get (sint (i_major (tx_inode T ip)))) (\<lambda>d. case d_write d of None \<Rightarrow> returnK (- 1)
            | Some drv \<Rightarrow> driver_write drv ip src (sint n))
        else if i_size (tx_inode T ip) < off \<or> off + n < off then returnK (- 1)
          else if word_of_nat (MAXFILE * BSIZE) < off + n then returnK (- 1)
          else bindK (writei_loop ip (unat off) src) (\<lambda>_. bindK (get_inode ip) (\<lambda>i.
            bindK (whenK (0 < n \<and> i_size i < off + n) (bindK (upd_inode ip (\<lambda>i. i\<lparr>i_size := off + n\<rparr>)) (\<lambda>_. iupdate ip)))
             (\<lambda>_. returnK (sint n))))) (\<lambda>r s. r = int (length src) \<and> ?P s)"
      unfolding if_not_P [OF ty [unfolded i_def]] if_not_P [OF c(1) [unfolded i_def]] if_not_P [OF c(2)]
      by (rule hoare_bind [OF loop last])
  qed
qed

text \<open>The part of \<open>filewrite\<close> inside the transaction.\<close>

definition filewrite_body :: "nat \<Rightarrow> uchar list \<Rightarrow> int km" where
  "filewrite_body f src =
     bindK (get_file f) (\<lambda>x.
     bindK (ilock (f_ip x)) (\<lambda>_.
     bindK (get_file f) (\<lambda>x.
     bindK (writei (f_ip x) src (f_off x)) (\<lambda>r.
     bindK (whenK (r > 0) (upd_file f (\<lambda>x. x\<lparr>f_off := f_off x + word_of_int r\<rparr>))) (\<lambda>_.
     bindK (iunlock (f_ip x)) (\<lambda>_.
     returnK r))))))"

lemma filewrite_loop_atomically:
  assumes "src \<noteq> []" and "length src \<le> max_write"
  shows "filewrite_loop f src = bindK (atomically (filewrite_body f src)) (\<lambda>r.
     if r < 0 then returnK False else if r \<noteq> int (length src) then panicK ''short filewrite'' else returnK True)"
proof -
  have "filewrite_loop f [] = returnK True" by (subst filewrite_loop.simps) simp
  then show ?thesis
    using assms by (subst filewrite_loop.simps)
      (simp add: atomically_def filewrite_body_def bindK_assoc bindK_returnK_left min_absorb1 Let_def cong: if_cong)
qed

lemma locked_rest:
  assumes "tx_rest U = tx_rest (locked ip T)"
  shows "U = locked ip (U\<lparr>tx_rest := tx_rest T\<rparr>)"
  using assms by (cases U) (simp add: locked_def tx_set_inodes_def)

lemma filewrite_body_tx:
  fixes T :: txabs and f :: nat
  defines "x \<equiv> files (tx_rest T) f"
  defines "ip \<equiv> f_ip x" and "off \<equiv> unat (f_off x)"
  defines "i \<equiv> tx_inode T ip"
  assumes src: "src \<noteq> []" and lk: "lockable i" "i_type i \<noteq> T_DEV"
    and m: "mapped T i (unat (i_size i))" "separate (tx_view T) i (unat (i_size i))"
    and off: "off + length src \<le> unat (i_size i)" and busy: "l_busy (tx_log T)" and b: "budget T (blocks_of off (length src))"
  shows "hoare (tx_at d0 tr0 T) (filewrite_body f src)
    (\<lambda>r s. r = int (length src) \<and> (\<exists>T'. tx_at d0 tr0 T' s \<and> replaced ip off src T T' \<and>
       tx_rest T' = (tx_rest T)\<lparr>files := (files (tx_rest T))(f := x\<lparr>f_off := f_off x + word_of_nat (length src)\<rparr>)\<rparr>))"
proof -
  let ?L = "locked ip T" and ?F = "(files (tx_rest T))(f := x\<lparr>f_off := f_off x + word_of_nat (length src)\<rparr>)"
  let ?Q = "\<lambda>r s. r = int (length src) \<and> (\<exists>T'. tx_at d0 tr0 T' s \<and> replaced ip off src T T' \<and>
       tx_rest T' = (tx_rest T)\<lparr>files := ?F\<rparr>)"
  have li: "tx_inode ?L ip = i\<lparr>i_busy := True\<rparr>" by (simp add: i_def)
  have wr: "hoare (tx_at d0 tr0 ?L) (writei ip src (f_off x))
    (\<lambda>r s. r = int (length src) \<and> (\<exists>U. tx_at d0 tr0 U s \<and> tx_rest U = tx_rest ?L \<and> replaced ip (unat (f_off x)) src ?L U))"
    by (rule writei_tx) (use m lk off busy b in \<open>simp_all add: i_def off_def [symmetric] budget_def separate_def\<close>)
  have rest: "hoare (\<lambda>s. r = int (length src) \<and> (\<exists>U. tx_at d0 tr0 U s \<and> tx_rest U = tx_rest ?L \<and> replaced ip (unat (f_off x)) src ?L U))
     (bindK (whenK (r > 0) (upd_file f (\<lambda>x. x\<lparr>f_off := f_off x + word_of_int r\<rparr>))) (\<lambda>_.
      bindK (iunlock ip) (\<lambda>_. returnK r))) ?Q" for r
  proof (rule hoareI, elim conjE exE)
    fix s U
    assume r: "r = int (length src)" and U: "tx_at d0 tr0 U s" "tx_rest U = tx_rest ?L" "replaced ip (unat (f_off x)) src ?L U"
    define W where "W = tx_set_files ?F (U\<lparr>tx_rest := tx_rest T\<rparr>)"
    have UW: "tx_set_files ?F U = locked ip W" by (subst locked_rest [OF U(2)]) (simp add: W_def)
    have rp: "replaced ip off src T W"
      using U(3) by (simp add: replaced_def li W_def off_def overwritten_def i_def)
    have "hoare (tx_at d0 tr0 (locked ip W)) (bindK (iunlock ip) (\<lambda>_. returnK r)) ?Q"
    proof (rule iunlock_tx)
      show "lockable (tx_inode W ip)" using lk(1) by (simp add: W_def i_def)
      show "hoare (tx_at d0 tr0 W) (returnK r) ?Q"
        using rp r by (auto simp: hoare_def W_def tx_set_files_def)
    qed
    then have "hoare (tx_at d0 tr0 U) (bindK (upd_file f (\<lambda>x. x\<lparr>f_off := f_off x + word_of_int r\<rparr>)) (\<lambda>_.
        bindK (iunlock ip) (\<lambda>_. returnK r))) ?Q"
      by (intro upd_file_tx) (simp add: U(2) r UW [unfolded x_def] x_def)
    then show "\<exists>y t. bindK (whenK (r > 0) (upd_file f (\<lambda>x. x\<lparr>f_off := f_off x + word_of_int r\<rparr>))) (\<lambda>_.
        bindK (iunlock ip) (\<lambda>_. returnK r)) s = Ok y t \<and> ?Q y t"
      using U(1) r src by (simp add: hoare_def)
  qed
  show ?thesis
    unfolding filewrite_body_def
    by (rule get_file_tx, fold x_def, fold ip_def, rule ilock_tx, use lk in \<open>simp add: i_def\<close>, rule get_file_tx,
        unfold locked_fields, fold x_def, fold ip_def, rule hoare_bind [OF wr rest])
qed

lemma blocks_of_max:
  assumes "len \<le> max_write"
  shows "blocks_of off len \<le> 4"
proof -
  have "off + len - 1 \<le> off + 3 * BSIZE" using assms by (simp add: max_write_def LOGSIZE_def BSIZE_def)
  then have "(off + len - 1) div BSIZE \<le> (off + 3 * BSIZE) div BSIZE" by (rule div_le_mono)
  also have "\<dots> = off div BSIZE + 3" by (simp add: BSIZE_def)
  finally show ?thesis by (simp add: blocks_of_def le_diff_conv)
qed

lemma overwritten_bytes:
  assumes "overwritten i (unat (i_size i)) off src V V'" and "off + length src \<le> unat (i_size i)"
  shows "file_bytes V' i = take off (file_bytes V i) @ src @ drop (off + length src) (file_bytes V i)"
proof (rule nth_equalityI)
  fix k
  assume "k < length (file_bytes V' i)"
  then have k: "k < unat (i_size i)" by (simp add: file_bytes_def)
  then have "file_byte V' i k = (if off \<le> k \<and> k < off + length src then src ! (k - off) else file_byte V i k)"
    using assms(1) by (simp add: overwritten_def)
  with k assms(2) show "file_bytes V' i ! k = (take off (file_bytes V i) @ src @ drop (off + length src) (file_bytes V i)) ! k"
    by (auto simp: file_bytes_def nth_append not_less)
qed (use assms(2) in \<open>simp add: file_bytes_def\<close>)

lemma file_bytes_cong:
  assumes "\<And>k. k \<notin> log_area l \<Longrightarrow> d k = V k" and "\<And>k. k \<in> log_area l \<Longrightarrow> V k = (\<lambda>_. 0)"
  shows "file_bytes (home_view (log_area l) d) i = file_bytes V i"
proof -
  have "home_view (log_area l) d = V" using assms by (auto simp: home_view_def)
  then show ?thesis by simp
qed

text \<open>A machine whose file 5 is open on inode 3, ten bytes in block 30, at offset 2.\<close>

definition file_kernel :: kernel where
  "file_kernel = (disk_kernel ((\<lambda>_ _. 0)(30 := \<lambda>j. word_of_nat j)))
     \<lparr>inodes := (\<lambda>_. zero_inode)(3 := zero_inode\<lparr>i_dev := 1, i_inum := 3, i_ref := 1, i_valid := True,
        i_type := T_FILE, i_size := 10, i_addrs := (\<lambda>_. 0)(0 := 30)\<rparr>),
      files := (\<lambda>_. zero_file)(5 := zero_file\<lparr>f_type := FD_INODE, f_ref := 1, f_readable := True,
        f_writable := True, f_ip := 3, f_off := 2\<rparr>)\<rparr>"

lemma file_kernel_fields [simp]:
  "files file_kernel 5 = zero_file\<lparr>f_type := FD_INODE, f_ref := 1, f_readable := True, f_writable := True, f_ip := 3, f_off := 2\<rparr>"
  "inodes file_kernel 3 = zero_inode\<lparr>i_dev := 1, i_inum := 3, i_ref := 1, i_valid := True,
     i_type := T_FILE, i_size := 10, i_addrs := (\<lambda>_. 0)(0 := 30)\<rparr>"
  "memdisk file_kernel = (\<lambda>_ _. 0)(30 := \<lambda>j. word_of_nat j)" "disksize file_kernel = 64"
  "logs file_kernel = zero_log\<lparr>l_start := 54, l_size := 10, l_dev := 1\<rparr>"
  by (simp_all add: file_kernel_def)

lemma file_kernel_ready: "log_ready file_kernel"
proof -
  let ?d = "(\<lambda>_ _. 0)(30 := \<lambda>j. word_of_nat j)"
  have b: "bc_inv file_kernel = bc_inv (disk_kernel ?d)" by (rule bc_frame) (simp_all add: file_kernel_def)
  have f: "bufs file_kernel = bufs (disk_kernel ?d)" by (simp add: file_kernel_def)
  have "bc_held file_kernel = bc_held (disk_kernel ?d)" "bc_pinned file_kernel = bc_pinned (disk_kernel ?d)"
    unfolding bc_held_def bc_pinned_def slot_def f by (rule refl)+
  with b show ?thesis using disk_kernel_ready [of ?d]
    by (simp add: log_ready_def booted_def)
qed

lemma file_kernel_open:
  "file_open file_kernel 5"
  "mapped (idle file_kernel) (file_inode file_kernel 5) (unat (i_size (file_inode file_kernel 5)))"
  "separate (tx_view (idle file_kernel)) (file_inode file_kernel 5) (unat (i_size (file_inode file_kernel 5)))"
proof -
  have z: "bn * BSIZE < 10 \<longleftrightarrow> bn = 0" for bn by (cases bn) (auto simp: BSIZE_def)
  have l: "30 \<notin> log_area (logs file_kernel)" by (simp add: log_area_def)
  show "file_open file_kernel 5" by (simp add: file_open_def lockable_def T_FILE_def T_DEV_def zero_inode_def)
  show "mapped (idle file_kernel) (file_inode file_kernel 5) (unat (i_size (file_inode file_kernel 5)))"
    using l by (simp add: mapped_def z readable_def file_block_def NBUF_def MAXFILE_def NDIRECT_def) (simp add: BSIZE_def)
  show "separate (tx_view (idle file_kernel)) (file_inode file_kernel 5) (unat (i_size (file_inode file_kernel 5)))"
    by (simp add: separate_def z NDIRECT_def)
qed

lemma file_kernel_content: "disk_content file_kernel 5 = map word_of_nat [0..<10]"
  by (simp add: disk_content_def file_bytes_def file_byte_def file_block_def home_view_def log_area_def
      NDIRECT_def BSIZE_def upt_rec)

text \<open>C9. Reading from an open file, with nobody else holding its blocks, returns the bytes of the file from
  the file offset on, as many as asked for or as there are, and advances the offset by their number. The
  disk, the inodes and the other open files stay as they are.\<close>

theorem fileread_content:
  assumes "log_ready s" and "f_readable (files s f)" and "file_open s f"
    and "mapped (idle s) (file_inode s f) (unat (i_size (file_inode s f)))"
    and "f_off (files s f) \<le> i_size (file_inode s f)" and "0 \<le> n" and "n < 2 ^ 31"
  shows "let bs = take (nat n) (drop (unat (f_off (files s f))) (disk_content s f)) in
    \<exists>t. fileread f n s = Ok (int (length bs), bs) t \<and> log_ready t \<and>
      (\<forall>k. k \<notin> log_area (logs s) \<longrightarrow> memdisk t k = memdisk s k) \<and> inodes t = inodes s \<and>
      files t = (files s)(f := (files s f)\<lparr>f_off := f_off (files s f) + word_of_nat (length bs)\<rparr>)"
proof -
  define bs where "bs = take (nat n) (drop (unat (f_off (files s f))) (disk_content s f))"
  let ?T = "tx_set_files ((files s)(f := (files s f)\<lparr>f_off := f_off (files s f) + word_of_nat (length bs)\<rparr>)) (idle s)"
  obtain t where t: "fileread f n s = Ok (int (length bs), bs) t" "tx_at (memdisk s) (wtrace s) ?T t"
    using hoareE [OF fileread_tx [OF assms(2-7), folded bs_def] tx_idle_start [OF assms(1)]] by blast
  have nb: "\<not> l_busy (logs s)" using assms(1) by (simp add: log_ready_def)
  note r = tx_at_rest [OF t(2)]
  have l: "log_area (logs t) = log_area (logs s)"
    using arg_cong [OF r, of "\<lambda>x. log_area (logs x)"] by simp
  have "log_ready t" by (rule tx_idle_end [OF t(2)]) (use nb in simp_all)
  moreover have "memdisk t k = memdisk s k" if "k \<notin> log_area (logs s)" for k
    using tx_idle_end(2) [OF t(2), of k] nb that l by simp
  moreover have "inodes t = inodes s" "files t = files (tx_rest ?T)"
    using arg_cong [OF r, of inodes] arg_cong [OF r, of files] by simp_all
  ultimately show ?thesis using t(1) by (simp add: bs_def [symmetric] Let_def)
qed

theorem fileread_content_witness:
  "\<exists>t. fileread 5 4 file_kernel = Ok (4, [2, 3, 4, 5]) t \<and> f_off (files t 5) = 6"
  using fileread_content [of file_kernel 5 4, OF file_kernel_ready _ file_kernel_open(1,2)]
  by (auto simp: Let_def file_kernel_content upt_rec)

text \<open>The transaction that \<open>filewrite\<close> makes of a write that fits into one.\<close>

definition writable :: "kernel \<Rightarrow> nat \<Rightarrow> uchar list \<Rightarrow> bool" where
  "writable s f src \<longleftrightarrow> log_ready s \<and> f_writable (files s f) \<and> file_open s f \<and>
     mapped (idle s) (file_inode s f) (unat (i_size (file_inode s f))) \<and>
     separate (tx_view (idle s)) (file_inode s f) (unat (i_size (file_inode s f))) \<and>
     unat (f_off (files s f)) + length src \<le> unat (i_size (file_inode s f)) \<and>
     src \<noteq> [] \<and> length src \<le> max_write"

text \<open>The sectors the file's blocks are in.\<close>

definition file_sectors :: "kernel \<Rightarrow> nat \<Rightarrow> nat set" where
  "file_sectors s f = unat ` file_block (tx_view (idle s)) (file_inode s f) ` {bn. bn * BSIZE < unat (i_size (file_inode s f))}"

lemma filewrite_trans:
  fixes s :: kernel and f :: nat
  defines "off \<equiv> unat (f_off (files s f))" and "x \<equiv> files s f"
  defines "F \<equiv> \<lambda>n. (files s)(f := x\<lparr>f_off := f_off x + word_of_nat n\<rparr>)"
  assumes w: "writable s f src"
  shows "\<exists>t tr T'. filewrite f src (int (length src)) s = Ok (int (length src)) t \<and> replaced (f_ip x) off src (opened s) T' \<and>
    log_ready t \<and> wtrace t = wtrace s @ tr \<and> rest t = (tx_rest (opened s))\<lparr>files := F (length src), logs := logs t\<rparr> \<and>
    same_place (logs s) (logs t) \<and> (\<forall>k. k \<notin> log_area (logs s) \<longrightarrow> memdisk t k = tx_view T' k) \<and>
    crash_atomic s tr (tx_view T')"
proof -
  have assms: "log_ready s" "f_writable (files s f)" "file_open s f"
    "mapped (idle s) (file_inode s f) (unat (i_size (file_inode s f)))"
    "separate (tx_view (idle s)) (file_inode s f) (unat (i_size (file_inode s f)))"
    "unat (f_off (files s f)) + length src \<le> unat (i_size (file_inode s f))" "src \<noteq> []" "length src \<le> max_write"
    using w by (simp_all add: writable_def)
  let ?ip = "f_ip x" and ?T = "opened s"
  have T: "tx_view ?T = tx_view (idle s)" "tx_inode ?T = inodes s" "files (tx_rest ?T) = files s"
    "mapped ?T = mapped (idle s)" "l_busy (tx_log ?T)"
    by (simp_all add: opened_def idle_def mapped_def readable_def fun_eq_iff log_area_def)
  have b: "budget ?T (blocks_of off (length src))"
    using blocks_of_max [OF assms(8), of off] by (simp add: budget_def opened_def LOGSIZE_def NBUF_def)
  have body: "hoare (tx_at (memdisk s) (wtrace s) ?T) (filewrite_body f src)
    (\<lambda>r t. r = int (length src) \<and> (\<exists>T'. tx_at (memdisk s) (wtrace s) T' t \<and> replaced ?ip off src ?T T' \<and>
       tx_rest T' = (tx_rest ?T)\<lparr>files := (files s)(f := x\<lparr>f_off := f_off x + word_of_nat (length src)\<rparr>)\<rparr>))"
    using filewrite_body_tx [of src ?T f] assms b by (simp add: T x_def off_def file_open_def)
  let ?V = "\<lambda>r T'. r = int (length src) \<and> replaced ?ip off src ?T T' \<and> tx_rest T' = (tx_rest ?T)\<lparr>files := F (length src)\<rparr>"
  have "\<exists>r t tr T'. atomically (filewrite_body f src) s = Ok r t \<and> ?V r T' \<and> log_ready t \<and> wtrace t = wtrace s @ tr \<and>
     rest t = (tx_rest T')\<lparr>logs := logs t\<rparr> \<and> same_place (logs s) (logs t) \<and>
     (\<forall>k. k \<notin> log_area (logs s) \<longrightarrow> memdisk t k = tx_view T' k) \<and> crash_atomic s tr (tx_view T')"
  proof (rule atomically_ok [OF assms(1)], rule hoare_post [OF body], elim conjE exE)
    fix r t T'
    assume h: "r = int (length src)" "tx_at (memdisk s) (wtrace s) T' t" "replaced ?ip off src ?T T'"
      "tx_rest T' = (tx_rest ?T)\<lparr>files := (files s)(f := x\<lparr>f_off := f_off x + word_of_nat (length src)\<rparr>)\<rparr>"
    have "card (tx_logged T') < NBUF"
      using h(3) blocks_of_max [OF assms(8), of off] by (simp add: replaced_def opened_def NBUF_def)
    with h show "\<exists>T'. tx_at (memdisk s) (wtrace s) T' t \<and> tx_held T' = Map.empty \<and> card (tx_logged T') < NBUF \<and>
       tx_size T' = disksize s \<and> tx_log T' = tx_log (opened s) \<and> ?V r T'"
      by (intro exI [of _ T']) (simp add: replaced_def F_def, simp add: opened_def)
  qed
  then obtain t tr T' where t: "atomically (filewrite_body f src) s = Ok (int (length src)) t" "replaced ?ip off src ?T T'"
    "tx_rest T' = (tx_rest ?T)\<lparr>files := F (length src)\<rparr>" "log_ready t" "wtrace t = wtrace s @ tr"
    "rest t = (tx_rest T')\<lparr>logs := logs t\<rparr>" "same_place (logs s) (logs t)"
    "\<forall>k. k \<notin> log_area (logs s) \<longrightarrow> memdisk t k = tx_view T' k" "crash_atomic s tr (tx_view T')"
    by blast
  have "filewrite f src (int (length src)) s = Ok (int (length src)) t"
    using assms(2,3) t(1)
    by (simp add: filewrite_def get_file_def file_open_def filewrite_loop_atomically [OF assms(7,8)])
  then show ?thesis using t(2,4-9) unfolding t(3) by (intro exI [of _ t] exI [of _ tr] exI [of _ T']) simp
qed

text \<open>C2. A write of at most \<open>max_write\<close> bytes inside a file is atomic under crashes. It returns the number of
  bytes, advances the file offset by it, and afterwards the file on disk is the old one with the bytes
  replaced; blocks outside the file and the log are unchanged. If the machine stops after any of the sector
  writes, the recovery at the next boot leaves the old contents of the file or the new ones.\<close>

theorem filewrite_crash_atomic:
  assumes w: "writable s f src"
  shows "let off = unat (f_off (files s f)); old = disk_content s f;
             new = take off old @ src @ drop (off + length src) old in
    \<exists>t tr. filewrite f src (int (length src)) s = Ok (int (length src)) t \<and> log_ready t \<and>
      disk_content t f = new \<and> inodes t = inodes s \<and> wtrace t = wtrace s @ tr \<and>
      files t = (files s)(f := (files s f)\<lparr>f_off := f_off (files s f) + word_of_nat (length src)\<rparr>) \<and>
      (\<forall>k. k \<notin> log_area (logs s) \<and> k \<notin> file_sectors s f \<longrightarrow> memdisk t k = memdisk s k) \<and>
      (\<forall>m r. booted r \<and> disksize r = disksize s \<and> same_place (logs s) (logs r) \<and>
             memdisk r = apply_writes (memdisk s) (take m tr) \<longrightarrow>
         (\<exists>r'. recover_from_log r = Ok () r' \<and>
            file_bytes (home_view (log_area (logs s)) (memdisk r')) (file_inode s f) \<in> {old, new}))"
proof -
  define off old new where "off = unat (f_off (files s f))" and "old = disk_content s f"
    and "new = take off old @ src @ drop (off + length src) old"
  let ?i = "file_inode s f" and ?L = "log_area (logs s)"
  obtain t tr T' where t: "filewrite f src (int (length src)) s = Ok (int (length src)) t"
    "replaced (f_ip (files s f)) off src (opened s) T'" "log_ready t" "wtrace t = wtrace s @ tr"
    "rest t = (tx_rest (opened s))\<lparr>files := (files s)(f := (files s f)\<lparr>f_off := f_off (files s f) + word_of_nat (length src)\<rparr>),
       logs := logs t\<rparr>" "same_place (logs s) (logs t)"
    "\<And>k. k \<notin> ?L \<Longrightarrow> memdisk t k = tx_view T' k" "crash_atomic s tr (tx_view T')"
    using filewrite_trans [OF w] unfolding off_def by blast
  have it: "inodes t = inodes s" "files t = (files s)(f := (files s f)\<lparr>f_off := f_off (files s f) + word_of_nat (length src)\<rparr>)"
    using arg_cong [OF t(5), of inodes] arg_cong [OF t(5), of files] by (simp_all add: opened_def)
  have la: "log_area (logs t) = ?L" using t(6) by (simp add: same_place_def log_area_def)
  have ow: "overwritten ?i (unat (i_size ?i)) off src (tx_view (idle s)) (tx_view T')"
    using t(2) by (simp add: replaced_def opened_def)
  have "file_bytes (tx_view T') ?i = new"
    unfolding new_def old_def disk_content_def
    using overwritten_bytes [OF ow] w by (simp add: writable_def off_def)
  moreover have "tx_view T' k = (\<lambda>_. 0)" if "k \<in> ?L" for k
  proof -
    have "k \<notin> unat ` file_block (tx_view (idle s)) ?i ` {bn. bn * BSIZE < unat (i_size ?i)}"
      using w that by (auto simp: writable_def mapped_def readable_def)
    then show ?thesis using ow that by (simp add: overwritten_def home_view_def)
  qed
  ultimately have new: "file_bytes (home_view ?L d) ?i = new" if "\<And>k. k \<notin> ?L \<Longrightarrow> d k = tx_view T' k" for d
    using file_bytes_cong [of "logs s" d "tx_view T'" ?i] that by simp
  have old: "file_bytes (home_view ?L d) ?i = old" if "\<And>k. k \<notin> ?L \<Longrightarrow> d k = memdisk s k" for d
    using file_bytes_cong [of "logs s" d "tx_view (idle s)" ?i] that
    by (simp add: old_def disk_content_def home_view_def)
  have "disk_content t f = new" using new [OF t(7)] by (simp add: disk_content_def la it)
  moreover have "\<exists>r'. recover_from_log r = Ok () r' \<and> file_bytes (home_view ?L (memdisk r')) ?i \<in> {old, new}"
    if "booted r" "disksize r = disksize s" "same_place (logs s) (logs r)" "memdisk r = apply_writes (memdisk s) (take m tr)" for m r
    using t(8) that new old unfolding crash_atomic_def by blast
  moreover have "memdisk t k = memdisk s k" if "k \<notin> ?L" "k \<notin> file_sectors s f" for k
    using ow that t(7) [of k] by (simp add: overwritten_def file_sectors_def home_view_def)
  ultimately show ?thesis
    using t(1,3,4) it unfolding Let_def off_def [symmetric] old_def [symmetric] new_def [symmetric]
    by (intro exI [of _ t] exI [of _ tr]) simp
qed

theorem filewrite_crash_atomic_witness:
  "writable file_kernel 5 [7, 8, 9] \<and>
   (\<exists>t. filewrite 5 [7, 8, 9] 3 file_kernel = Ok 3 t \<and> disk_content t 5 = [0, 1, 7, 8, 9, 5, 6, 7, 8, 9])"
proof -
  have w: "writable file_kernel 5 [7, 8, 9]"
    using file_kernel_ready file_kernel_open by (simp add: writable_def max_write_def LOGSIZE_def)
  show ?thesis
    using filewrite_crash_atomic [OF w] w by (auto simp: Let_def file_kernel_content upt_rec)
qed

end
