(* ===== verification/Mkfs.thy ===== *)
theory Mkfs
  imports Content
begin

text \<open>
  The program that writes the file system image (mkfs/mkfs.c). The image is a list of sectors; the result
  \<open>None\<close> stands for an exit with an error or a failed assertion. The fields of the structures are held as
  numbers, which \<open>put_dinode\<close> and \<open>dirent_bytes\<close> store in the byte order that \<open>xshort\<close> and \<open>xint\<close> produce.
\<close>

section \<open>Operations\<close>

definition mk_nblocks :: nat where "mk_nblocks = 1970"
definition mk_nlog :: nat where "mk_nlog = LOGSIZE"
definition mk_ninodes :: nat where "mk_ninodes = 200"
definition mk_size :: nat where "mk_size = 2009"

record mkfs =
  fs_img :: "nat \<Rightarrow> blk"
  fs_len :: nat
  freeblock :: nat
  usedblocks :: nat
  freeinode :: nat

text \<open>A sector that the image does not have yet cannot be read; writing behind the end extends the image.\<close>

definition wsect :: "nat \<Rightarrow> blk \<Rightarrow> mkfs \<Rightarrow> mkfs" where
  "wsect sec buf st = st\<lparr>fs_img := (fs_img st)(sec := buf), fs_len := max (fs_len st) (sec + 1)\<rparr>"

definition rsect :: "nat \<Rightarrow> mkfs \<Rightarrow> blk option" where
  "rsect sec st = (if sec < fs_len st then Some (fs_img st sec) else None)"

definition i2b :: "nat \<Rightarrow> nat" where
  "i2b inum = inum div IPB + 2"

definition winode :: "nat \<Rightarrow> dinode \<Rightarrow> mkfs \<Rightarrow> mkfs option" where
  "winode inum ip st =
     (let bn = i2b inum
      in map_option (\<lambda>buf. wsect bn (put_dinode buf (64 * (inum mod IPB)) ip) st) (rsect bn st))"

definition rinode :: "nat \<Rightarrow> mkfs \<Rightarrow> dinode option" where
  "rinode inum st = map_option (\<lambda>buf. get_dinode buf (64 * (inum mod IPB))) (rsect (i2b inum) st)"

definition mk_ialloc :: "ushort \<Rightarrow> mkfs \<Rightarrow> (nat \<times> mkfs) option" where
  "mk_ialloc type st =
     (let inum = freeinode st
      in map_option (\<lambda>st. (inum, st))
           (winode inum \<lparr>di_type = type, di_major = 0, di_minor = 0, di_nlink = 1, di_size = 0,
              di_addrs = replicate (NDIRECT + 1) 0\<rparr> (st\<lparr>freeinode := inum + 1\<rparr>)))"

text \<open>\<open>freeblock++, usedblocks++\<close>.\<close>

definition take_free :: "mkfs \<Rightarrow> mkfs" where
  "take_free st = st\<lparr>freeblock := freeblock st + 1, usedblocks := usedblocks st + 1\<rparr>"

text \<open>The sector of block \<open>fbn\<close> of a file, allocated if it is not there: the first part of the loop of
  \<open>iappend\<close>.\<close>

definition iappend_block :: "nat \<Rightarrow> dinode \<Rightarrow> mkfs \<Rightarrow> (nat \<times> dinode \<times> mkfs) option" where
  "iappend_block fbn din st =
     (if fbn < NDIRECT
      then
        if di_addrs din ! fbn = 0
        then Some (freeblock st, din\<lparr>di_addrs := (di_addrs din)[fbn := of_nat (freeblock st)]\<rparr>, take_free st)
        else Some (unat (di_addrs din ! fbn), din, st)
      else
        case (if di_addrs din ! NDIRECT = 0
              then (din\<lparr>di_addrs := (di_addrs din)[NDIRECT := of_nat (freeblock st)]\<rparr>, take_free st)
              else (din, st)) of (din, st) \<Rightarrow>
        let ib = unat (di_addrs din ! NDIRECT) in
        Option.bind (rsect ib st) (\<lambda>indirect.
        let x = get32 indirect (4 * (fbn - NDIRECT)) in
        if x = 0
        then Some (freeblock st, din, wsect ib (put32 indirect (4 * (fbn - NDIRECT)) (of_nat (freeblock st))) (take_free st))
        else Some (unat x, din, st)))"

text \<open>\<open>bcopy(p, buf + at, n)\<close>.\<close>

definition put_at :: "blk \<Rightarrow> nat \<Rightarrow> uchar list \<Rightarrow> blk" where
  "put_at buf at p = (\<lambda>i. if at \<le> i \<and> i < at + length p then p ! (i - at) else buf i)"

function iappend_loop :: "uchar list \<Rightarrow> nat \<Rightarrow> dinode \<Rightarrow> mkfs \<Rightarrow> (nat \<times> dinode \<times> mkfs) option" where
  "iappend_loop p off din st =
     (if p = [] then Some (off, din, st)
      else
        let fbn = off div 512 in
        if fbn \<ge> MAXFILE then None
        else
          Option.bind (iappend_block fbn din st) (\<lambda>(x, din, st).
          let n1 = min (length p) ((fbn + 1) * 512 - off) in
          Option.bind (rsect x st) (\<lambda>buf.
          iappend_loop (drop n1 p) (off + n1) din (wsect x (put_at buf (off - fbn * 512) (take n1 p)) st))))"
  by auto

termination
  by (relation "measure (\<lambda>(p, _). length p)") (auto simp: Suc_le_eq dividend_less_div_times)

declare iappend_loop.simps [simp del]

definition iappend :: "nat \<Rightarrow> uchar list \<Rightarrow> mkfs \<Rightarrow> mkfs option" where
  "iappend inum p st =
     Option.bind (rinode inum st) (\<lambda>din.
     Option.bind (iappend_loop p (unat (di_size din)) din st) (\<lambda>(off, din, st).
     winode inum (din\<lparr>di_size := of_nat off\<rparr>) st))"

text \<open>The bitmap: the bits of the first \<open>used\<close> blocks.\<close>

definition mk_balloc :: "nat \<Rightarrow> mkfs \<Rightarrow> mkfs option" where
  "mk_balloc used st =
     (if \<not> used < 512 * 8 then None
      else Some (wsect (mk_ninodes div IPB + 3)
        (fold (\<lambda>i buf. buf(i div 8 := buf (i div 8) OR push_bit (i mod 8) 1)) [0..<used] (\<lambda>_. 0)) st))"

text \<open>A directory entry with a name of at most \<open>DIRSIZ\<close> characters.\<close>

definition entry :: "nat \<Rightarrow> uchar list \<Rightarrow> uchar list" where
  "entry inum name = dirent_bytes \<lparr>de_inum = of_nat inum, de_name = strncpy_list name DIRSIZ\<rparr>"

definition adddir :: "uchar list \<Rightarrow> nat \<Rightarrow> mkfs \<Rightarrow> (nat \<times> mkfs) option" where
  "adddir name parino st =
     Option.bind (mk_ialloc T_DIR st) (\<lambda>(inum, st).
     Option.bind (iappend parino (entry inum name) st) (\<lambda>st.
     Option.bind (iappend inum (entry inum (str ''.'')) st) (\<lambda>st.
     Option.bind (iappend inum (entry parino (str ''..'')) st) (\<lambda>st.
     Some (inum, st)))))"

text \<open>\<open>while((cc = read(fd, buf, sizeof(buf))) > 0) iappend(inum, buf, cc);\<close>\<close>

function append_file :: "nat \<Rightarrow> uchar list \<Rightarrow> mkfs \<Rightarrow> mkfs option" where
  "append_file inum data st =
     (if data = [] then Some st
      else Option.bind (iappend inum (take 512 data) st) (\<lambda>st. append_file inum (drop 512 data) st))"
  by auto

termination
  by (relation "measure (\<lambda>(_, data, _). length data)") auto

declare append_file.simps [simp del]

text \<open>The directory of a file on the command line, and its name there; the arguments are the inodes of the
  directories \<open>/bin\<close>, \<open>/sbin\<close>, \<open>/root\<close> and \<open>/etc\<close>.\<close>

definition place :: "nat \<Rightarrow> nat \<Rightarrow> nat \<Rightarrow> nat \<Rightarrow> uchar list \<Rightarrow> nat \<times> uchar list" where
  "place binino sbinino homeino etcino arg =
     (case arg of
        [] \<Rightarrow> (etcino, arg)
      | c # name \<Rightarrow>
          if c = 0x5F then (binino, name)
          else if c = 0x21 then (sbinino, name)
          else if c = 0x2E then (homeino, name)
          else (etcino, arg))"

primrec add_files :: "(uchar list \<Rightarrow> nat \<times> uchar list) \<Rightarrow> (uchar list \<times> uchar list option) list \<Rightarrow> mkfs \<Rightarrow> mkfs option" where
  "add_files where_to [] st = Some st"
| "add_files where_to (f # fs) st =
     (case f of
        (arg, None) \<Rightarrow> None
      | (arg, Some data) \<Rightarrow>
          (case where_to arg of (dir, name) \<Rightarrow>
           Option.bind (mk_ialloc T_FILE st) (\<lambda>(inum, st).
           Option.bind (iappend dir (entry inum name) st) (\<lambda>st.
           Option.bind (append_file inum data st) (\<lambda>st.
           add_files where_to fs st)))))"

definition mk_super :: blk where
  "mk_super = put32 (put32 (put32 (put32 (\<lambda>_. 0) 0 (of_nat mk_size)) 4 (of_nat mk_nblocks)) 8 (of_nat mk_ninodes)) 12 (of_nat mk_nlog)"

definition mkfs_main :: "(uchar list \<times> uchar list option) list \<Rightarrow> mkfs option" where
  "mkfs_main args =
     (let bitblocks = mk_size div (512 * 8) + 1;
          used = mk_ninodes div IPB + 3 + bitblocks;
          st = \<lparr>fs_img = (\<lambda>_ _. 0), fs_len = 0, freeblock = used, usedblocks = used, freeinode = 1\<rparr>
      in
      if mk_nblocks + used + mk_nlog \<noteq> mk_size then None
      else
        let st = fold (\<lambda>i. wsect i (\<lambda>_. 0)) [0..<mk_nblocks + used + mk_nlog] st;
            st = wsect 1 mk_super st
        in
        Option.bind (mk_ialloc T_DIR st) (\<lambda>(rootino, st).
        if rootino \<noteq> ROOTINO then None
        else
          Option.bind (iappend rootino (entry rootino (str ''.'')) st) (\<lambda>st.
          Option.bind (iappend rootino (entry rootino (str ''..'')) st) (\<lambda>st.
          Option.bind (adddir (str ''bin'') rootino st) (\<lambda>(binino, st).
          Option.bind (adddir (str ''dev'') rootino st) (\<lambda>(devino, st).
          Option.bind (adddir (str ''etc'') rootino st) (\<lambda>(etcino, st).
          Option.bind (adddir (str ''root'') rootino st) (\<lambda>(homeino, st).
          Option.bind (adddir (str ''proc'') rootino st) (\<lambda>(procino, st).
          Option.bind (adddir (str ''sbin'') rootino st) (\<lambda>(sbinino, st).
          Option.bind (adddir (str ''usr'') rootino st) (\<lambda>(usrino, st).
          Option.bind (adddir (str ''bin'') usrino st) (\<lambda>(usrbinino, st).
          Option.bind (adddir (str ''share'') usrino st) (\<lambda>(shareino, st).
          Option.bind (adddir (str ''local'') usrino st) (\<lambda>(localino, st).
          Option.bind (adddir (str ''bin'') localino st) (\<lambda>(localbinino, st).
          Option.bind (adddir (str ''sbin'') usrino st) (\<lambda>(usrsbinino, st).
          Option.bind (adddir (str ''sbin'') localino st) (\<lambda>(localsbinino, st).
          Option.bind (add_files (place binino sbinino homeino etcino) args st) (\<lambda>st.
          Option.bind (rinode rootino st) (\<lambda>din.
          Option.bind (winode rootino (din\<lparr>di_size := of_nat ((unat (di_size din) div BSIZE + 1) * BSIZE)\<rparr>) st) (\<lambda>st.
          mk_balloc (usedblocks st) st))))))))))))))))))))"

section \<open>The blocks of a file\<close>

text \<open>The inode that \<open>ilock\<close> loads, and its blocks and bytes as the kernel finds them.\<close>

definition disk_inode :: "dinode \<Rightarrow> inode" where
  "disk_inode di = from_dinode di zero_inode"

definition dblock :: "(nat \<Rightarrow> blk) \<Rightarrow> dinode \<Rightarrow> nat \<Rightarrow> uint" where
  "dblock V di bn = file_block V (disk_inode di) bn"

definition dbyte :: "(nat \<Rightarrow> blk) \<Rightarrow> dinode \<Rightarrow> nat \<Rightarrow> uchar" where
  "dbyte V di k = file_byte V (disk_inode di) k"

lemma dblock_eq: "dblock V di bn = (if bn < 12 then di_addrs di ! bn else get32 (V (unat (di_addrs di ! 12))) (4 * (bn - 12)))"
  by (simp add: dblock_def file_block_def disk_inode_def from_dinode_def layout)

lemma dbyte_eq: "dbyte V di k = V (unat (dblock V di (k div 512))) (k mod 512)"
  by (simp add: dbyte_def file_byte_def dblock_def BSIZE_def)

text \<open>A file of \<open>nb\<close> blocks: they are different blocks from \<open>lo\<close> on and below \<open>fb\<close>, and the addresses behind them
  are still zero.\<close>

definition wf_blocks :: "(nat \<Rightarrow> blk) \<Rightarrow> nat \<Rightarrow> nat \<Rightarrow> dinode \<Rightarrow> nat \<Rightarrow> bool" where
  "wf_blocks V lo fb di nb \<longleftrightarrow> length (di_addrs di) = 13 \<and> nb \<le> 140 \<and>
     (\<forall>bn<nb. lo \<le> unat (dblock V di bn) \<and> unat (dblock V di bn) < fb) \<and> inj_on (dblock V di) {..<nb} \<and>
     (\<forall>bn. nb \<le> bn \<and> bn < 12 \<longrightarrow> di_addrs di ! bn = 0) \<and>
     (if 12 < nb
      then lo \<le> unat (di_addrs di ! 12) \<and> unat (di_addrs di ! 12) < fb \<and> (\<forall>bn<nb. dblock V di bn \<noteq> di_addrs di ! 12) \<and>
        (\<forall>bn. nb \<le> bn \<and> bn < 140 \<longrightarrow> dblock V di bn = 0)
      else di_addrs di ! 12 = 0)"

definition owned :: "(nat \<Rightarrow> blk) \<Rightarrow> dinode \<Rightarrow> nat \<Rightarrow> nat set" where
  "owned V di nb = unat ` dblock V di ` {..<nb} \<union> (if 12 < nb then {unat (di_addrs di ! 12)} else {})"

definition fresh :: "(nat \<Rightarrow> blk) \<Rightarrow> nat \<Rightarrow> bool" where
  "fresh V fb \<longleftrightarrow> (\<forall>b\<ge>fb. V b = (\<lambda>_. 0))"

lemma wf_blocksD:
  assumes "wf_blocks V lo fb di nb"
  shows "length (di_addrs di) = 13" "nb \<le> 140" "bn < nb \<Longrightarrow> lo \<le> unat (dblock V di bn)" "bn < nb \<Longrightarrow> unat (dblock V di bn) < fb"
    "inj_on (dblock V di) {..<nb}" "nb \<le> bn \<Longrightarrow> bn < 12 \<Longrightarrow> di_addrs di ! bn = 0"
    "12 < nb \<Longrightarrow> lo \<le> unat (di_addrs di ! 12)" "12 < nb \<Longrightarrow> unat (di_addrs di ! 12) < fb"
    "12 < nb \<Longrightarrow> bn < nb \<Longrightarrow> dblock V di bn \<noteq> di_addrs di ! 12" "12 < nb \<Longrightarrow> nb \<le> bn \<Longrightarrow> bn < 140 \<Longrightarrow> dblock V di bn = 0"
    "\<not> 12 < nb \<Longrightarrow> di_addrs di ! 12 = 0"
  using assms by (auto simp: wf_blocks_def split: if_splits)

lemma owned_range: "wf_blocks V lo fb di nb \<Longrightarrow> b \<in> owned V di nb \<Longrightarrow> lo \<le> b \<and> b < fb"
  using wf_blocksD(3,4,7,8) by (fastforce simp: owned_def split: if_splits)

text \<open>A block that is already there.\<close>

lemma iappend_block_old:
  assumes w: "wf_blocks (fs_img st) lo (freeblock st) di nb" and "fbn < nb" and "0 < lo" and "freeblock st \<le> fs_len st"
  shows "iappend_block fbn di st = Some (unat (dblock (fs_img st) di fbn), di, st)"
proof -
  note D = wf_blocksD [OF w]
  have nz: "dblock (fs_img st) di fbn \<noteq> 0" using D(3) assms(2,3) by fastforce
  show ?thesis
  proof (cases "fbn < 12")
    case True
    then show ?thesis using nz by (simp add: iappend_block_def layout dblock_eq)
  next
    case False
    then have "12 < nb" using assms(2) by simp
    then have ib: "di_addrs di ! 12 \<noteq> 0" "unat (di_addrs di ! 12) < fs_len st" using D(7,8) assms(3,4) by fastforce+
    then show ?thesis using False nz by (simp add: iappend_block_def layout dblock_eq rsect_def Let_def)
  qed
qed

text \<open>What appending may change: blocks of the file and blocks that were free.\<close>

definition extends :: "nat \<Rightarrow> dinode \<Rightarrow> nat \<Rightarrow> mkfs \<Rightarrow> dinode \<Rightarrow> nat \<Rightarrow> mkfs \<Rightarrow> bool" where
  "extends lo di nb st di' nb' st' \<longleftrightarrow> wf_blocks (fs_img st') lo (freeblock st') di' nb' \<and> fresh (fs_img st') (freeblock st') \<and>
     fs_len st' = fs_len st \<and> freeblock st \<le> freeblock st' \<and> freeinode st' = freeinode st \<and>
     (\<forall>b<freeblock st. b \<notin> owned (fs_img st) di nb \<longrightarrow> fs_img st' b = fs_img st b) \<and>
     owned (fs_img st') di' nb' \<subseteq> owned (fs_img st) di nb \<union> {freeblock st..<freeblock st'}"

text \<open>The number of new blocks.\<close>

definition need :: "nat \<Rightarrow> nat \<Rightarrow> nat" where
  "need nb nb' = (nb' - nb) + (if nb \<le> 12 \<and> 12 < nb' then 1 else 0)"

lemma new_direct:
  assumes w: "wf_blocks (fs_img st) lo (freeblock st) di nb" and nb: "nb < 12" and fr: "fresh (fs_img st) (freeblock st)"
    and len: "freeblock st < fs_len st" "fs_len st < 2 ^ 31" and lo: "lo \<le> freeblock st"
  defines "x \<equiv> freeblock st"
  defines "di' \<equiv> di\<lparr>di_addrs := (di_addrs di)[nb := of_nat x]\<rparr>"
  shows "iappend_block nb di st = Some (x, di', take_free st)" "extends lo di nb st di' (Suc nb) (take_free st)"
    "\<forall>bn<nb. dblock (fs_img st) di' bn = dblock (fs_img st) di bn" "unat (dblock (fs_img st) di' nb) = x"
proof -
  note D = wf_blocksD [OF w]
  have x: "unat (of_nat x :: uint) = x" using len by (simp add: x_def unat_of_nat)
  show "iappend_block nb di st = Some (x, di', take_free st)"
    using nb D(6) [of nb] by (simp add: iappend_block_def layout x_def di'_def)
  show old: "\<forall>bn<nb. dblock (fs_img st) di' bn = dblock (fs_img st) di bn" using nb by (simp add: dblock_eq di'_def)
  show new: "unat (dblock (fs_img st) di' nb) = x" using nb D(1) x by (simp add: dblock_eq di'_def)
  have 1: "bn < Suc nb \<Longrightarrow> lo \<le> unat (dblock (fs_img st) di' bn) \<and> unat (dblock (fs_img st) di' bn) < Suc x" for bn
    using D(3,4) [of bn] old new lo by (cases "bn = nb") (auto simp: x_def less_Suc_eq)
  have "inj_on (dblock (fs_img st) di') {..<nb}" using D(5) old by (simp add: inj_on_def)
  moreover have "dblock (fs_img st) di' nb \<notin> dblock (fs_img st) di' ` {..<nb}" using D(4) old new by (fastforce simp: x_def)
  ultimately have 2: "inj_on (dblock (fs_img st) di') {..<Suc nb}" by (simp add: lessThan_Suc)
  have "wf_blocks (fs_img st) lo (Suc x) di' (Suc nb)"
    unfolding wf_blocks_def using D(1,6,11) nb 1 2 by (simp add: di'_def)
  moreover have "owned (fs_img st) di' (Suc nb) \<subseteq> owned (fs_img st) di nb \<union> {x}"
    using nb old new by (auto simp: owned_def lessThan_Suc image_iff)
  ultimately show "extends lo di nb st di' (Suc nb) (take_free st)"
    using fr by (auto simp: extends_def take_free_def fresh_def x_def)
qed

text \<open>The block of addresses at \<open>ib\<close> has been allocated, now or before.\<close>

lemma new_indirect:
  assumes len: "length (di_addrs di) = 13" and nb: "12 \<le> nb" "nb < 140" and ib: "unat (di_addrs di ! 12) < x" "lo \<le> unat (di_addrs di ! 12)"
    and old: "\<forall>bn<nb. lo \<le> unat (dblock V di bn) \<and> unat (dblock V di bn) < x \<and> dblock V di bn \<noteq> di_addrs di ! 12"
    and inj: "inj_on (dblock V di) {..<nb}" and zero: "\<forall>bn. nb \<le> bn \<and> bn < 140 \<longrightarrow> dblock V di bn = 0" and x: "x < 2 ^ 31"
  defines "V' \<equiv> V(unat (di_addrs di ! 12) := put32 (V (unat (di_addrs di ! 12))) (4 * (nb - 12)) (of_nat x))"
  shows "wf_blocks V' lo (Suc x) di (Suc nb)" "\<forall>bn<nb. dblock V' di bn = dblock V di bn" "unat (dblock V' di nb) = x"
    "owned V' di (Suc nb) = insert x (insert (unat (di_addrs di ! 12)) (unat ` dblock V di ` {..<nb}))"
proof -
  have ux: "unat (of_nat x :: uint) = x" using x by (simp add: unat_of_nat)
  have e: "dblock V' di bn = (if bn = nb then of_nat x else dblock V di bn)" if "bn < 140" for bn
  proof (cases "bn < 12")
    case True
    then show ?thesis using nb by (simp add: dblock_eq)
  next
    case False
    have "4 * (bn - 12) + 4 \<le> 4 * (nb - 12) \<or> 4 * (nb - 12) + 4 \<le> 4 * (bn - 12)" if "bn \<noteq> nb" using that False nb(1) by linarith
    then show ?thesis using False by (simp add: dblock_eq V'_def)
  qed
  then show o: "\<forall>bn<nb. dblock V' di bn = dblock V di bn" using nb by simp
  show n: "unat (dblock V' di nb) = x" using e [of nb] nb ux by simp
  have 1: "lo \<le> unat (dblock V' di bn) \<and> unat (dblock V' di bn) < Suc x \<and> dblock V' di bn \<noteq> di_addrs di ! 12" if "bn < Suc nb" for bn
    using that o n old ib by (cases "bn = nb") (auto simp: less_Suc_eq)
  have "inj_on (dblock V' di) {..<nb}" using inj o by (simp add: inj_on_def)
  moreover have "dblock V' di nb \<notin> dblock V' di ` {..<nb}" using old o n by fastforce
  ultimately have 2: "inj_on (dblock V' di) {..<Suc nb}" by (simp add: lessThan_Suc)
  have "\<forall>bn. Suc nb \<le> bn \<and> bn < 140 \<longrightarrow> dblock V' di bn = 0" using e zero by simp
  then show "wf_blocks V' lo (Suc x) di (Suc nb)" unfolding wf_blocks_def using len nb ib 1 2 by auto
  have "unat ` dblock V' di ` {..<nb} = unat ` dblock V di ` {..<nb}" using o by (intro image_cong) (auto simp: image_iff)
  then show "owned V' di (Suc nb) = insert x (insert (unat (di_addrs di ! 12)) (unat ` dblock V di ` {..<nb}))"
    using nb n by (simp add: owned_def lessThan_Suc insert_commute)
qed

lemma iappend_block_new:
  assumes w: "wf_blocks (fs_img st) lo (freeblock st) di nb" and nb: "nb < 140" and fr: "fresh (fs_img st) (freeblock st)"
    and room: "freeblock st + need nb (Suc nb) \<le> fs_len st" "fs_len st < 2 ^ 31" and lo: "0 < lo" "lo \<le> freeblock st"
  obtains x di' st' where "iappend_block nb di st = Some (x, di', st')" "extends lo di nb st di' (Suc nb) st'"
    "\<forall>bn<nb. dblock (fs_img st') di' bn = dblock (fs_img st) di bn" "unat (dblock (fs_img st') di' nb) = x"
    "fs_img st' x = (\<lambda>_. 0)" "\<forall>bn<nb. fs_img st' (unat (dblock (fs_img st) di bn)) = fs_img st (unat (dblock (fs_img st) di bn))"
    "freeblock st' = freeblock st + need nb (Suc nb)" "di_size di' = di_size di"
proof (cases "nb < 12")
  case True
  have "freeblock st < fs_len st" using room(1) by (simp add: need_def)
  note n = new_direct [OF w True fr this room(2) lo(2)]
  have "fs_img (take_free st) (freeblock st) = (\<lambda>_. 0)" using fr by (simp add: take_free_def fresh_def)
  then show thesis using n True by (intro that [OF n(1,2)]) (simp_all add: take_free_def need_def)
next
  case False
  let ?V = "fs_img st"
  note D = wf_blocksD [OF w]
  define di1 where "di1 = (if nb = 12 then di\<lparr>di_addrs := (di_addrs di)[12 := of_nat (freeblock st)]\<rparr> else di)"
  define st1 where "st1 = (if nb = 12 then take_free st else st)"
  define ib where "ib = unat (di_addrs di1 ! 12)"
  let ?x = "freeblock st1"
  have V1: "fs_img st1 = ?V" "fs_len st1 = fs_len st" "freeinode st1 = freeinode st" "freeblock st \<le> ?x" "Suc ?x = freeblock st + need nb (Suc nb)"
    using False by (auto simp: st1_def take_free_def need_def)
  have fb: "unat (of_nat (freeblock st) :: uint) = freeblock st" using room by (simp add: unat_of_nat need_def)
  have ibr: "ib < ?x" "lo \<le> ib" "nb = 12 \<longrightarrow> ib = freeblock st" "nb \<noteq> 12 \<longrightarrow> ib \<in> owned ?V di nb"
    using False lo D(1,7,8) fb unfolding ib_def di1_def st1_def by (auto simp: take_free_def owned_def)
  have b1: "dblock ?V di1 bn = dblock ?V di bn" if "bn < nb" for bn
    using that False by (cases "nb = 12") (auto simp: di1_def dblock_eq)
  have old: "\<forall>bn<nb. lo \<le> unat (dblock ?V di1 bn) \<and> unat (dblock ?V di1 bn) < ?x \<and> dblock ?V di1 bn \<noteq> di_addrs di1 ! 12"
  proof (intro allI impI)
    fix bn
    assume bn: "bn < nb"
    have "dblock ?V di bn \<noteq> di_addrs di1 ! 12"
      using D(9) [OF _ bn] D(4) [OF bn] False ibr(3) unfolding ib_def by (cases "nb = 12") (auto simp: di1_def)
    then show "lo \<le> unat (dblock ?V di1 bn) \<and> unat (dblock ?V di1 bn) < ?x \<and> dblock ?V di1 bn \<noteq> di_addrs di1 ! 12"
      using D(3,4) [OF bn] V1(4) by (simp add: b1 [OF bn])
  qed
  have zero: "\<forall>bn. nb \<le> bn \<and> bn < 140 \<longrightarrow> dblock ?V di1 bn = 0"
  proof (intro allI impI)
    fix bn
    assume bn: "nb \<le> bn \<and> bn < 140"
    show "dblock ?V di1 bn = 0"
    proof (cases "nb = 12")
      case True
      then have "?V ib = (\<lambda>_. 0)" using fr ibr(3) by (simp add: fresh_def)
      then show ?thesis using bn True by (simp add: dblock_eq ib_def [symmetric] get32_def)
    qed (use bn False D(10) in \<open>simp add: di1_def\<close>)
  qed
  have x: "?x < 2 ^ 31" "?x < fs_len st" using V1(5) room by linarith+
  have l1: "length (di_addrs di1) = 13" and inj: "inj_on (dblock ?V di1) {..<nb}" using D(1,5) b1 by (auto simp: di1_def inj_on_def)
  define V' where "V' = ?V(ib := put32 (?V ib) (4 * (nb - 12)) (of_nat ?x))"
  note n = new_indirect [OF l1 _ nb ibr(1,2) [unfolded ib_def] old inj zero x(1), folded ib_def, folded V'_def]
  define st' where "st' = wsect ib (put32 (?V ib) (4 * (nb - 12)) (of_nat ?x)) (take_free st1)"
  have s': "fs_img st' = V'" "fs_len st' = fs_len st" "freeblock st' = Suc ?x" "freeinode st' = freeinode st"
    using ibr(1) x(2) V1 by (simp_all add: st'_def wsect_def take_free_def V'_def)
  have z: "get32 (?V ib) (4 * (nb - 12)) = 0" using zero nb False unfolding dblock_eq ib_def by simp
  have ne: "unat (dblock ?V di bn) \<noteq> ib" if "bn < nb" for bn using old b1 that by (simp add: ib_def word_unat_eq_iff)
  have a: "di_addrs di ! 12 = 0 \<longleftrightarrow> nb = 12"
  proof (cases "nb = 12")
    case False
    then have "ib \<noteq> 0" using ibr(2) lo(1) by simp
    then show ?thesis using False by (auto simp: ib_def di1_def)
  qed (use D(11) in simp)
  have "(if di_addrs di ! NDIRECT = 0 then (di\<lparr>di_addrs := (di_addrs di)[NDIRECT := of_nat (freeblock st)]\<rparr>, take_free st) else (di, st)) = (di1, st1)"
    using a by (simp add: layout di1_def st1_def)
  then have "iappend_block nb di st = Some (?x, di1, st')"
    using False z ibr(1) x(2) V1(1,2) unfolding iappend_block_def
    by (simp add: layout rsect_def ib_def [symmetric] st'_def Let_def)
  then show thesis
  proof (rule that)
    have fr': "fresh V' (Suc ?x)" using fr ibr(1) V1(4) by (auto simp: fresh_def V'_def)
    have "owned V' di1 (Suc nb) \<subseteq> owned ?V di nb \<union> {freeblock st..<Suc ?x}"
      using n(4) ibr V1(4) b1 False by (auto simp: owned_def)
    moreover have "\<forall>b<freeblock st. b \<notin> owned ?V di nb \<longrightarrow> V' b = ?V b" using ibr(3,4) by (auto simp: V'_def)
    ultimately show "extends lo di nb st di1 (Suc nb) st'" using n(1) False fr' V1(4) by (simp add: extends_def s')
    show "\<forall>bn<nb. dblock (fs_img st') di1 bn = dblock ?V di bn" "unat (dblock (fs_img st') di1 nb) = ?x"
      using n(2,3) b1 False by (simp_all add: s')
    show "fs_img st' ?x = (\<lambda>_. 0)" using fr ibr(1) V1(4) by (simp add: s' V'_def fresh_def)
    show "\<forall>bn<nb. fs_img st' (unat (dblock ?V di bn)) = ?V (unat (dblock ?V di bn))"
      using ne by (simp add: s' V'_def)
    show "freeblock st' = freeblock st + need nb (Suc nb)" "di_size di1 = di_size di" using s' V1(5) by (simp_all add: di1_def)
  qed
qed

section \<open>Appending\<close>

lemma extends_trans:
  assumes a: "extends lo di nb st di1 nb1 st1" and b: "extends lo di1 nb1 st1 di2 nb2 st2"
  shows "extends lo di nb st di2 nb2 st2"
proof -
  have o: "owned (fs_img st1) di1 nb1 \<subseteq> owned (fs_img st) di nb \<union> {freeblock st..<freeblock st1}"
    "owned (fs_img st2) di2 nb2 \<subseteq> owned (fs_img st1) di1 nb1 \<union> {freeblock st1..<freeblock st2}"
    "freeblock st \<le> freeblock st1" "freeblock st1 \<le> freeblock st2" using a b by (simp_all add: extends_def)
  have "owned (fs_img st2) di2 nb2 \<subseteq> owned (fs_img st) di nb \<union> {freeblock st..<freeblock st2}"
    using subset_trans [OF o(2) Un_mono [OF o(1) subset_refl]] o(3,4) by auto
  moreover have "fs_img st2 b = fs_img st b" if "b < freeblock st" "b \<notin> owned (fs_img st) di nb" for b
  proof -
    have "b \<notin> owned (fs_img st1) di1 nb1" using o(1) that by auto
    then show ?thesis using a b that o(3) by (simp add: extends_def)
  qed
  ultimately show ?thesis using a b by (simp add: extends_def)
qed

lemma store_block:
  assumes w: "wf_blocks V lo fb di nb" and f: "fbn < nb" and q: "at + length q \<le> 512"
  defines "x \<equiv> unat (dblock V di fbn)"
  defines "V' \<equiv> V(x := put_at (V x) at q)"
  shows "wf_blocks V' lo fb di nb" "owned V' di nb = owned V di nb"
    "\<forall>k<nb * 512. dbyte V' di k = (if fbn * 512 + at \<le> k \<and> k < fbn * 512 + at + length q then q ! (k - (fbn * 512 + at)) else dbyte V di k)"
proof -
  note D = wf_blocksD [OF w]
  have e: "dblock V' di bn = dblock V di bn" if "12 < nb \<or> bn < 12" for bn
  proof (cases "bn < 12")
    case False
    then have "x \<noteq> unat (di_addrs di ! 12)" using D(9) [of fbn] f that by (simp add: x_def word_unat_eq_iff)
    then show ?thesis using False by (simp add: dblock_eq V'_def)
  qed (simp add: dblock_eq)
  then have b: "dblock V' di bn = dblock V di bn" if "bn < nb" for bn using that by (cases "12 < nb") auto
  have i: "dblock V' di ` {..<nb} = dblock V di ` {..<nb}" using b by (intro image_cong) simp_all
  show "owned V' di nb = owned V di nb" by (simp add: owned_def i)
  have "inj_on (dblock V' di) {..<nb}" using D(5) b by (simp add: inj_on_def)
  then show "wf_blocks V' lo fb di nb" unfolding wf_blocks_def using D b e by auto
  show "\<forall>k<nb * 512. dbyte V' di k = (if fbn * 512 + at \<le> k \<and> k < fbn * 512 + at + length q then q ! (k - (fbn * 512 + at)) else dbyte V di k)"
  proof (intro allI impI)
    fix k :: nat
    assume "k < nb * 512"
    then have kb: "k div 512 < nb" by (simp add: less_mult_imp_div_less)
    have x: "unat (dblock V di (k div 512)) = x \<longleftrightarrow> k div 512 = fbn"
      using D(5) f kb by (auto simp: x_def word_unat_eq_iff [symmetric] inj_on_def)
    have k: "k = (k div 512) * 512 + k mod 512" by simp
    have d: "dbyte V' di k = V' (unat (dblock V di (k div 512))) (k mod 512)" by (simp add: dbyte_eq b [OF kb])
    show "dbyte V' di k = (if fbn * 512 + at \<le> k \<and> k < fbn * 512 + at + length q then q ! (k - (fbn * 512 + at)) else dbyte V di k)"
    proof (cases "k div 512 = fbn")
      case True
      then have kk: "k = fbn * 512 + k mod 512" using k(1) by simp
      have "dbyte V' di k = put_at (V x) at q (k mod 512)" using True x d by (simp add: V'_def)
      moreover have "dbyte V di k = V x (k mod 512)" using True x by (simp add: dbyte_eq)
      ultimately show ?thesis by (subst (2 3 4) kk) (simp add: put_at_def)
    next
      case False
      then have "\<not> (fbn * 512 + at \<le> k \<and> k < fbn * 512 + at + length q)" using q by (auto simp: div_nat_eqI)
      moreover have "dbyte V' di k = dbyte V di k" using False x d by (simp add: V'_def dbyte_eq)
      ultimately show ?thesis by (simp only: if_False)
    qed
  qed
qed

text \<open>The number of blocks of \<open>e\<close> bytes.\<close>

definition blocks :: "nat \<Rightarrow> nat" where
  "blocks e = (e + 511) div 512"

lemma blocks_step:
  assumes "0 < n" and "off div 512 * 512 < off + n" and "off + n \<le> (off div 512 + 1) * 512"
  shows "blocks (off + n) = Suc (off div 512)"
  using assms by (simp add: blocks_def div_nat_eqI)

lemma blocks_cases: "blocks off = off div 512 \<or> blocks off = Suc (off div 512)"
proof -
  have "off + 511 = (off mod 512 + 511) + off div 512 * 512" by simp
  then have b: "blocks off = off div 512 + (off mod 512 + 511) div 512" unfolding blocks_def by (metis div_mult_self1 zero_neq_numeral)
  have "(off mod 512 + 511) div 512 < 2" by (simp add: div_less_iff_less_mult)
  then show ?thesis using b by linarith
qed

lemma blocks_mono: "e \<le> e' \<Longrightarrow> blocks e \<le> blocks e'"
  by (simp add: blocks_def div_le_mono)

lemma need_trans: "nb \<le> nb1 \<Longrightarrow> nb1 \<le> nb2 \<Longrightarrow> need nb nb2 = need nb nb1 + need nb1 nb2"
  by (auto simp: need_def)

lemma block_less: "k < off \<Longrightarrow> k div 512 < blocks off"
  by (simp add: blocks_def)

text \<open>The block for offset \<open>off\<close>, there or new.\<close>

lemma iappend_block_spec:
  assumes w: "wf_blocks (fs_img st) lo (freeblock st) di (blocks off)" and off: "off div 512 < 140" and fr: "fresh (fs_img st) (freeblock st)"
    and room: "freeblock st + need (blocks off) (Suc (off div 512)) \<le> fs_len st" "fs_len st < 2 ^ 31" and lo: "0 < lo" "lo \<le> freeblock st"
  obtains di' st' where "iappend_block (off div 512) di st = Some (unat (dblock (fs_img st') di' (off div 512)), di', st')"
    "extends lo di (blocks off) st di' (Suc (off div 512)) st'" "\<forall>k<off. dbyte (fs_img st') di' k = dbyte (fs_img st) di k"
    "freeblock st' = freeblock st + need (blocks off) (Suc (off div 512))"
proof (cases "off div 512 < blocks off")
  case True
  then have b: "blocks off = Suc (off div 512)" using blocks_cases [of off] by simp
  have "extends lo di (blocks off) st di (Suc (off div 512)) st" using w fr by (simp add: extends_def b)
  then show thesis
    using iappend_block_old [OF w True lo(1)] room(1) by (intro that [of st di]) (simp_all add: b need_def)
next
  case False
  then have b: "blocks off = off div 512" using blocks_cases [of off] by simp
  obtain x di' st' where n: "iappend_block (blocks off) di st = Some (x, di', st')" "extends lo di (blocks off) st di' (Suc (blocks off)) st'"
    "\<forall>bn<blocks off. dblock (fs_img st') di' bn = dblock (fs_img st) di bn" "unat (dblock (fs_img st') di' (blocks off)) = x"
    "\<forall>bn<blocks off. fs_img st' (unat (dblock (fs_img st) di bn)) = fs_img st (unat (dblock (fs_img st) di bn))"
    "freeblock st' = freeblock st + need (blocks off) (Suc (blocks off))"
    by (rule iappend_block_new [OF w _ fr _ room(2) lo]) (use off room(1) b in auto)
  have "dbyte (fs_img st') di' k = dbyte (fs_img st) di k" if "k < off" for k
    using n(3,5) block_less [OF that] by (simp add: dbyte_eq)
  then show thesis using n by (intro that [of st' di']) (simp_all add: b)
qed

lemma iappend_turn:
  assumes w: "wf_blocks (fs_img st) lo (freeblock st) di (blocks off)" and max: "off + length p \<le> 140 * 512" and fr: "fresh (fs_img st) (freeblock st)"
    and room: "freeblock st + need (blocks off) (blocks (off + length p)) \<le> fs_len st" "fs_len st < 2 ^ 31"
    and lo: "0 < lo" "lo \<le> freeblock st" and p: "p \<noteq> []"
  obtains n1 di1 st2 where "0 < n1" "n1 \<le> length p" "iappend_loop p off di st = iappend_loop (drop n1 p) (off + n1) di1 st2"
    "extends lo di (blocks off) st di1 (blocks (off + n1)) st2" "freeblock st2 = freeblock st + need (blocks off) (blocks (off + n1))"
    "\<forall>k<off + n1. dbyte (fs_img st2) di1 k = (if k < off then dbyte (fs_img st) di k else p ! (k - off))"
proof -
  define fbn where "fbn = off div 512"
  define n1 where "n1 = min (length p) ((fbn + 1) * 512 - off)"
  have "fbn * 512 \<le> off" "off < (fbn + 1) * 512" using dividend_less_div_times [of 512 off] by (simp_all add: fbn_def)
  moreover have "0 < length p" using p by simp
  ultimately have o: "fbn * 512 + (off - fbn * 512) = off" "off - fbn * 512 + n1 \<le> 512" "0 < n1" "n1 \<le> length p" "off + n1 \<le> (fbn + 1) * 512"
    by (auto simp: n1_def min_def)
  have f: "fbn < 140" unfolding fbn_def using max p by (intro less_mult_imp_div_less) (cases p; simp)
  have bn: "blocks (off + n1) = Suc fbn" using blocks_step [of n1 off] o by (simp add: fbn_def)
  have bm: "blocks off \<le> Suc fbn" "Suc fbn \<le> blocks (off + length p)"
    using blocks_mono [of off "off + n1"] blocks_mono [of "off + n1" "off + length p"] o(4) bn by simp_all
  have rm: "freeblock st + need (blocks off) (Suc fbn) \<le> fs_len st" using room(1) need_trans [OF bm] by simp
  obtain di1 st1 where b: "iappend_block fbn di st = Some (unat (dblock (fs_img st1) di1 fbn), di1, st1)"
    "extends lo di (blocks off) st di1 (Suc fbn) st1" "\<forall>k<off. dbyte (fs_img st1) di1 k = dbyte (fs_img st) di k"
    "freeblock st1 = freeblock st + need (blocks off) (Suc fbn)"
    unfolding fbn_def by (rule iappend_block_spec [OF w f [unfolded fbn_def] fr rm [unfolded fbn_def] room(2) lo])
  let ?x = "unat (dblock (fs_img st1) di1 fbn)" and ?at = "off - fbn * 512" and ?q = "take n1 p"
  have w1: "wf_blocks (fs_img st1) lo (freeblock st1) di1 (Suc fbn)" and fr1: "fresh (fs_img st1) (freeblock st1)"
    and l1: "fs_len st1 = fs_len st" using b(2) by (simp_all add: extends_def)
  have x: "?x < freeblock st1" "freeblock st1 \<le> fs_len st" using wf_blocksD(4) [OF w1] b(4) rm by simp_all
  define st2 where "st2 = wsect ?x (put_at (fs_img st1 ?x) ?at ?q) st1"
  have s2: "fs_img st2 = (fs_img st1)(?x := put_at (fs_img st1 ?x) ?at ?q)" "fs_len st2 = fs_len st" "freeblock st2 = freeblock st1" "freeinode st2 = freeinode st1"
    using x l1 by (simp_all add: st2_def wsect_def)
  have q: "?at + length ?q \<le> 512" "length ?q = n1" using o by simp_all
  note wb = store_block [OF w1 _ q(1), of fbn, folded s2(1)]
  have "?x \<in> owned (fs_img st1) di1 (Suc fbn)" by (auto simp: owned_def)
  then have e12: "extends lo di1 (Suc fbn) st1 di1 (Suc fbn) st2"
    using wb(1,2) fr1 x l1 s2 unfolding extends_def by (auto simp: fresh_def)
  have d: "dbyte (fs_img st2) di1 k = (if k < off then dbyte (fs_img st) di k else p ! (k - off))" if "k < off + n1" for k
    using wb(3) b(3) that o q(2) by (auto simp: less_diff_conv2)
  show thesis
  proof (rule that [OF o(3,4)])
    show "iappend_loop p off di st = iappend_loop (drop n1 p) (off + n1) di1 st2"
      using p f b(1) x l1 by (subst iappend_loop.simps) (simp add: fbn_def [symmetric] layout rsect_def n1_def st2_def Let_def)
  qed (use extends_trans [OF b(2) e12] b(4) d s2 bn in simp_all)
qed

lemma iappend_loop_spec:
  assumes "wf_blocks (fs_img st) lo (freeblock st) di (blocks off)" and "off + length p \<le> 140 * 512" and "fresh (fs_img st) (freeblock st)"
    and "freeblock st + need (blocks off) (blocks (off + length p)) \<le> fs_len st" "fs_len st < 2 ^ 31" and "0 < lo" "lo \<le> freeblock st"
  shows "\<exists>di' st'. iappend_loop p off di st = Some (off + length p, di', st') \<and>
    extends lo di (blocks off) st di' (blocks (off + length p)) st' \<and>
    freeblock st' = freeblock st + need (blocks off) (blocks (off + length p)) \<and>
    (\<forall>k<off + length p. dbyte (fs_img st') di' k = (if k < off then dbyte (fs_img st) di k else p ! (k - off)))"
  using assms
proof (induction "length p" arbitrary: p off di st rule: less_induct)
  case less
  show ?case
  proof (cases "p = []")
    case True
    then show ?thesis using less.prems by (subst iappend_loop.simps) (simp add: extends_def need_def)
  next
    case False
    obtain n1 di1 st1 where t: "0 < n1" "n1 \<le> length p" "iappend_loop p off di st = iappend_loop (drop n1 p) (off + n1) di1 st1"
      "extends lo di (blocks off) st di1 (blocks (off + n1)) st1" "freeblock st1 = freeblock st + need (blocks off) (blocks (off + n1))"
      "\<forall>k<off + n1. dbyte (fs_img st1) di1 k = (if k < off then dbyte (fs_img st) di k else p ! (k - off))"
      by (rule iappend_turn [OF less.prems False])
    have e: "off + n1 + length (drop n1 p) = off + length p" using t(2) by simp
    have n: "need (blocks off) (blocks (off + length p)) = need (blocks off) (blocks (off + n1)) + need (blocks (off + n1)) (blocks (off + length p))"
      using t(2) by (intro need_trans blocks_mono) simp_all
    then obtain di' st' where r: "iappend_loop (drop n1 p) (off + n1) di1 st1 = Some (off + length p, di', st')"
        "extends lo di1 (blocks (off + n1)) st1 di' (blocks (off + length p)) st'"
        "freeblock st' = freeblock st1 + need (blocks (off + n1)) (blocks (off + length p))"
        "\<forall>k<off + length p. dbyte (fs_img st') di' k = (if k < off + n1 then dbyte (fs_img st1) di1 k else drop n1 p ! (k - (off + n1)))"
      using less.hyps [of "drop n1 p" st1 di1 "off + n1"] t less.prems False unfolding e by (auto simp: extends_def)
    have "dbyte (fs_img st') di' k = (if k < off then dbyte (fs_img st) di k else p ! (k - off))" if "k < off + length p" for k
      using r(4) t(2,6) that by (auto simp: add.assoc)
    then show ?thesis using r(1,3) t(3,5) n extends_trans [OF t(4) r(2)] by auto
  qed
qed

section \<open>Files in the image\<close>

text \<open>The file \<open>inum\<close> of the image: its inode lies below \<open>lo\<close>, its blocks from \<open>lo\<close> on.\<close>

definition file_ready :: "nat \<Rightarrow> nat \<Rightarrow> dinode \<Rightarrow> mkfs \<Rightarrow> bool" where
  "file_ready lo inum di st \<longleftrightarrow> 0 < lo \<and> lo \<le> freeblock st \<and> freeblock st \<le> fs_len st \<and> fs_len st < 2 ^ 31 \<and> i2b inum < lo \<and>
     rinode inum st = Some di \<and> wf_blocks (fs_img st) lo (freeblock st) di (blocks (unat (di_size di))) \<and> fresh (fs_img st) (freeblock st)"

text \<open>A step that changes only the file \<open>inum\<close>.\<close>

definition grows :: "nat \<Rightarrow> nat \<Rightarrow> dinode \<Rightarrow> mkfs \<Rightarrow> dinode \<Rightarrow> mkfs \<Rightarrow> bool" where
  "grows lo inum di st di' st' \<longleftrightarrow> file_ready lo inum di' st' \<and> fs_len st' = fs_len st \<and> freeblock st \<le> freeblock st' \<and>
     (\<forall>j. j \<noteq> inum \<and> i2b j < lo \<longrightarrow> rinode j st' = rinode j st) \<and>
     (\<forall>b. lo \<le> b \<and> b < freeblock st \<and> b \<notin> owned (fs_img st) di (blocks (unat (di_size di))) \<longrightarrow> fs_img st' b = fs_img st b) \<and>
     owned (fs_img st') di' (blocks (unat (di_size di'))) \<subseteq> owned (fs_img st) di (blocks (unat (di_size di))) \<union> {freeblock st..<freeblock st'}"

lemma grows_refl: "file_ready lo inum di st \<Longrightarrow> grows lo inum di st di st"
  by (simp add: grows_def)

lemma grows_trans:
  assumes a: "grows lo inum di st di1 st1" and b: "grows lo inum di1 st1 di2 st2"
  shows "grows lo inum di st di2 st2"
proof -
  let ?O = "owned (fs_img st) di (blocks (unat (di_size di)))" and ?P = "owned (fs_img st1) di1 (blocks (unat (di_size di1)))"
  have o: "?P \<subseteq> ?O \<union> {freeblock st..<freeblock st1}"
    "owned (fs_img st2) di2 (blocks (unat (di_size di2))) \<subseteq> ?P \<union> {freeblock st1..<freeblock st2}"
    "freeblock st \<le> freeblock st1" "freeblock st1 \<le> freeblock st2" using a b by (simp_all add: grows_def)
  have "owned (fs_img st2) di2 (blocks (unat (di_size di2))) \<subseteq> ?O \<union> {freeblock st..<freeblock st2}"
    using subset_trans [OF o(2) Un_mono [OF o(1) subset_refl]] o(3,4) by auto
  moreover have "fs_img st2 b = fs_img st b" if "lo \<le> b" "b < freeblock st" "b \<notin> ?O" for b
  proof -
    have "b \<notin> ?P" using o(1) that by auto
    then show ?thesis using a b that o(3) by (simp add: grows_def)
  qed
  ultimately show ?thesis using a b by (simp add: grows_def)
qed

lemma wf_blocks_cong:
  assumes "wf_blocks V lo fb di nb" and "\<And>b. lo \<le> b \<Longrightarrow> V' b = V b" and "di_addrs di' = di_addrs di"
  shows "wf_blocks V' lo fb di' nb" and "owned V' di' nb = owned V di nb" and "k < nb * 512 \<Longrightarrow> dbyte V' di' k = dbyte V di k"
proof -
  note D = wf_blocksD [OF assms(1)]
  have e: "dblock V' di' bn = dblock V di bn" if "12 < nb \<or> bn < 12" for bn using that D(7) assms(2,3) by (auto simp: dblock_eq)
  then have b: "dblock V' di' bn = dblock V di bn" if "bn < nb" for bn using that by (cases "12 < nb") auto
  have "inj_on (dblock V' di') {..<nb}" using D(5) b by (simp add: inj_on_def)
  then show "wf_blocks V' lo fb di' nb" unfolding wf_blocks_def using D b e assms(3) by auto
  have "dblock V' di' ` {..<nb} = dblock V di ` {..<nb}" using b by (intro image_cong) simp_all
  then show "owned V' di' nb = owned V di nb" by (simp add: owned_def assms(3))
  assume "k < nb * 512"
  then have "k div 512 < nb" by (simp add: less_mult_imp_div_less)
  then show "dbyte V' di' k = dbyte V di k" using b D(3) assms(2) by (simp add: dbyte_eq)
qed

lemma rinode_winode:
  assumes "winode inum di st = Some st'" and "length (di_addrs di) = 13"
  shows "rinode inum st' = Some di" "j \<noteq> inum \<Longrightarrow> rinode j st' = rinode j st"
proof -
  let ?b = "put_dinode (fs_img st (i2b inum)) (64 * (inum mod 8)) di"
  have s: "i2b inum < fs_len st" "st' = wsect (i2b inum) ?b st"
    using assms(1) by (auto simp: winode_def rsect_def layout Let_def split: if_splits)
  have l: "length (di_addrs di) = NDIRECT + 1" using assms(2) by (simp add: layout)
  show "rinode inum st' = Some di" using s get_put_dinode [OF l] by (simp add: rinode_def rsect_def wsect_def layout)
  assume j: "j \<noteq> inum"
  show "rinode j st' = rinode j st"
  proof (cases "i2b j = i2b inum")
    case True
    then have "j mod 8 \<noteq> inum mod 8" using j div_mult_mod_eq [of j 8] div_mult_mod_eq [of inum 8] by (auto simp: i2b_def layout)
    then have "64 * (j mod 8) + 64 \<le> 64 * (inum mod 8) \<or> 64 * (inum mod 8) + 64 \<le> 64 * (j mod 8)" by linarith
    then show ?thesis using True s get_put_dinode_other [OF l] by (simp add: rinode_def rsect_def wsect_def layout)
  qed (use s in \<open>auto simp: rinode_def rsect_def wsect_def\<close>)
qed

lemma file_bytes_size: "i_size (disk_inode di) = di_size di"
  by (simp add: disk_inode_def from_dinode_def)

lemma iappend_spec:
  assumes r: "file_ready lo inum di st" and max: "unat (di_size di) + length p \<le> 140 * 512"
    and room: "freeblock st + need (blocks (unat (di_size di))) (blocks (unat (di_size di) + length p)) \<le> fs_len st"
  shows "\<exists>di' st'. iappend inum p st = Some st' \<and> grows lo inum di st di' st' \<and> unat (di_size di') = unat (di_size di) + length p \<and>
    file_bytes (fs_img st') (disk_inode di') = file_bytes (fs_img st) (disk_inode di) @ p \<and>
    freeblock st' = freeblock st + need (blocks (unat (di_size di))) (blocks (unat (di_size di) + length p))"
proof -
  let ?off = "unat (di_size di)" and ?e = "unat (di_size di) + length p"
  have R: "0 < lo" "lo \<le> freeblock st" "fs_len st < 2 ^ 31" "i2b inum < lo" "rinode inum st = Some di"
    "wf_blocks (fs_img st) lo (freeblock st) di (blocks ?off)" "fresh (fs_img st) (freeblock st)" using r by (simp_all add: file_ready_def)
  obtain di1 st1 where l: "iappend_loop p ?off di st = Some (?e, di1, st1)" "extends lo di (blocks ?off) st di1 (blocks ?e) st1"
    "freeblock st1 = freeblock st + need (blocks ?off) (blocks ?e)"
    "\<forall>k<?e. dbyte (fs_img st1) di1 k = (if k < ?off then dbyte (fs_img st) di k else p ! (k - ?off))"
    using iappend_loop_spec [OF R(6) max R(7) room R(3,1,2)] by blast
  define di2 where "di2 = di1\<lparr>di_size := of_nat ?e\<rparr>"
  have "unat (of_nat n :: uint) = n" if "n \<le> 140 * 512" for n using that by (simp add: unat_of_nat)
  from this [OF max] have e: "unat (di_size di2) = ?e" unfolding di2_def by (simp del: of_nat_add)
  have E: "wf_blocks (fs_img st1) lo (freeblock st1) di1 (blocks ?e)" "fresh (fs_img st1) (freeblock st1)" "fs_len st1 = fs_len st"
    "freeblock st \<le> freeblock st1" "\<forall>b<freeblock st. b \<notin> owned (fs_img st) di (blocks ?off) \<longrightarrow> fs_img st1 b = fs_img st b"
    "owned (fs_img st1) di1 (blocks ?e) \<subseteq> owned (fs_img st) di (blocks ?off) \<union> {freeblock st..<freeblock st1}"
    using l(2) by (simp_all add: extends_def)
  have low: "fs_img st1 b = fs_img st b" if "b < lo" for b
  proof -
    have "b \<notin> owned (fs_img st) di (blocks ?off)" using owned_range [OF R(6), of b] that by auto
    then show ?thesis using E(5) that R(2) by simp
  qed
  have len: "length (di_addrs di2) = 13" using wf_blocksD(1) [OF E(1)] by (simp add: di2_def)
  have sec: "i2b inum < fs_len st1" using R(2,4) room E(3) by simp
  then obtain st2 where w: "winode inum di2 st1 = Some st2" by (simp add: winode_def rsect_def Let_def)
  have s2: "fs_len st2 = fs_len st" "freeblock st2 = freeblock st1" "\<And>b. b \<noteq> i2b inum \<Longrightarrow> fs_img st2 b = fs_img st1 b"
    using w sec E(3) by (auto simp: winode_def rsect_def wsect_def Let_def split: if_splits)
  have hi: "fs_img st2 b = fs_img st1 b" if "lo \<le> b" for b using s2(3) that R(4) by auto
  have da: "di_addrs di2 = di_addrs di1" by (simp add: di2_def)
  note c = wf_blocks_cong [OF E(1) hi da]
  have "file_ready lo inum di2 st2"
    using R E(2-4) s2 c(1) e rinode_winode(1) [OF w len] hi room l(3) by (auto simp: file_ready_def fresh_def)
  moreover have "rinode j st2 = rinode j st" if "j \<noteq> inum" "i2b j < lo" for j
    using rinode_winode(2) [OF w len that(1)] low [OF that(2)] E(3) by (simp add: rinode_def rsect_def)
  ultimately have g: "grows lo inum di st di2 st2" using E(4-6) s2(1,2) hi c(2) e by (simp add: grows_def)
  have "dbyte (fs_img st2) di2 k = (if k < ?off then dbyte (fs_img st) di k else p ! (k - ?off))" if "k < ?e" for k
    using l(4) c(3) [of k] that block_less [OF that] by (simp add: div_less_iff_less_mult)
  then have "file_bytes (fs_img st2) (disk_inode di2) = file_bytes (fs_img st) (disk_inode di) @ p"
    by (intro nth_equalityI) (auto simp: file_bytes_size e dbyte_def file_bytes_def nth_append)
  then show ?thesis using l(1,3) R(5) w g e s2(2) by (auto simp: iappend_def di2_def)
qed

lemma append_file_spec:
  assumes "file_ready lo inum di st" and "unat (di_size di) + length data \<le> 140 * 512"
    and "freeblock st + need (blocks (unat (di_size di))) (blocks (unat (di_size di) + length data)) \<le> fs_len st"
  shows "\<exists>di' st'. append_file inum data st = Some st' \<and> grows lo inum di st di' st' \<and>
    file_bytes (fs_img st') (disk_inode di') = file_bytes (fs_img st) (disk_inode di) @ data"
  using assms
proof (induction "length data" arbitrary: data di st rule: less_induct)
  case less
  show ?case
  proof (cases "data = []")
    case True
    then show ?thesis using grows_refl [OF less.prems(1)] by (subst append_file.simps) auto
  next
    case False
    let ?p = "take 512 data" and ?s = "unat (di_size di)"
    have e: "?s + length ?p + length (drop 512 data) = ?s + length data" by simp
    have n: "need (blocks ?s) (blocks (?s + length data)) = need (blocks ?s) (blocks (?s + length ?p)) + need (blocks (?s + length ?p)) (blocks (?s + length data))"
      by (intro need_trans blocks_mono) simp_all
    have m: "?s + length ?p \<le> 140 * 512" "freeblock st + need (blocks ?s) (blocks (?s + length ?p)) \<le> fs_len st"
      using less.prems(2,3) n by simp_all
    obtain di1 st1 where a: "iappend inum ?p st = Some st1" "grows lo inum di st di1 st1" "unat (di_size di1) = ?s + length ?p"
      "file_bytes (fs_img st1) (disk_inode di1) = file_bytes (fs_img st) (disk_inode di) @ ?p"
      "freeblock st1 = freeblock st + need (blocks ?s) (blocks (?s + length ?p))"
      using iappend_spec [OF less.prems(1) m] by blast
    have r: "file_ready lo inum di1 st1" "fs_len st1 = fs_len st" using a(2) by (simp_all add: grows_def)
    have "unat (di_size di1) + length (drop 512 data) \<le> 140 * 512"
      "freeblock st1 + need (blocks (unat (di_size di1))) (blocks (unat (di_size di1) + length (drop 512 data))) \<le> fs_len st1"
      using less.prems(2,3) n a(5) unfolding a(3) e r(2) by simp_all
    moreover have "length (drop 512 data) < length data" using False by simp
    ultimately obtain di2 st2 where b: "append_file inum (drop 512 data) st1 = Some st2" "grows lo inum di1 st1 di2 st2"
      "file_bytes (fs_img st2) (disk_inode di2) = file_bytes (fs_img st1) (disk_inode di1) @ drop 512 data"
      using less.hyps [OF _ r(1)] by blast
    have "append_file inum data st = Some st2" using False a(1) b(1) by (subst append_file.simps) simp
    then show ?thesis using grows_trans [OF a(2) b(2)] b(3) a(4) by (auto simp: append_assoc)
  qed
qed

text \<open>C12. \<open>mkfs\<close> stores a file so that the kernel finds it: when the blocks it needs are left in the image, the loop
  that copies a file of at most \<open>MAXFILE\<close> blocks returns, the inode in the image has, read the way the kernel
  reads it, the old contents followed by the data, and neither other inodes nor blocks of other files
  have changed.\<close>

theorem mkfs_stores_file:
  assumes "file_ready lo inum di st" and "unat (di_size di) + length data \<le> MAXFILE * BSIZE"
    and "freeblock st + need (blocks (unat (di_size di))) (blocks (unat (di_size di) + length data)) \<le> fs_len st"
  shows "\<exists>di' st'. append_file inum data st = Some st' \<and> rinode inum st' = Some di' \<and>
    file_bytes (fs_img st') (disk_inode di') = file_bytes (fs_img st) (disk_inode di) @ data \<and>
    (\<forall>j. j \<noteq> inum \<and> i2b j < lo \<longrightarrow> rinode j st' = rinode j st) \<and>
    (\<forall>b. lo \<le> b \<and> b < freeblock st \<and> b \<notin> owned (fs_img st) di (blocks (unat (di_size di))) \<longrightarrow> fs_img st' b = fs_img st b)"
proof -
  have "unat (di_size di) + length data \<le> 140 * 512" using assms(2) by (simp add: layout BSIZE_def)
  from append_file_spec [OF assms(1) this assms(3)] show ?thesis by (fastforce simp: grows_def file_ready_def)
qed

text \<open>The image when \<open>main\<close> has zeroed it.\<close>

definition empty_image :: mkfs where
  "empty_image = \<lparr>fs_img = (\<lambda>_ _. 0), fs_len = 2009, freeblock = 29, usedblocks = 29, freeinode = 1\<rparr>"

theorem mkfs_stores_file_witness:
  "\<exists>di' st'. append_file 1 (str ''hello'') empty_image = Some st' \<and> rinode 1 st' = Some di' \<and>
     file_bytes (fs_img st') (disk_inode di') = str ''hello''"
proof -
  let ?di = "get_dinode (\<lambda>_. 0) 64"
  have a: "di_addrs ?di = replicate 13 0" "di_size ?di = 0"
    by (simp_all add: get_dinode_def layout get32_def map_replicate_const)
  have z: "di_addrs ?di ! bn = 0" if "bn < 13" for bn using that by (simp add: a)
  have "file_ready 29 1 ?di empty_image"
    using z by (auto simp: file_ready_def empty_image_def i2b_def layout rinode_def rsect_def wf_blocks_def blocks_def fresh_def a)
  from mkfs_stores_file [OF this, of "str ''hello''"] show ?thesis
    by (auto simp: a empty_image_def blocks_def need_def layout BSIZE_def file_bytes_def file_bytes_size str_def)
qed

end
