(* ===== verification/Date.thy ===== *)
theory Date
  imports Rtc
begin

text \<open>
  The conversion of seconds to a date in the C library (userspace/libc/time.c). The variables of
  \<open>calcDate\<close> are unsigned and never wrap around, because each subtraction follows a test.
\<close>

section \<open>Operations\<close>

record utm = tm +
  tm_wday :: int
  tm_yday :: int

definition leapYear :: "nat \<Rightarrow> bool" where
  "leapYear year \<longleftrightarrow> year mod 4 = 0 \<and> (year mod 100 \<noteq> 0 \<or> year mod 400 = 0)"

text \<open>The rounds of the \<open>while(1)\<close> that count a year: the days left, the year and the weekday of its
  first day.\<close>

function year_loop :: "nat \<Rightarrow> nat \<Rightarrow> nat \<Rightarrow> nat \<times> nat \<times> nat" where
  "year_loop days year dayOfWeek =
     (let daysInYear = (if leapYear year then 366 else 365) in
      if days \<ge> daysInYear
      then
        let dow = dayOfWeek + (if leapYear year then 2 else 1);
            dow = (if dow \<ge> 7 then dow - 7 else dow)
        in year_loop (days - daysInYear) (year + 1) dow
      else (days, year, dayOfWeek))"
  by auto

termination
  by (relation "measure fst") auto

declare year_loop.simps [simp del]

definition daysInMonth :: "nat list" where
  "daysInMonth = [31, 28, 31, 30, 31, 30, 31, 31, 30, 31, 30, 31]"

text \<open>The \<open>for\<close> over the months; the list holds the months to go.\<close>

primrec month_loop :: "bool \<Rightarrow> nat list \<Rightarrow> nat \<Rightarrow> nat \<times> nat" where
  "month_loop ly [] days = (12, days)"
| "month_loop ly (month # months) days =
     (let dim = daysInMonth ! month + (if month = 1 \<and> ly then 1 else 0) in
      if days \<ge> dim then month_loop ly months (days - dim) else (month, days))"

definition calcDate :: "uint \<Rightarrow> utm" where
  "calcDate time =
     (let seconds = unat time;
          minutes = seconds div 60;
          seconds = seconds - minutes * 60;
          hours = minutes div 60;
          minutes = minutes - hours * 60;
          days = hours div 24;
          hours = hours - days * 24;
          (days, year, dayOfWeek) = year_loop days 1970 4;
          yday = days;
          dayOfWeek = (dayOfWeek + days) mod 7;
          (month, days) = month_loop (leapYear year) [0..<12] days
      in \<lparr>tm_sec = int seconds, tm_min = int minutes, tm_hour = int hours, tm_mday = int days + 1,
          tm_mon = int month, tm_year = int year, tm_wday = int dayOfWeek, tm_yday = int yday\<rparr>)"

section \<open>Correctness\<close>

text \<open>Days are counted from the first of January of a year.\<close>

definition day0 :: "nat \<Rightarrow> int" where
  "day0 year = mktime (tm_day (int year, 1, 1))"

definition year_days :: "nat \<Rightarrow> nat" where
  "year_days year = (if leapYear year then 366 else 365)"

lemma leapYear_leap: "leapYear year = leap (int year)"
proof -
  have "int year mod k = int (year mod nat k)" if "0 < k" for k using that by (simp add: zmod_int)
  then show ?thesis by (simp add: leapYear_def leap_def dvd_eq_mod_eq_0)
qed

lemma day0_Suc: "day0 (Suc year) = day0 year + 86400 * int (year_days year)"
  using leap_count [of "int year"] by (simp add: day0_def mktime_early year_days_def leapYear_leap)

text \<open>A year moves the weekday by its days beyond 52 weeks.\<close>

lemma weekday_year:
  fixes w k days :: nat
  assumes "364 + k \<le> days"
  shows "((if w + k \<ge> 7 then w + k - 7 else w + k) + (days - (364 + k))) mod 7 = (w + days) mod 7"
proof -
  obtain r where r: "days = 364 + k + r" using assms le_Suc_ex by blast
  have "(w + days) mod 7 = (w + k + r + 7 * 52) mod 7" by (simp add: r algebra_simps)
  also have "\<dots> = (w + k + r) mod 7" by (rule mod_mult_self2)
  also have "\<dots> = ((if w + k \<ge> 7 then w + k - 7 else w + k) + r) mod 7"
    by (simp add: le_mod_geq)
  finally show ?thesis by (simp add: r)
qed

lemma year_loop_spec:
  assumes "year_loop days year w = (d, y, w')"
  shows "d < year_days y \<and> day0 year + 86400 * int days = day0 y + 86400 * int d \<and> year \<le> y \<and>
    (w < 7 \<longrightarrow> w' < 7 \<and> (w + days) mod 7 = (w' + d) mod 7)"
  using assms
proof (induction days year w rule: year_loop.induct)
  case (1 days year w)
  let ?w = "w + (if leapYear year then 2 else 1)"
  show ?case
  proof (cases "days \<ge> year_days year")
    case True
    have rec: "year_loop (days - year_days year) (year + 1) (if ?w \<ge> 7 then ?w - 7 else ?w) = (d, y, w')"
      using 1(2) True by (subst (asm) year_loop.simps) (simp add: Let_def year_days_def)
    note IH = 1(1) [OF refl, folded year_days_def, OF True refl refl rec]
    have yd: "year_days year = 364 + (if leapYear year then 2 else 1)" by (simp add: year_days_def)
    have "((if ?w \<ge> 7 then ?w - 7 else ?w) + (days - year_days year)) mod 7 = (w + days) mod 7"
      unfolding yd by (rule weekday_year) (use True yd in simp)
    moreover have "w < 7 \<Longrightarrow> (if ?w \<ge> 7 then ?w - 7 else ?w) < 7" by auto
    moreover have "day0 (Suc year) + 86400 * int (days - year_days year) = day0 year + 86400 * int days"
      using True by (simp add: day0_Suc of_nat_diff algebra_simps)
    ultimately show ?thesis using IH by (simp only: Suc_eq_plus1 [symmetric]) (meson Suc_leD)
  next
    case False
    then show ?thesis using 1(2) by (subst (asm) year_loop.simps) (auto simp: Let_def year_days_def)
  qed
qed

text \<open>The days from the first of January to the first of a month.\<close>

definition month_len :: "bool \<Rightarrow> nat \<Rightarrow> nat" where
  "month_len ly month = daysInMonth ! month + (if month = 1 \<and> ly then 1 else 0)"

lemma month_len_days: "month < 12 \<Longrightarrow> int (month_len (leapYear y) month) = month_days (int y) (int month + 1)"
proof -
  assume "month < 12"
  then have "month \<in> set [0..<12]" by simp
  then show ?thesis by (auto simp: upt_rec month_len_def daysInMonth_def month_days_def leapYear_leap)
qed

lemma month_loop_spec:
  assumes "month_loop (leapYear y) [m..<12] days = (mon, d)" and "m \<le> 12"
    and "days < sum_list (map (month_len (leapYear y)) [m..<12])"
  shows "mon < 12 \<and> d < month_len (leapYear y) mon \<and>
    mktime (tm_day (int y, int m + 1, 1)) + 86400 * int days =
      mktime (tm_day (int y, int mon + 1, 1)) + 86400 * int d"
  using assms
proof (induction "12 - m" arbitrary: m days)
  case (Suc n)
  then have m: "m < 12" "[m..<12] = m # [Suc m..<12]" by (simp_all add: upt_conv_Cons)
  let ?l = "month_len (leapYear y) m"
  show ?case
  proof (cases "days \<ge> ?l")
    case False
    then show ?thesis using Suc.prems m by (auto simp: month_len_def Let_def)
  next
    case True
    have s: "Suc m < 12"
    proof (rule ccontr)
      assume "\<not> Suc m < 12"
      then show False using Suc.prems(3) True m by simp
    qed
    have IH: "mon < 12 \<and> d < month_len (leapYear y) mon \<and>
        mktime (tm_day (int y, int (Suc m) + 1, 1)) + 86400 * int (days - ?l) =
          mktime (tm_day (int y, int mon + 1, 1)) + 86400 * int d"
      by (rule Suc.hyps(1)) (use Suc True m s in \<open>auto simp: month_len_def Let_def\<close>)
    have "mktime (tm_day (int y, int (Suc m) + 1, 1)) = mktime (tm_day (int y, int m + 1, 1)) + 86400 * int ?l"
      using mktime_month_end [of "int m + 1" "int y"] s month_len_days [OF m(1), of y]
      by (cases "m < 2") (simp_all add: mktime_late mktime_early algebra_simps)
    with IH True show ?thesis by (simp add: of_nat_diff algebra_simps)
  qed
qed simp

lemma months_of_year: "sum_list (map (month_len ly) [0..<12]) = (if ly then 366 else 365)"
  by (simp add: upt_rec month_len_def daysInMonth_def)

lemma mktime_time:
  "mktime \<lparr>tm_sec = sc, tm_min = mi, tm_hour = h, tm_mday = d, tm_mon = m, tm_year = y\<rparr> =
     mktime (tm_day (y, m, 1)) + 86400 * (d - 1) + 3600 * h + 60 * mi + sc"
  by (simp add: mktime_def tm_day_def Let_def algebra_simps)

text \<open>The split of the seconds into days, hours, minutes and seconds.\<close>

lemma time_split:
  fixes n :: nat
  defines "days \<equiv> n div 60 div 60 div 24"
  defines "h \<equiv> n div 60 div 60 - days * 24" and "mi \<equiv> n div 60 - n div 60 div 60 * 60" and "sc \<equiv> n - n div 60 * 60"
  shows "n = 86400 * days + 3600 * h + 60 * mi + sc" "h < 24" "mi < 60" "sc < 60"
proof -
  have sp: "k = k div c * c + (k - k div c * c) \<and> k - k div c * c < c" if "0 < c" for k c :: nat
    using that by (simp add: minus_div_mult_eq_mod)
  note p = sp [of 60 n, folded sc_def] sp [of 60 "n div 60", folded mi_def]
    sp [of 24 "n div 60 div 60", folded days_def, folded h_def]
  then show "h < 24" "mi < 60" "sc < 60" by simp_all
  from p have "n = n div 60 * 60 + sc" "n div 60 = n div 60 div 60 * 60 + mi" "n div 60 div 60 = days * 24 + h" by simp_all
  then show "n = 86400 * days + 3600 * h + 60 * mi + sc" by linarith
qed

text \<open>C30. \<open>calcDate\<close> of the C library inverts \<open>mktime\<close> of the kernel on every 32-bit number of seconds: the
  date it returns is a date of the calendar (its months count from 0, those of \<open>mktime\<close> from 1), the
  kernel converts it back to the same seconds, and the day of the week and the day of the year are those
  of that date.\<close>

theorem calcDate_mktime:
  "let t = calcDate s in
     mktime \<lparr>tm_sec = tm_sec t, tm_min = tm_min t, tm_hour = tm_hour t, tm_mday = tm_mday t,
       tm_mon = tm_mon t + 1, tm_year = tm_year t\<rparr> = uint s \<and>
     valid_date (tm_year t, tm_mon t + 1, tm_mday t) \<and>
     tm_hour t \<in> {0..<24} \<and> tm_min t \<in> {0..<60} \<and> tm_sec t \<in> {0..<60} \<and>
     tm_wday t = (4 + uint s div 86400) mod 7 \<and>
     mktime (tm_day (tm_year t, 1, 1)) + 86400 * tm_yday t = 86400 * (uint s div 86400)"
proof -
  define n where "n = unat s"
  define days where "days = n div 60 div 60 div 24"
  obtain d y w where yl: "year_loop days 1970 4 = (d, y, w)" by (metis prod_cases3)
  obtain mon dom where ml: "month_loop (leapYear y) [0..<12] d = (mon, dom)" by fastforce
  note Y = year_loop_spec [OF yl]
  have "d < sum_list (map (month_len (leapYear y)) [0..<12])"
    using Y by (simp only: months_of_year year_days_def)
  note M = month_loop_spec [OF ml _ this]
  have us: "uint s = int n" by (simp add: n_def)
  have dn: "days = n div 86400" by (simp add: days_def div_mult2_eq [symmetric])
  define h mi sc where "h = n div 60 div 60 - days * 24" and "mi = n div 60 - n div 60 div 60 * 60"
    and "sc = n - n div 60 * 60"
  note parts = h_def [symmetric] mi_def [symmetric] sc_def [symmetric]
  note n = time_split [of n, folded days_def, unfolded parts]
  have t: "calcDate s = \<lparr>tm_sec = int sc, tm_min = int mi, tm_hour = int h, tm_mday = int dom + 1, tm_mon = int mon, tm_year = int y,
     tm_wday = int ((w + d) mod 7), tm_yday = int d\<rparr>"
    by (simp only: calcDate_def Let_def n_def [symmetric] days_def [symmetric] parts yl ml prod.case)
  have base: "day0 1970 = 0" by (simp add: day0_def mktime_def tm_day_def Let_def)
  have dm: "mktime (tm_day (int y, int mon + 1, 1)) + 86400 * int dom = 86400 * int days"
    using Y M base by (simp add: day0_def)
  have "int dom < month_days (int y) (int mon + 1)" using M month_len_days [of mon y] by simp
  then have "valid_date (int y, int mon + 1, int dom + 1)" using M Y by (simp add: valid_date_def)
  moreover have "int ((w + d) mod 7) = (4 + uint s div 86400) mod 7"
  proof -
    have "(w + d) mod 7 = (4 + days) mod 7" using Y by simp
    then have "int ((w + d) mod 7) = int ((4 + days) mod 7)" by (simp only:)
    then show ?thesis by (simp add: us dn zmod_int zdiv_int)
  qed
  moreover have "mktime (tm_day (int y, 1, 1)) + 86400 * int d = 86400 * (uint s div 86400)"
    using Y base by (simp add: day0_def us dn zdiv_int)
  moreover have "mktime (tm_day (int y, int mon + 1, 1)) + 86400 * int dom + 3600 * int h + 60 * int mi + int sc = uint s"
    unfolding dm us using n(1) by linarith
  ultimately show ?thesis using n(2-4) unfolding t by (simp add: mktime_time Let_def)
qed

end
