(* ===== verification/User_Io.thy ===== *)
theory User_Io
  imports Prelude
begin

text \<open>
  What the user programs see of the kernel. A descriptor that is open for reading is the list of the
  pieces of data that it delivers: a file is one piece, a terminal delivers a line at a time and a pipe
  what was written to it. A read takes bytes from the first piece only; an empty piece is an end of
  file, and so is the end of the list. On a descriptor that is not open every read fails.
\<close>

datatype instream = In_closed | In_pieces "uchar list list"

fun u_read :: "nat \<Rightarrow> instream \<Rightarrow> int \<times> uchar list \<times> instream" where
  "u_read n In_closed = (- 1, [], In_closed)"
| "u_read n (In_pieces []) = (0, [], In_pieces [])"
| "u_read n (In_pieces (c # cs)) =
     (int (min n (length c)), take n c, In_pieces (if length c \<le> n then cs else drop n c # cs))"

text \<open>All the data up to the end of the file.\<close>

definition in_data :: "uchar list list \<Rightarrow> uchar list" where
  "in_data cs = concat (takeWhile (\<lambda>c. c \<noteq> []) cs)"

lemma in_data_simps [simp]:
  "in_data [] = []" "in_data (c # cs) = (if c = [] then [] else c @ in_data cs)"
  by (simp_all add: in_data_def)

text \<open>The bytes of a string literal.\<close>

definition ustr :: "string \<Rightarrow> uchar list" where
  "ustr cs = map of_char cs"

lemma ustr_simps [simp]: "ustr [] = []" "ustr (c # cs) = of_char c # ustr cs"
  by (simp_all add: ustr_def)

text \<open>The state of a reading loop gets smaller with each successful read of at least one byte.\<close>

definition in_size :: "instream \<Rightarrow> nat" where
  "in_size i = (case i of In_closed \<Rightarrow> 0 | In_pieces cs \<Rightarrow> length (concat cs))"

lemma u_read_progress:
  assumes "u_read n i = (r, bs, i')" and "0 < r"
  shows "in_size i' < in_size i" "bs \<noteq> []" "r = int (length bs)" "length bs \<le> n"
    "\<exists>cs cs'. i = In_pieces cs \<and> i' = In_pieces cs' \<and> in_data cs = bs @ in_data cs'"
  using assms by (cases "(n, i)" rule: u_read.cases; force simp: in_size_def)+

lemma u_read_stops:
  assumes "u_read n i = (r, bs, i')" and "r \<le> 0" and "0 < n"
  shows "(i = In_closed \<and> r = - 1) \<or> (\<exists>cs. i = In_pieces cs \<and> in_data cs = [] \<and> r = 0)" "bs = []"
  using assms by (cases "(n, i)" rule: u_read.cases; auto)+

end
