(* ===== verification/Base64.thy ===== *)
theory Base64
  imports User_Io
begin

text \<open>
  The encoder of userspace/base64.c.
\<close>

section \<open>Operations\<close>

definition charset :: "uchar list" where
  "charset = ustr ''ABCDEFGHIJKLMNOPQRSTUVWXYZabcdefghijklmnopqrstuvwxyz0123456789+/''"

text \<open>\<open>charset[i]\<close> of an unsigned byte.\<close>

definition sextet :: "uchar \<Rightarrow> uchar" where
  "sextet i = charset ! unat i"

text \<open>The data are the \<open>len\<close> bytes from the current position on; the bytes of \<open>udata\<close> beyond them are 0.\<close>

definition encode24 :: "uchar list \<Rightarrow> uchar list" where
  "encode24 data =
     (let len = length data;
          udata = take 3 (data @ [0, 0, 0]);
          u0 = udata ! 0; u1 = udata ! 1; u2 = udata ! 2
      in [sextet (drop_bit 2 u0),
          sextet (push_bit 4 (u0 AND 0x03) OR drop_bit 4 (u1 AND 0xf0)),
          if len > 1 then sextet (push_bit 2 (u1 AND 0x0f) OR drop_bit 6 (u2 AND 0xc0)) else 0x3D,
          if len > 2 then sextet (u2 AND 0x3f) else 0x3D])"

definition encode :: "uchar list \<Rightarrow> uchar list" where
  "encode data = concat (map (\<lambda>pos. encode24 (drop (pos * 3) data)) [0..<(length data + 2) div 3])"

text \<open>The loop reads up to 54 bytes at a time. The result of a failed read, \<open>- 1\<close>, becomes the largest
  \<open>size_t\<close>; \<open>(len + 2) / 3\<close> then wraps around to 0, so that \<open>encode\<close> writes nothing and only the newline
  is written.\<close>

partial_function (option) encodefd :: "instream \<Rightarrow> uchar list option" where
  "encodefd fdin =
     (case u_read 54 fdin of (inlen, data, fdin) \<Rightarrow>
        if inlen = 0 then Some []
        else
          let line = (if inlen < 0 then [] else encode data) @ [0x0A] in
          Option.bind (encodefd fdin) (\<lambda>out. Some (line @ out)))"

text \<open>The loop of \<open>main\<close> over the files, and \<open>main\<close>. The parameter is what \<open>open\<close> returns for each name; a file
  that cannot be opened is reported and then read all the same. The output is that on descriptor 1.\<close>

primrec base64_files :: "(uchar list \<Rightarrow> instream) \<Rightarrow> uchar list list \<Rightarrow> uchar list option" where
  "base64_files opn [] = Some []"
| "base64_files opn (f # fs) =
     Option.bind (encodefd (opn f)) (\<lambda>out.
     Option.bind (base64_files opn fs) (\<lambda>outs.
     Some ((if opn f = In_closed then ustr ''base64: cannot open '' @ f @ [0x0A] else []) @ out @ outs)))"

definition base64_main :: "(uchar list \<Rightarrow> instream) \<Rightarrow> instream \<Rightarrow> uchar list list \<Rightarrow> uchar list option" where
  "base64_main opn stdin args = (if args = [] then encodefd stdin else base64_files opn args)"

section \<open>Decoding\<close>

definition unsextet :: "uchar \<Rightarrow> uchar" where
  "unsextet c = (case find (\<lambda>i. charset ! i = c) [0..<64] of Some i \<Rightarrow> word_of_nat i | None \<Rightarrow> 0)"

definition decode24 :: "uchar \<Rightarrow> uchar \<Rightarrow> uchar \<Rightarrow> uchar \<Rightarrow> uchar list" where
  "decode24 a b c d =
     (push_bit 2 (unsextet a) OR drop_bit 4 (unsextet b)) #
     (if c = 0x3D then []
      else (push_bit 4 (unsextet b) OR drop_bit 2 (unsextet c)) #
       (if d = 0x3D then [] else [push_bit 6 (unsextet c) OR unsextet d]))"

text \<open>The reference decoder of RFC 4648, which skips line breaks.\<close>

fun decode :: "uchar list \<Rightarrow> uchar list" where
  "decode [] = []"
| "decode (a # s) =
     (if a = 0x0A then decode s
      else case s of b # c # d # s \<Rightarrow> decode24 a b c d @ decode s | _ \<Rightarrow> [])"

lemma charset_length: "length charset = 64"
  by (simp add: charset_def ustr_def)

lemma charset_distinct: "distinct charset"
  by code_simp

lemma charset_free: "0x3D \<notin> set charset" "0x0A \<notin> set charset"
  by code_simp+

lemma sextet_in: "unat i < 64 \<Longrightarrow> sextet i \<in> set charset"
  by (simp add: sextet_def charset_length)

lemma sextet_free: "unat i < 64 \<Longrightarrow> sextet i \<noteq> 0x3D \<and> sextet i \<noteq> 0x0A"
  using sextet_in charset_free by metis

lemma unsextet_sextet: "unat i < 64 \<Longrightarrow> unsextet (sextet i) = i"
proof -
  assume i: "unat i < 64"
  have "charset ! j = sextet i \<longleftrightarrow> j = unat i" if "j < 64" for j
    using nth_eq_iff_index_eq [OF charset_distinct] that i by (simp add: sextet_def charset_length)
  then have "find (\<lambda>j. charset ! j = sextet i) [0..<64] = Some (unat i)"
    unfolding find_upt_Some_iff using i by auto
  then show ?thesis by (simp add: unsextet_def)
qed

text \<open>A byte bit by bit.\<close>

lemma byte_index: "n < 8 \<Longrightarrow> n = 0 \<or> n = 1 \<or> n = 2 \<or> n = 3 \<or> n = 4 \<or> n = 5 \<or> n = 6 \<or> n = (7 :: nat)"
  by linarith

lemma byte_eqI:
  fixes a b :: uchar
  assumes "bit a 0 = bit b 0" "bit a 1 = bit b 1" "bit a 2 = bit b 2" "bit a 3 = bit b 3"
    "bit a 4 = bit b 4" "bit a 5 = bit b 5" "bit a 6 = bit b 6" "bit a 7 = bit b 7"
  shows "a = b"
  by (rule bit_word_eqI) (use assms in \<open>auto dest!: byte_index\<close>)

lemma below_64: "\<not> bit i 6 \<Longrightarrow> \<not> bit i 7 \<Longrightarrow> unat (i :: uchar) < 64"
proof -
  assume "\<not> bit i 6" "\<not> bit i 7"
  then have "take_bit 6 i = i" by (intro byte_eqI) (simp_all add: bit_simps)
  then have "unat i = take_bit 6 (unat i)" by (metis unsigned_take_bit_eq)
  also have "\<dots> < 2 ^ 6" by (rule take_bit_nat_less_exp)
  finally show ?thesis by simp
qed

lemma bit_byte_high: "8 \<le> n \<Longrightarrow> \<not> bit (u :: uchar) n"
  using bit_imp_le_length [of u n] by auto

text \<open>The masks of the code.\<close>

lemma masks:
  "(0x03 :: uchar) = mask 2" "(0x0f :: uchar) = mask 4" "(0x3f :: uchar) = mask 6"
  "(0xf0 :: uchar) = push_bit 4 (mask 4)" "(0xc0 :: uchar) = push_bit 6 (mask 2)"
  by (simp_all add: mask_numeral)

lemma sextets:
  fixes u0 u1 u2 :: uchar
  shows "unat (drop_bit 2 u0) < 64" "unat (push_bit 4 (u0 AND 0x03) OR drop_bit 4 (u1 AND 0xf0)) < 64"
    "unat (push_bit 2 (u1 AND 0x0f) OR drop_bit 6 (u2 AND 0xc0)) < 64" "unat (u2 AND 0x3f) < 64"
  unfolding masks by (rule below_64; simp add: bit_simps bit_byte_high)+

lemma join_bits:
  fixes u0 u1 u2 :: uchar
  defines "a \<equiv> drop_bit 2 u0" and "b \<equiv> push_bit 4 (u0 AND 0x03) OR drop_bit 4 (u1 AND 0xf0)"
    and "c \<equiv> push_bit 2 (u1 AND 0x0f) OR drop_bit 6 (u2 AND 0xc0)" and "d \<equiv> u2 AND 0x3f"
  shows "push_bit 2 a OR drop_bit 4 b = u0" "push_bit 4 b OR drop_bit 2 c = u1" "push_bit 6 c OR d = u2"
  unfolding a_def b_def c_def d_def masks by (rule byte_eqI; simp add: bit_simps bit_byte_high)+

section \<open>Round trip\<close>

lemma encode_simps:
  "encode [] = []" "data \<noteq> [] \<Longrightarrow> encode data = encode24 data @ encode (drop 3 data)"
proof -
  show "encode [] = []" by (simp add: encode_def)
  assume d: "data \<noteq> []"
  have "(k + 2) div 3 = Suc ((k - 3 + 2) div 3)" if "0 < k" for k :: nat
  proof (cases "k < 3")
    case True
    with that have "k = 1 \<or> k = 2" by linarith
    then show ?thesis by auto
  next
    case False
    then obtain m where "k = m + 3" using le_Suc_ex [of 3 k] by (metis add.commute not_less)
    then show ?thesis by (simp add: Suc_eq_plus1 [symmetric] del: Suc_eq_plus1)
  qed
  with d obtain n where n: "(length data + 2) div 3 = Suc n" "(length (drop 3 data) + 2) div 3 = n" by simp
  have "[0..<Suc n] = 0 # map Suc [0..<n]" by (simp add: map_Suc_upt upt_conv_Cons)
  then show "encode data = encode24 data @ encode (drop 3 data)"
    unfolding encode_def n by (simp add: comp_def add.commute del: upt_Suc)
qed

lemma length_encode24: "length (encode24 data) = 4"
  by (simp add: encode24_def Let_def)

lemma length_encode: "length (encode data) = 4 * ((length data + 2) div 3)"
  by (simp add: encode_def length_concat comp_def length_encode24 sum_list_triv)

lemma decode_quad:
  assumes "unat a < 64"
  shows "decode (sextet a # b # c # d # s) = decode24 (sextet a) b c d @ decode s"
  using sextet_free [OF assms] by simp

lemma decode24_sextets:
  fixes u0 u1 u2 :: uchar
  defines "a \<equiv> sextet (drop_bit 2 u0)" and "b \<equiv> sextet (push_bit 4 (u0 AND 0x03) OR drop_bit 4 (u1 AND 0xf0))"
    and "c \<equiv> sextet (push_bit 2 (u1 AND 0x0f) OR drop_bit 6 (u2 AND 0xc0))" and "d \<equiv> sextet (u2 AND 0x3f)"
  shows "decode24 a b 0x3D 0x3D = [u0]" "decode24 a b c 0x3D = [u0, u1]" "decode24 a b c d = [u0, u1, u2]"
proof -
  note f = sextet_free [OF sextets(3), of u1 u2, folded c_def] sextet_free [OF sextets(4), of u2, folded d_def]
  have u: "unsextet a = drop_bit 2 u0" "unsextet b = push_bit 4 (u0 AND 0x03) OR drop_bit 4 (u1 AND 0xf0)"
    "unsextet c = push_bit 2 (u1 AND 0x0f) OR drop_bit 6 (u2 AND 0xc0)" "unsextet d = u2 AND 0x3f"
    unfolding a_def b_def c_def d_def by (rule unsextet_sextet, rule sextets)+
  show "decode24 a b 0x3D 0x3D = [u0]" "decode24 a b c 0x3D = [u0, u1]" "decode24 a b c d = [u0, u1, u2]"
    using f by (simp_all only: decode24_def u join_bits if_True if_False simp_thms)
qed

lemma decode_encode24:
  assumes "data \<noteq> []"
  shows "decode (encode24 data @ s) = take 3 data @ decode s"
proof -
  define u where "u = take 3 (data @ [0, 0, 0])"
  have e: "encode24 data @ s = sextet (drop_bit 2 (u ! 0)) #
      sextet (push_bit 4 (u ! 0 AND 0x03) OR drop_bit 4 (u ! 1 AND 0xf0)) #
      (if length data > 1 then sextet (push_bit 2 (u ! 1 AND 0x0f) OR drop_bit 6 (u ! 2 AND 0xc0)) else 0x3D) #
      (if length data > 2 then sextet (u ! 2 AND 0x3f) else 0x3D) # s"
    by (simp only: encode24_def Let_def u_def [symmetric] append.simps)
  consider a where "data = [a]" | a b where "data = [a, b]" | a b c r where "data = a # b # c # r"
    using assms by (metis list.exhaust)
  then have "take 3 data = (if length data > 2 then [u ! 0, u ! 1, u ! 2]
      else if length data > 1 then [u ! 0, u ! 1] else [u ! 0])"
    by cases (simp_all add: u_def)
  then show ?thesis
    unfolding e decode_quad [OF sextets(1)] by (auto simp only: decode24_sextets if_True if_False split: if_splits)
qed

lemma decode_encode: "decode (encode data @ s) = data @ decode s"
proof (induction data rule: length_induct)
  case (1 data)
  show ?case
  proof (cases "data = []")
    case False
    with 1 have "decode (encode (drop 3 data) @ s) = drop 3 data @ decode s" by simp
    with False show ?thesis by (simp add: encode_simps decode_encode24)
  qed (simp add: encode_simps)
qed

text \<open>C31. \<open>base64\<close> of any input returns, and a decoder of RFC 4648 that skips the line breaks gets the input
  back from its output, however the input is cut into pieces by short reads. The encoding of \<open>n\<close> bytes
  takes four characters for each three bytes begun, so the 73 bytes of \<open>out\<close> hold a line with its newline.\<close>

theorem base64_roundtrip:
  "(\<exists>out. encodefd (In_pieces cs) = Some out \<and> decode out = in_data cs) \<and>
   length (encode data) = 4 * ((length data + 2) div 3)"
proof
  show "\<exists>out. encodefd (In_pieces cs) = Some out \<and> decode out = in_data cs"
  proof (induction "in_size (In_pieces cs)" arbitrary: cs rule: less_induct)
    case less
    obtain r bs i' where rd: "u_read 54 (In_pieces cs) = (r, bs, i')" by (metis prod_cases3)
    show ?case
    proof (cases "0 < r")
      case True
      note p = u_read_progress [OF rd True]
      then obtain cs' where cs': "i' = In_pieces cs'" "in_data cs = bs @ in_data cs'" by auto
      obtain out where "encodefd i' = Some out" "decode out = in_data cs'"
        using less p(1) cs'(1) by blast
      with True rd cs' show ?thesis
        by (subst encodefd.simps) (auto simp: Let_def decode_encode)
    next
      case False
      then have "r = 0" "in_data cs = []" using u_read_stops [OF rd] by auto
      with rd show ?thesis by (subst encodefd.simps) simp
    qed
  qed
qed (rule length_encode)

lemma encodefd_closed: "encodefd In_closed = None"
proof (rule ccontr)
  assume "encodefd In_closed \<noteq> None"
  then obtain out where out: "encodefd In_closed = Some out" by blast
  then have "encodefd In_closed = Some (0x0A # out)" by (subst encodefd.simps) (simp add: Let_def)
  with out show False by simp
qed

text \<open>C38. With a file that cannot be opened among its arguments \<open>base64\<close> never returns: it goes on to read
  from the descriptor \<open>- 1\<close>, and the failure of \<open>read\<close> is not the 0 at which the loop of \<open>encodefd\<close> ends.\<close>

theorem base64_closed_never_returns:
  assumes "f \<in> set files" and "opn f = In_closed"
  shows "base64_main opn stdin files = None"
proof -
  have "base64_files opn files = None" using assms
  proof (induction files)
    case (Cons g gs)
    then show ?case by (cases "g = f") (auto simp: encodefd_closed bind_eq_None_conv)
  qed simp
  with assms(1) show ?thesis by (auto simp: base64_main_def)
qed

theorem base64_closed_never_returns_witness:
  "base64_main (\<lambda>_. In_closed) (In_pieces []) [ustr ''missing''] = None"
  by (rule base64_closed_never_returns [of "ustr ''missing''"]) simp_all

end
