(* ===== verification/Ulib.thy ===== *)
theory Ulib
  imports User_Io Cstring
begin

text \<open>
  String and number routines of the C library (userspace/libc/ulib.c, strncpy.c, atob.c). A string is
  the bytes before its NUL; \<open>memmove\<close> works on the memory of the process.
\<close>

section \<open>Strings\<close>

fun u_strcmp :: "uchar list \<Rightarrow> uchar list \<Rightarrow> int" where
  "u_strcmp (a # p) (b # q) = (if a = b then u_strcmp p q else uint a - uint b)"
| "u_strcmp (a # p) [] = uint a"
| "u_strcmp [] (b # q) = - uint b"
| "u_strcmp [] [] = 0"

text \<open>The suffix that starts with the first \<open>c\<close>; the NUL at the end is not looked at.\<close>

primrec u_strchr :: "uchar list \<Rightarrow> uchar \<Rightarrow> uchar list option" where
  "u_strchr [] c = None"
| "u_strchr (a # s) c = (if a = c then Some (a # s) else u_strchr s c)"

definition isdigit :: "uchar \<Rightarrow> bool" where
  "isdigit c \<longleftrightarrow> c \<ge> 0x30 \<and> c \<le> 0x39"

definition isspace :: "uchar \<Rightarrow> bool" where
  "isspace c \<longleftrightarrow> (c \<ge> 0x09 \<and> c \<le> 0x0D) \<or> c = 0x20"

text \<open>The length of the part of \<open>s1\<close> without a character of \<open>s2\<close>; the inner loop also compares with the
  NUL of \<open>s2\<close>, which ends the scan at the NUL of \<open>s1\<close>.\<close>

primrec u_strcspn :: "uchar list \<Rightarrow> uchar list \<Rightarrow> nat" where
  "u_strcspn [] s2 = 0"
| "u_strcspn (c # s1) s2 = (if c \<in> set s2 \<or> c = 0 then 0 else Suc (u_strcspn s1 s2))"

text \<open>The bytes stored by \<open>strncpy\<close>: up to \<open>n\<close> bytes of \<open>t\<close>, filled up with zeros.\<close>

primrec u_strncpy :: "nat \<Rightarrow> uchar list \<Rightarrow> uchar list" where
  "u_strncpy 0 t = []"
| "u_strncpy (Suc n) t = (case t of [] \<Rightarrow> replicate (Suc n) 0 | c # t \<Rightarrow> c # u_strncpy n t)"

primrec atoi_loop :: "uint \<Rightarrow> uchar list \<Rightarrow> uint" where
  "atoi_loop n [] = n"
| "atoi_loop n (c # s) = (if 0x30 \<le> c \<and> c \<le> 0x39 then atoi_loop (n * 10 + ucast c - 0x30) s else n)"

definition u_atoi :: "uchar list \<Rightarrow> int" where
  "u_atoi s = sint (atoi_loop 0 s)"

text \<open>Unlike the routine of the kernel this one always copies upwards.\<close>

definition u_memmove :: "mem \<Rightarrow> uint \<Rightarrow> uint \<Rightarrow> int \<Rightarrow> mem" where
  "u_memmove m dst src n = copy_up m dst src (nat n)"

section \<open>Numbers\<close>

type_synonym uquad = "64 word"

definition getbase :: "uchar list \<Rightarrow> uchar list \<times> nat" where
  "getbase p =
     (case p of
        a # b # r \<Rightarrow>
          if a = 0x30 then
            if b = 0x78 then (r, 16)
            else if b = 0x74 \<or> b = 0x6E then (r, 10)
            else if b = 0x6F then (r, 8)
            else (p, 10)
          else (p, 10)
      | _ \<Rightarrow> (p, 10))"

definition digit_of :: "uchar \<Rightarrow> nat option" where
  "digit_of c =
     (if c \<ge> 0x30 \<and> c \<le> 0x39 then Some (unat c - 0x30)
      else if c \<ge> 0x61 \<and> c \<le> 0x66 then Some (unat c - 0x61 + 10)
      else if c \<ge> 0x41 \<and> c \<le> 0x46 then Some (unat c - 0x41 + 10)
      else None)"

primrec atob_loop :: "nat \<Rightarrow> uquad \<Rightarrow> uchar list \<Rightarrow> uquad option" where
  "atob_loop base v [] = Some v"
| "atob_loop base v (c # p) =
     (case digit_of c of
        None \<Rightarrow> None
      | Some d \<Rightarrow> if d \<ge> base then None else atob_loop base (v * of_nat base + of_nat d) p)"

definition hex_prefix :: "uchar list \<Rightarrow> bool" where
  "hex_prefix p \<longleftrightarrow> (case p of a # b # _ \<Rightarrow> a = 0x30 \<and> (b = 0x78 \<or> b = 0x58) | _ \<Rightarrow> False)"

lemma dot_split:
  assumes "0x2E \<in> set (p :: uchar list)"
  shows "length (takeWhile (\<lambda>c. c \<noteq> 0x2E) p) < length p" "length (tl (dropWhile (\<lambda>c. c \<noteq> 0x2E) p)) < length p"
  using assms by (induction p) auto

text \<open>\<open>_atob\<close>: in base 16 a dot joins two halves of 16 bits; \<open>tmp\<close> has room for 19 characters.\<close>

function atob_quad :: "uchar list \<Rightarrow> nat \<Rightarrow> uquad option" where
  "atob_quad p base =
     (let (base, p') = (if hex_prefix p then (16, drop 2 p) else (base, p)) in
      if base = 16 \<and> 0x2E \<in> set p'
      then
        let l = takeWhile (\<lambda>c. c \<noteq> 0x2E) p'; r = tl (dropWhile (\<lambda>c. c \<noteq> 0x2E) p') in
        if length l > 19 then None
        else
          case atob_quad l 16 of
            None \<Rightarrow> None
          | Some v1 \<Rightarrow>
              if 0x2E \<in> set r then None
              else
                case atob_quad r 16 of
                  None \<Rightarrow> None
                | Some v2 \<Rightarrow> Some (push_bit 16 v1 + v2)
      else atob_loop base 0 p')"
  by auto

termination
  by (relation "measure (\<lambda>(p, _). length p)") (auto split: if_splits dest: dot_split intro: less_le_trans)

declare atob_quad.simps [simp del]

definition atob :: "uchar list \<Rightarrow> nat \<Rightarrow> uint option" where
  "atob p base =
     (let (p, base) = (if base = 0 then getbase p else (p, base))
      in map_option ucast (atob_quad p base))"

section \<open>Properties\<close>

text \<open>The value of a string of digits.\<close>

definition digits_val :: "nat \<Rightarrow> nat list \<Rightarrow> nat" where
  "digits_val base ds = foldl (\<lambda>v d. v * base + d) 0 ds"

definition digit_string :: "nat \<Rightarrow> uchar list \<Rightarrow> nat list option" where
  "digit_string base p = those (map (\<lambda>c. case digit_of c of None \<Rightarrow> None | Some d \<Rightarrow> if d < base then Some d else None) p)"

lemma atob_loop_val:
  "atob_loop base v p =
     map_option (\<lambda>ds. foldl (\<lambda>v d. v * of_nat base + of_nat d) v ds) (digit_string base p)"
  by (induction p arbitrary: v) (auto simp: digit_string_def option.map_comp comp_def split: option.splits)

lemma foldl_of_nat:
  "foldl (\<lambda>v d. v * of_nat base + of_nat d) (of_nat n) ds = (of_nat (foldl (\<lambda>v d. v * base + d) n ds) :: 'a :: len word)"
proof (induction ds arbitrary: n)
  case (Cons d ds)
  have "(of_nat n * of_nat base + of_nat d :: 'a word) = of_nat (n * base + d)" by simp
  then show ?case using Cons [of "n * base + d"] by (simp only: foldl_Cons)
qed simp

lemma digit_string_digits:
  assumes "digit_string base p = Some ds" and "c \<in> set p"
  shows "digit_of c \<noteq> None"
  using assms by (induction p arbitrary: ds) (auto simp: digit_string_def split: option.splits if_splits)

lemma atob_quad_digits:
  assumes "digit_string base p = Some ds"
  shows "atob_quad p base = Some (of_nat (digits_val base ds))"
proof -
  have "digit_of 0x78 = None" "digit_of 0x58 = None" "digit_of 0x2E = None" by (simp_all add: digit_of_def)
  then have "0x78 \<notin> set p" "0x58 \<notin> set p" "0x2E \<notin> set p" using digit_string_digits [OF assms] by blast+
  then have "\<not> hex_prefix p" "0x2E \<notin> set p" by (auto simp: hex_prefix_def split: list.splits)
  moreover have "atob_loop base 0 p = Some (of_nat (digits_val base ds))"
    using foldl_of_nat [of base 0 ds] by (simp add: atob_loop_val assms digits_val_def)
  ultimately show ?thesis by (subst atob_quad.simps) (simp add: Let_def)
qed

lemma copy_up_add: "copy_up m d s (n + k) = copy_up (copy_up m d s n) (d + of_nat n) (s + of_nat n) k"
  by (induction n arbitrary: m d s) (simp_all add: ac_simps)

lemma copy_up_frame:
  assumes "n \<le> unat (x - d)"
  shows "copy_up m d s n x = m x"
  using assms
proof (induction n arbitrary: m d s)
  case (Suc n)
  then have "unat (x - d) \<noteq> 0" "x \<noteq> d" by auto
  with Suc show ?case using offset_shift [of x d] by simp
qed simp

text \<open>A byte that lies as far behind the start of the destination as this lies behind the start of the source
  gets the first byte of the source.\<close>

lemma copy_up_overlap:
  assumes k: "0 < k" "k < n" "n < 2 ^ 32" and d: "d = s + of_nat k"
  shows "copy_up m d s n (d + of_nat k) = m s"
proof -
  obtain j where j: "n = k + Suc j" using k(2) less_imp_Suc_add by auto
  have u: "unat (of_nat k :: uint) = k" using k by (simp add: unat_of_nat)
  let ?m = "copy_up m d s k"
  have "copy_up m d s k d = m s"
    using copy_up_eq [of k d s m d] k u by (simp add: d)
  then have v: "?m (s + of_nat k) = m s" by (simp add: d)
  have "copy_up m d s n (d + of_nat k) =
      copy_up (?m(d + of_nat k := ?m (s + of_nat k))) (d + of_nat k + 1) (s + of_nat k + 1) j (d + of_nat k)"
    by (simp add: j copy_up_add del: add_Suc_right)
  also have "\<dots> = (?m(d + of_nat k := ?m (s + of_nat k))) (d + of_nat k)"
  proof (rule copy_up_frame)
    have "unat (d + of_nat k - (d + of_nat k + 1)) = 4294967295"
      by (simp add: unsigned_minus_1_eq_mask mask_eq_exp_minus_1)
    then show "j \<le> unat (d + of_nat k - (d + of_nat k + 1))" using k(3) j by simp
  qed
  also have "\<dots> = m s" by (simp add: v)
  finally show ?thesis .
qed

text \<open>C37. \<open>memmove\<close> of the C library agrees with that of the kernel on all memory contents exactly when the
  destination does not start inside the source; otherwise it overwrites source bytes before it has copied
  them.\<close>

theorem u_memmove_kernel:
  assumes "unat src + unat n < 2 ^ 32" and "unat dst + unat n \<le> 2 ^ 32"
  shows "(\<forall>m. u_memmove m dst src (int (unat n)) = memmove m dst src n) \<longleftrightarrow> \<not> (src < dst \<and> dst < src + n)"
proof (cases "src < dst \<and> dst < src + n")
  case True
  define k where "k = unat (dst - src)"
  have sn: "unat (src + n) = unat src + unat n" by (rule unat_add_no_wrap [OF assms(1)])
  have ks: "k = unat dst - unat src" using True unat_sub [of src dst] by (simp add: k_def less_imp_le)
  have k: "0 < k" "k < unat n" using True sn by (simp_all add: ks word_less_nat_alt less_diff_conv2)
  have d: "dst = src + of_nat k" by (simp add: k_def)
  define m :: mem where "m = (\<lambda>_. 0)(src := 1)"
  have "u_memmove m dst src (int (unat n)) (dst + of_nat k) = 1"
    using copy_up_overlap [OF k _ d, of m] by (simp add: u_memmove_def m_def)
  moreover have "memmove m dst src n (dst + of_nat k) = m (src + of_nat k)"
    using memmove_eq [OF assms, of m "dst + of_nat k"] k by (simp add: k_def)
  moreover have "m (src + of_nat k) = 0" using True by (auto simp: m_def d)
  ultimately show ?thesis using True by (metis zero_neq_one)
next
  case False
  then show ?thesis by (auto simp: u_memmove_def memmove_def)
qed

theorem u_memmove_kernel_witness:
  "(\<forall>m. u_memmove m 0x1000 0x1004 8 = memmove m 0x1000 0x1004 8) \<and>
   \<not> (\<forall>m. u_memmove m 0x1004 0x1000 8 = memmove m 0x1004 0x1000 8)"
  using u_memmove_kernel [of "0x1004" 8 "0x1000"] u_memmove_kernel [of "0x1000" 8 "0x1004"] by simp

end
