(* ===== verification/Printf.thy ===== *)
theory Printf
  imports Ulib
begin

text \<open>
  Formatted output of the C library (userspace/libc/printf.c): the bytes written to the descriptor, one
  \<open>write\<close> for each.
\<close>

section \<open>Operations\<close>

definition udigits :: "uchar list" where
  "udigits = ustr ''0123456789ABCDEF''"

text \<open>\<open>do buf[i++] = digits[x % base]; while((x /= base) != 0)\<close>, lowest digit first. The callers pass 10
  and 16.\<close>

function udigit_loop :: "nat \<Rightarrow> nat \<Rightarrow> uchar list" where
  "udigit_loop base x =
     (if base < 2 then []
      else udigits ! (x mod base) # (if x div base \<noteq> 0 then udigit_loop base (x div base) else []))"
  by auto

termination
  by (relation "measure snd") (auto simp: div_less_dividend div_greater_zero_iff)

declare udigit_loop.simps [simp del]

definition u_printint :: "uint \<Rightarrow> nat \<Rightarrow> bool \<Rightarrow> uchar list" where
  "u_printint xx base sg =
     (let neg = sg \<and> sint xx < 0;
          x = (if neg then - xx else xx)
      in rev (udigit_loop base (unat x) @ (if neg then [0x2D] else [])))"

text \<open>The argument has 64 bits, the variable \<open>x\<close> has 32.\<close>

definition u_printint64 :: "uquad \<Rightarrow> nat \<Rightarrow> bool \<Rightarrow> uchar list" where
  "u_printint64 xx base sg =
     (let neg = sg \<and> sint xx < 0;
          x = (ucast (if neg then - xx else xx) :: uint)
      in rev (udigit_loop base (unat x) @ (if neg then [0x2D] else [])))"

text \<open>The arguments are words or strings; a conversion without an argument of its kind reads memory that is not
  an argument.\<close>

datatype uarg = U_int uint | U_str "uchar list option"

text \<open>One conversion: the text and the arguments left.\<close>

definition u_conv :: "uchar \<Rightarrow> uarg list \<Rightarrow> (uchar list \<times> uarg list) option" where
  "u_conv c args =
     (if c = 0x64 then
        (case args of U_int x # args \<Rightarrow> Some (u_printint64 (ucast x) 10 True, args) | _ \<Rightarrow> None)
      else if c = 0x78 \<or> c = 0x70 then
        (case args of U_int x # args \<Rightarrow> Some (u_printint x 16 False, args) | _ \<Rightarrow> None)
      else if c = 0x73 then
        (case args of
           U_str None # args \<Rightarrow> Some (ustr ''(null)'', args)
         | U_str (Some s) # args \<Rightarrow> Some (s, args)
         | _ \<Rightarrow> None)
      else if c = 0x63 then
        (case args of U_int x # args \<Rightarrow> Some ([ucast x], args) | _ \<Rightarrow> None)
      else if c = 0x25 then Some ([c], args)
      else Some ([0x25, c], args))"

text \<open>The loop of \<open>printf\<close> and \<open>fprintf\<close>; the flag is the variable \<open>state\<close>.\<close>

primrec u_format :: "bool \<Rightarrow> uchar list \<Rightarrow> uarg list \<Rightarrow> uchar list option" where
  "u_format st [] args = Some []"
| "u_format st (c # fmt) args =
     (if \<not> st then
        if c = 0x25 then u_format True fmt args
        else map_option (\<lambda>out. c # out) (u_format False fmt args)
      else
        case u_conv c args of
          None \<Rightarrow> None
        | Some (out, args) \<Rightarrow> map_option (\<lambda>outs. out @ outs) (u_format False fmt args))"

text \<open>\<open>printf\<close> writes to the descriptor of \<open>stdout\<close>, \<open>fprintf\<close> to that of its file; the result is the
  descriptor with the text.\<close>

definition u_printf :: "uchar list \<Rightarrow> uarg list \<Rightarrow> (int \<times> uchar list) option" where
  "u_printf fmt args = map_option (\<lambda>out. (1, out)) (u_format False fmt args)"

definition u_fprintf :: "int \<Rightarrow> uchar list \<Rightarrow> uarg list \<Rightarrow> (int \<times> uchar list) option" where
  "u_fprintf fd fmt args = map_option (\<lambda>out. (fd, out)) (u_format False fmt args)"

section \<open>Properties\<close>

lemma digit_of_udigits: "d < 16 \<Longrightarrow> digit_of (udigits ! d) = Some d"
proof -
  have "\<forall>d \<in> set [0..<16]. digit_of (udigits ! d) = Some d" by code_simp
  then show "d < 16 \<Longrightarrow> digit_of (udigits ! d) = Some d" by simp
qed

lemma digit_string_append:
  "digit_string base (p @ [c]) =
     (case digit_string base p of None \<Rightarrow> None | Some ds \<Rightarrow>
        case digit_of c of None \<Rightarrow> None | Some d \<Rightarrow> if d < base then Some (ds @ [d]) else None)"
  by (induction p) (auto simp: digit_string_def split: option.splits)

lemma udigit_loop_value:
  assumes "2 \<le> base" and "base \<le> 16"
  shows "\<exists>ds. digit_string base (rev (udigit_loop base x)) = Some ds \<and> digits_val base ds = x"
proof (induction x rule: less_induct)
  case (less x)
  have m: "x mod base < base" using assms by simp
  then have v: "digit_of (udigits ! (x mod base)) = Some (x mod base)"
    using m assms by (intro digit_of_udigits) linarith
  show ?case
  proof (cases "x div base = 0")
    case True
    then have "x mod base = x" using assms by (simp add: div_eq_0_iff)
    with True v m assms show ?thesis
      by (subst udigit_loop.simps) (simp add: digit_string_def digits_val_def)
  next
    case False
    then have "x div base < x" using assms by (auto intro: div_less_dividend simp: div_greater_zero_iff)
    then obtain ds where ds: "digit_string base (rev (udigit_loop base (x div base))) = Some ds"
      "digits_val base ds = x div base" using less by blast
    have "digits_val base (ds @ [x mod base]) = x" using ds(2) by (simp add: digits_val_def)
    moreover have "digit_string base (rev (udigit_loop base x)) = Some (ds @ [x mod base])"
      using False assms ds v m by (subst udigit_loop.simps) (simp add: digit_string_append)
    ultimately show ?thesis by blast
  qed
qed

text \<open>A word that was extended with zeros to 64 bits.\<close>

lemma extended_word: "(ucast (ucast (x :: uint) :: uquad) :: uint) = x" "\<not> sint (ucast x :: uquad) < 0"
proof -
  show "(ucast (ucast x :: uquad) :: uint) = x" by (rule bit_word_eqI) (simp add: bit_simps)
  have "\<not> bit x 63" using bit_imp_le_length [of x 63] by auto
  then show "\<not> sint (ucast x :: uquad) < 0" by (simp add: sint_uint bit_simps)
qed

text \<open>C36. What \<open>%x\<close> prints for a word is read back by \<open>atob\<close> in base 16, and what \<open>%d\<close> prints is read back
  in base 10.\<close>

theorem printf_atob:
  "(\<exists>out. u_printf [0x25, 0x78] [U_int x] = Some (1, out) \<and> atob out 16 = Some x) \<and>
   (\<exists>out. u_printf [0x25, 0x64] [U_int x] = Some (1, out) \<and> atob out 10 = Some x)"
proof -
  have b: "atob (rev (udigit_loop base (unat x))) base = Some x" if bs: "2 \<le> base" "base \<le> 16" for base
  proof -
    obtain ds where "digit_string base (rev (udigit_loop base (unat x))) = Some ds" "digits_val base ds = unat x"
      using udigit_loop_value [OF bs] by blast
    then have "atob_quad (rev (udigit_loop base (unat x))) base = Some (of_nat (unat x))"
      using atob_quad_digits by simp
    then show ?thesis using bs by (simp add: atob_def extended_word)
  qed
  show ?thesis using b [of 10] b [of 16] extended_word [of x]
    by (simp add: u_printf_def u_conv_def u_printint_def u_printint64_def Let_def)
qed

lemma udigit_loop_chars: "2 \<le> base \<Longrightarrow> base \<le> 16 \<Longrightarrow> 0x2D \<notin> set (udigit_loop base x)"
proof -
  assume b: "2 \<le> base" "base \<le> 16"
  then obtain ds where "digit_string base (rev (udigit_loop base x)) = Some ds" using udigit_loop_value by blast
  then have "digit_of c \<noteq> None" if "c \<in> set (udigit_loop base x)" for c
    using digit_string_digits that by fastforce
  moreover have "digit_of 0x2D = None" by (simp add: digit_of_def)
  ultimately show ?thesis by blast
qed

text \<open>C40. \<open>%d\<close> prints a negative argument as if it were unsigned: the word is extended with zeros before it
  is passed to \<open>printint64\<close>, so that the sign test always fails and no minus sign is printed.\<close>

theorem printf_d_negative:
  assumes "sint x < 0"
  shows "\<exists>out. u_printf [0x25, 0x64] [U_int x] = Some (1, out) \<and> 0x2D \<notin> set out \<and>
    out = u_printint x 10 False \<and> hd (u_printint x 10 True) = 0x2D"
  using assms udigit_loop_chars [of 10] extended_word [of x]
  by (simp add: u_printf_def u_conv_def u_printint_def u_printint64_def Let_def)

theorem printf_d_negative_witness:
  "\<exists>out. u_printf [0x25, 0x64] [U_int (- 1)] = Some (1, out) \<and> 0x2D \<notin> set out \<and>
    out = u_printint (- 1) 10 False \<and> hd (u_printint (- 1) 10 True) = 0x2D"
  by (rule printf_d_negative) simp

end
