(* ===== verification/Grep.thy ===== *)
theory Grep
  imports User_Io
begin

text \<open>
  The matcher and the line loop of userspace/grep.c. A pattern and a text are the bytes before their
  NUL.
\<close>

section \<open>The matcher\<close>

text \<open>\<open>matchstar\<close> gets the pattern after the star. In the code \<open>*text++==c || c=='.'\<close> moves on
  either way, so the loop goes on when the character is \<open>c\<close> or \<open>c\<close> is the dot.\<close>

function (sequential) matchhere :: "uchar list \<Rightarrow> uchar list \<Rightarrow> bool"
    and matchstar :: "uchar \<Rightarrow> uchar list \<Rightarrow> uchar list \<Rightarrow> bool" where
  "matchhere [] text = True"
| "matchhere (r # re) text =
     (if re \<noteq> [] \<and> hd re = 0x2A then matchstar r (tl re) text
      else if r = 0x24 \<and> re = [] then text = []
      else if text \<noteq> [] \<and> (r = 0x2E \<or> r = hd text) then matchhere re (tl text)
      else False)"
| "matchstar c re text =
     (if matchhere re text then True
      else if text \<noteq> [] \<and> (hd text = c \<or> c = 0x2E) then matchstar c re (tl text)
      else False)"
  by pat_completeness auto

termination
  by (relation "measures [\<lambda>x. case x of Inl (re, text) \<Rightarrow> 2 * length re | Inr (c, re, text) \<Rightarrow> 2 * length re + 1,
      \<lambda>x. case x of Inl (re, text) \<Rightarrow> length text | Inr (c, re, text) \<Rightarrow> length text]") auto

declare matchstar.simps [simp del]

text \<open>The \<open>do\<close> loop of \<open>match\<close>.\<close>

primrec match_loop :: "uchar list \<Rightarrow> uchar list \<Rightarrow> bool" where
  "match_loop re [] = matchhere re []"
| "match_loop re (t # text) = (matchhere re (t # text) \<or> match_loop re text)"

definition match :: "uchar list \<Rightarrow> uchar list \<Rightarrow> bool" where
  "match re text = (if re \<noteq> [] \<and> hd re = 0x5E then matchhere (tl re) text else match_loop re text)"

section \<open>The language of a pattern\<close>

text \<open>A character, the dot, or a repetition of one of them.\<close>

datatype item = One uchar | Star uchar

primrec item_lang :: "item \<Rightarrow> uchar list set" where
  "item_lang (One r) = {[c] |c. r = 0x2E \<or> r = c}"
| "item_lang (Star r) = {u. \<forall>c \<in> set u. c = r \<or> r = 0x2E}"

primrec items_lang :: "item list \<Rightarrow> uchar list set" where
  "items_lang [] = {[]}"
| "items_lang (i # is) = {u @ v |u v. u \<in> item_lang i \<and> v \<in> items_lang is}"

text \<open>The items of a pattern, and whether it ends with the anchor \<open>$\<close>.\<close>

fun parse_re :: "uchar list \<Rightarrow> item list \<times> bool" where
  "parse_re [] = ([], False)"
| "parse_re [r] = (if r = 0x24 then ([], True) else ([One r], False))"
| "parse_re (r # s # re) =
     (if s = 0x2A then (case parse_re re of (is, e) \<Rightarrow> (Star r # is, e))
      else (case parse_re (s # re) of (is, e) \<Rightarrow> (One r # is, e)))"

text \<open>A prefix of the text is in the language, or the whole text when the end is anchored.\<close>

definition matches_at :: "uchar list \<Rightarrow> uchar list \<Rightarrow> bool" where
  "matches_at re text = (case parse_re re of (is, e) \<Rightarrow>
     \<exists>u v. text = u @ v \<and> u \<in> items_lang is \<and> (e \<longrightarrow> v = []))"

definition items_at :: "item list \<Rightarrow> bool \<Rightarrow> uchar list \<Rightarrow> bool" where
  "items_at is e text = (\<exists>u v. text = u @ v \<and> u \<in> items_lang is \<and> (e \<longrightarrow> v = []))"

lemma items_at_Cons: "items_at (i # is) e s = (\<exists>u v. s = u @ v \<and> u \<in> item_lang i \<and> items_at is e v)"
proof
  assume "items_at (i # is) e s"
  then obtain x w where x: "s = x @ w" "x \<in> items_lang (i # is)" "e \<longrightarrow> w = []"
    unfolding items_at_def by blast
  then obtain u v where "x = u @ v" "u \<in> item_lang i" "v \<in> items_lang is" by auto
  with x have "s = u @ v @ w" "u \<in> item_lang i" "v \<in> items_lang is" "e \<longrightarrow> w = []" by simp_all
  then show "\<exists>u v. s = u @ v \<and> u \<in> item_lang i \<and> items_at is e v"
    unfolding items_at_def by (intro exI [of _ u] exI [of _ "v @ w"]) auto
next
  assume "\<exists>u v. s = u @ v \<and> u \<in> item_lang i \<and> items_at is e v"
  then obtain u v w where "s = u @ v @ w" "u \<in> item_lang i" "v \<in> items_lang is" "e \<longrightarrow> w = []"
    unfolding items_at_def by auto
  then show "items_at (i # is) e s"
    unfolding items_at_def by (intro exI [of _ "u @ v"] exI [of _ w]) auto
qed

lemma items_at_Nil: "items_at [] e s = (e \<longrightarrow> s = [])"
  by (simp add: items_at_def)

lemma items_at_One:
  "items_at (One r # is) e s = (s \<noteq> [] \<and> (r = 0x2E \<or> r = hd s) \<and> items_at is e (tl s))"
proof (cases s)
  case (Cons c cs)
  have "(\<exists>u v. s = u @ v \<and> u \<in> item_lang (One r) \<and> items_at is e v) \<longleftrightarrow> (r = 0x2E \<or> r = c) \<and> items_at is e cs"
  proof
    assume "(r = 0x2E \<or> r = c) \<and> items_at is e cs"
    then show "\<exists>u v. s = u @ v \<and> u \<in> item_lang (One r) \<and> items_at is e v"
      using Cons by (intro exI [of _ "[c]"] exI [of _ cs]) auto
  qed (use Cons in auto)
  then show ?thesis unfolding items_at_Cons by (simp add: Cons)
qed (auto simp: items_at_Cons)

lemma items_at_Star:
  "items_at (Star r # is) e s =
     (items_at is e s \<or> s \<noteq> [] \<and> (hd s = r \<or> r = 0x2E) \<and> items_at (Star r # is) e (tl s))"
  (is "?l = ?r")
proof
  assume ?l
  then obtain u v where u: "s = u @ v" "u \<in> item_lang (Star r)" "items_at is e v" unfolding items_at_Cons by auto
  then show ?r unfolding items_at_Cons by (cases u) auto
next
  assume r: ?r
  show ?l
  proof (cases "items_at is e s")
    case True
    then show ?thesis unfolding items_at_Cons by (intro exI [of _ "[]"] exI [of _ s]) simp
  next
    case False
    with r obtain c cs u v where "s = c # cs" "c = r \<or> r = 0x2E" "cs = u @ v" "u \<in> item_lang (Star r)" "items_at is e v"
      unfolding items_at_Cons by (cases s) auto
    then show ?thesis unfolding items_at_Cons by (intro exI [of _ "c # u"] exI [of _ v]) auto
  qed
qed

lemma matches_at_items: "matches_at re s = items_at (fst (parse_re re)) (snd (parse_re re)) s"
  by (simp add: matches_at_def items_at_def split: prod.split)

lemma matchhere_items:
  "matchhere re s = items_at (fst (parse_re re)) (snd (parse_re re)) s"
  "matchstar c re s = items_at (Star c # fst (parse_re re)) (snd (parse_re re)) s"
proof (induction re s and c re s rule: matchhere_matchstar.induct)
  case (1 s)
  then show ?case by (simp add: items_at_Nil)
next
  case (2 r re s)
  show ?case
  proof (cases re)
    case Nil
    then show ?thesis by (cases s) (auto simp: items_at_Nil items_at_One)
  next
    case (Cons q re')
    then show ?thesis using 2 by (cases s) (auto simp: items_at_Nil items_at_One split: prod.split)
  qed
next
  case (3 c re s)
  then show ?case by (subst matchstar.simps, subst items_at_Star) auto
qed

text \<open>C32. The matcher of \<open>grep\<close> terminates on every pattern and text, and decides the language of the
  pattern: with \<open>^\<close> the pattern must match from the start of the line, without it from some position on,
  and a final \<open>$\<close> asks for the end of the line.\<close>

theorem grep_match_language:
  "match re s \<longleftrightarrow>
     (if re \<noteq> [] \<and> hd re = 0x5E then matches_at (tl re) s else \<exists>k \<le> length s. matches_at re (drop k s))"
proof -
  have "match_loop re s \<longleftrightarrow> (\<exists>k \<le> length s. matchhere re (drop k s))"
  proof (induction s)
    case (Cons c s)
    have "(\<exists>k \<le> length (c # s). matchhere re (drop k (c # s))) \<longleftrightarrow>
        matchhere re (c # s) \<or> (\<exists>k \<le> length s. matchhere re (drop k s))"
      (is "?l \<longleftrightarrow> ?r")
    proof
      assume ?l
      then obtain k where "k \<le> length (c # s)" "matchhere re (drop k (c # s))" by blast
      then show ?r by (cases k) auto
    next
      assume ?r
      then show ?l by (metis drop0 drop_Suc_Cons le0 length_Cons Suc_le_mono)
    qed
    with Cons show ?case by simp
  qed simp
  then show ?thesis unfolding match_def matches_at_items matchhere_items by (cases "re = []") simp_all
qed

section \<open>The line loop\<close>

text \<open>\<open>buf\<close> is a global array of 1024 bytes that is never terminated by a NUL of its own. The result of
  \<open>strchr(p, '\n')\<close> is \<open>None\<close> when it leaves the array before it finds a newline or a NUL.\<close>

definition strchr_nl :: "uchar list \<Rightarrow> nat \<Rightarrow> nat option option" where
  "strchr_nl buf p =
     map_option (\<lambda>q. if buf ! q = 0x0A then Some q else None)
       (find (\<lambda>i. buf ! i = 0 \<or> buf ! i = 0x0A) [p..<length buf])"

lemma strchr_nl_bounds: "strchr_nl buf p = Some (Some q) \<Longrightarrow> p \<le> q \<and> q < length buf"
  by (auto simp: strchr_nl_def split: if_splits dest!: find_SomeD)

text \<open>The inner loop from \<open>p\<close> on: the buffer and the pointer when it ends, and what it writes. A newline is
  replaced by a NUL and put back when the line matches.\<close>

function grep_lines :: "uchar list \<Rightarrow> uchar list \<Rightarrow> nat \<Rightarrow> (uchar list \<times> nat \<times> uchar list) option" where
  "grep_lines pattern buf p =
     (case strchr_nl buf p of
        None \<Rightarrow> None
      | Some None \<Rightarrow> Some (buf, p, [])
      | Some (Some q) \<Rightarrow>
          let line = take (q - p) (drop p buf);
              found = match pattern line
          in Option.bind (grep_lines pattern (if found then buf else buf[q := 0]) (q + 1)) (\<lambda>(buf, p, out).
             Some (buf, p, (if found then line @ [0x0A] else []) @ out)))"
  by auto

termination
  by (relation "measure (\<lambda>(_, buf, p). length buf - p)") (auto dest: strchr_nl_bounds)

declare grep_lines.simps [simp del]

text \<open>The outer loop. \<open>m\<close> is negative when the inner loop has gone past the data into older bytes of the
  buffer, and a read then stores in front of the buffer; the result \<open>None\<close> stands for an access outside
  \<open>buf\<close>.\<close>

function grep_loop :: "uchar list \<Rightarrow> uchar list \<Rightarrow> int \<Rightarrow> instream \<Rightarrow> uchar list option" where
  "grep_loop pattern buf m fd =
     (case u_read (nat (1024 - m)) fd of (n, bs, fd) \<Rightarrow>
        if n \<le> 0 then Some []
        else if m < 0 then None
        else
          let buf = take (nat m) buf @ bs @ drop (nat m + length bs) buf;
              m = m + n
          in Option.bind (grep_lines pattern buf 0) (\<lambda>(buf, p, out).
             let m = (if p = 0 then 0 else m);
                 m' = (if m > 0 then m - int p else m);
                 buf = (if m > 0 then take (nat m') (drop p buf) @ drop (nat m') buf else buf)
             in map_option (\<lambda>outs. out @ outs) (grep_loop pattern buf m' fd)))"
  by auto

termination
  by (relation "measure (\<lambda>(_, _, _, fd). in_size fd)") (auto dest: u_read_progress(1) [OF sym])

declare grep_loop.simps [simp del]

definition grep :: "uchar list \<Rightarrow> instream \<Rightarrow> uchar list option" where
  "grep pattern fd = grep_loop pattern (replicate 1024 0) 0 fd"

section \<open>Correctness of the line loop\<close>

definition plain :: "uchar list \<Rightarrow> bool" where
  "plain l \<longleftrightarrow> 0 \<notin> set l \<and> 0x0A \<notin> set l"

definition unlines :: "uchar list list \<Rightarrow> uchar list" where
  "unlines ls = concat (map (\<lambda>l. l @ [0x0A]) ls)"

lemma unlines_simps [simp]: "unlines [] = []" "unlines (l # ls) = l @ 0x0A # unlines ls"
  by (simp_all add: unlines_def)

lemma strchr_nl_plain:
  assumes "plain l" and "drop p buf = l @ c # zs" and "c = 0 \<or> c = 0x0A"
  shows "strchr_nl buf p = Some (if c = 0x0A then Some (p + length l) else None)"
proof -
  let ?q = "p + length l"
  have p: "p < length buf" using assms(2) by (metis drop_all not_less append_is_Nil_conv list.distinct(1))
  have n: "buf ! (p + i) = (l @ c # zs) ! i" for i using nth_drop [of p buf i] p assms(2) by simp
  have len: "length buf = p + length (l @ c # zs)" using assms(2) p by (metis add_diff_inverse_nat length_drop not_less order_less_imp_le)
  have c: "buf ! ?q = c" using n [of "length l"] by simp
  have l: "\<not> (buf ! i = 0 \<or> buf ! i = 0x0A)" if "p \<le> i" "i < ?q" for i
  proof -
    have i: "i - p < length l" using that by linarith
    then have "buf ! i = l ! (i - p)" using n [of "i - p"] that(1) by (simp add: nth_append)
    moreover have "l ! (i - p) \<in> set l" using i by (rule nth_mem)
    ultimately show ?thesis using assms(1) by (auto simp: plain_def)
  qed
  have "[p..<length buf] = [p..<?q] @ ?q # [Suc ?q..<length buf]" by (rule upt_split_at) (simp_all add: len)
  moreover have "find (\<lambda>i. buf ! i = 0 \<or> buf ! i = 0x0A) [p..<?q] = None" using l by (simp add: find_None_iff)
  ultimately have "find (\<lambda>i. buf ! i = 0 \<or> buf ! i = 0x0A) [p..<length buf] = Some ?q"
    using c assms(3) by (simp add: find_append)
  then show ?thesis using c assms(3) by (auto simp: strchr_nl_def)
qed

text \<open>The bytes that the loop leaves in place of a line, and what it writes.\<close>

definition left_over :: "uchar list \<Rightarrow> uchar list \<Rightarrow> uchar list" where
  "left_over re l = l @ [if match re l then 0x0A else 0]"

lemma grep_lines_data:
  assumes "drop p buf = unlines ls @ r @ 0 # zs" and "\<forall>l \<in> set ls. plain l" and "plain r"
  shows "grep_lines re buf p =
    Some (take p buf @ concat (map (left_over re) ls) @ r @ 0 # zs, p + length (unlines ls), unlines (filter (match re) ls))"
  using assms
proof (induction ls arbitrary: p buf)
  case Nil
  then have "strchr_nl buf p = Some None" using strchr_nl_plain [of r p buf 0 zs] by simp
  then show ?case using Nil by (subst grep_lines.simps) (metis (no_types, lifting) add_0_right append_Nil append_take_drop_id
        concat.simps(1) filter.simps(1) list.map(1) list.size(3) option.simps(4,5) unlines_simps(1))
next
  case (Cons l ls)
  let ?q = "p + length l"
  have d: "drop p buf = l @ 0x0A # unlines ls @ r @ 0 # zs" using Cons.prems(1) by simp
  have q: "strchr_nl buf p = Some (Some ?q)" using strchr_nl_plain [OF _ d] Cons.prems(2) by simp
  have line: "take (?q - p) (drop p buf) = l" by (simp add: d)
  let ?buf = "if match re l then buf else buf[?q := 0]"
  have plen: "p \<le> length buf" using d by (metis drop_all nat_le_linear append_is_Nil_conv list.distinct(1))
  have b: "buf = take p buf @ l @ 0x0A # unlines ls @ r @ 0 # zs" using d by (metis append_take_drop_id)
  have b': "?buf = take p buf @ left_over re l @ unlines ls @ r @ 0 # zs"
    using plen by (subst (1 2) b) (simp add: left_over_def list_update_append)
  then have "drop (?q + 1) ?buf = unlines ls @ r @ 0 # zs" "take (?q + 1) ?buf = take p buf @ left_over re l"
    using plen by (simp_all add: left_over_def)
  with Cons show ?case
    by (subst grep_lines.simps) (simp add: q line Let_def)
qed



text \<open>One round of the outer loop, when the buffer after the read holds lines, a rest and a NUL.\<close>

lemma grep_round:
  assumes "0 \<le> m" and "c \<noteq> []" and "length c \<le> nat (1024 - m)"
    and "take (nat m) buf @ c @ drop (nat m + length c) buf = unlines ls @ r @ 0 # zs"
    and "ls \<noteq> []" and "\<forall>l \<in> set ls. plain l" and "plain r"
  shows "grep_loop re buf m (In_pieces (c # cs)) =
    map_option (\<lambda>outs. unlines (filter (match re) ls) @ outs)
      (let p = length (unlines ls);
           m' = m + int (length c) - int p;
           buf' = concat (map (left_over re) ls) @ r @ 0 # zs
       in grep_loop re (take (nat m') (drop p buf') @ drop (nat m') buf') m' (In_pieces cs))"
proof -
  have "grep_lines re (take (nat m) buf @ c @ drop (nat m + length c) buf) 0 =
     Some (concat (map (left_over re) ls) @ r @ 0 # zs, length (unlines ls), unlines (filter (match re) ls))"
    unfolding assms(4) using grep_lines_data [of 0 "unlines ls @ r @ 0 # zs" ls r zs re] assms by simp
  moreover have "length (unlines ls) \<noteq> 0" using assms(5) by (cases ls) simp_all
  moreover have "0 < m + int (length c)" using assms(1,2) by (simp add: add_nonneg_pos)
  ultimately show ?thesis
    using assms(1-3) by (subst grep_loop.simps) (simp add: Let_def)
qed


end
