(* ===== verification/Filters.thy ===== *)
theory Filters
  imports Printf Grep
begin

text \<open>
  The filters userspace/cat.c, wc.c, head.c and tail.c. A program gives the bytes it writes to its standard
  output; \<open>head\<close> and \<open>tail\<close> share with \<open>grep\<close> the buffer that is searched for newlines without being
  terminated after a read, and the result \<open>None\<close> stands again for an access outside the buffer.
\<close>

section \<open>cat\<close>

function cat_loop :: "instream \<Rightarrow> uchar list" where
  "cat_loop fd =
     (case u_read 512 fd of (n, bs, fd) \<Rightarrow>
        if n > 0 then bs @ cat_loop fd
        else if n < 0 then ustr ''cat: read error'' @ [0x0A]
        else [])"
  by auto

termination
  by (relation "measure in_size") (auto dest: u_read_progress(1) [OF sym])

declare cat_loop.simps [simp del]

text \<open>The descriptor of a file that could not be opened is \<open>In_closed\<close>: the test of \<open>main\<close> for \<open>file < 0\<close>
  never holds of a pointer.\<close>

definition cat_main :: "instream \<Rightarrow> instream list \<Rightarrow> uchar list" where
  "cat_main stdin files = (if files = [] then cat_loop stdin else concat (map cat_loop files))"

lemma cat_loop_copies: "cat_loop (In_pieces cs) = in_data cs"
proof (induction "in_size (In_pieces cs)" arbitrary: cs rule: less_induct)
  case less
  obtain n bs fd where r: "u_read 512 (In_pieces cs) = (n, bs, fd)" by (cases "u_read 512 (In_pieces cs)") auto
  show ?case
  proof (cases "0 < n")
    case True
    then show ?thesis using u_read_progress(1,5) [OF r] less by (subst cat_loop.simps) (auto simp: r)
  next
    case False
    then show ?thesis using u_read_stops(1) [OF r] by (subst cat_loop.simps) (auto simp: r)
  qed
qed

section \<open>wc\<close>

text \<open>The variables \<open>l\<close>, \<open>w\<close>, \<open>c\<close> and \<open>inword\<close>.\<close>

type_synonym counts = "uint \<times> uint \<times> uint \<times> bool"

fun wc_char :: "uchar \<Rightarrow> counts \<Rightarrow> counts" where
  "wc_char b (l, w, c, inword) =
     (let c = c + 1;
          l = (if b = 0x0A then l + 1 else l)
      in if u_strchr [0x20, 0x0D, 0x09, 0x0A, 0x0B] b \<noteq> None then (l, w, c, False)
         else if \<not> inword then (l, w + 1, c, True)
         else (l, w, c, inword))"

function wc_loop :: "instream \<Rightarrow> counts \<Rightarrow> counts option" where
  "wc_loop fd k =
     (case u_read 512 fd of (n, bs, fd) \<Rightarrow>
        if n > 0 then wc_loop fd (fold wc_char bs k)
        else if n < 0 then None
        else Some k)"
  by auto

termination
  by (relation "measure (\<lambda>(fd, _). in_size fd)") (auto dest: u_read_progress(1) [OF sym])

declare wc_loop.simps [simp del]

text \<open>The text that is printed, and whether the program goes on with the next file.\<close>

definition wc :: "instream \<Rightarrow> uchar list \<Rightarrow> uchar list option \<times> bool" where
  "wc fd name =
     (case wc_loop fd (0, 0, 0, False) of
        None \<Rightarrow> (u_format False (ustr ''wc: read error'' @ [0x0A]) [], False)
      | Some (l, w, c, _) \<Rightarrow>
          (u_format False (ustr ''%d %d %d %s'' @ [0x0A]) [U_int l, U_int w, U_int c, U_str (Some name)], True))"

text \<open>The loop of \<open>main\<close> over the names with the files they open, \<open>None\<close> when there is none.\<close>

primrec wc_files :: "(uchar list \<times> instream option) list \<Rightarrow> uchar list option" where
  "wc_files [] = Some []"
| "wc_files (f # fs) =
     (case f of
        (name, None) \<Rightarrow> u_format False (ustr ''wc: cannot open %s'' @ [0x0A]) [U_str (Some name)]
      | (name, Some fd) \<Rightarrow>
          (case wc fd name of (out, more) \<Rightarrow>
             Option.bind out (\<lambda>out. if more then map_option (\<lambda>outs. out @ outs) (wc_files fs) else Some out)))"

definition wc_main :: "instream \<Rightarrow> (uchar list \<times> instream option) list \<Rightarrow> uchar list option" where
  "wc_main stdin fs = (if fs = [] then fst (wc stdin []) else wc_files fs)"

text \<open>What there is to count: a word is a maximal run of bytes that are not blank.\<close>

definition blank :: "uchar \<Rightarrow> bool" where
  "blank b \<longleftrightarrow> b \<in> {0x20, 0x0D, 0x09, 0x0A, 0x0B}"

definition word_starts :: "uchar list \<Rightarrow> nat set" where
  "word_starts d = {i. i < length d \<and> \<not> blank (d ! i) \<and> (i = 0 \<or> blank (d ! (i - 1)))}"

lemma strchr_blank: "u_strchr [0x20, 0x0D, 0x09, 0x0A, 0x0B] b \<noteq> None \<longleftrightarrow> blank b"
  by (auto simp: blank_def)

lemma word_starts_snoc:
  "word_starts (d @ [b]) = word_starts d \<union> (if \<not> blank b \<and> (d = [] \<or> blank (last d)) then {length d} else {})"
  by (cases "d = []") (auto simp: word_starts_def nth_append last_conv_nth less_Suc_eq)

lemma wc_fold:
  "fold wc_char d (0, 0, 0, False) =
     (of_nat (count_list d 0x0A), of_nat (card (word_starts d)), of_nat (length d), d \<noteq> [] \<and> \<not> blank (last d))"
proof (induction d rule: rev_induct)
  case (snoc b d)
  have "finite (word_starts d)" "length d \<notin> word_starts d" by (simp_all add: word_starts_def)
  then show ?case using snoc strchr_blank [of b] by (auto simp: word_starts_snoc Let_def simp del: u_strchr.simps)
qed (simp add: word_starts_def)

lemma wc_loop_data: "wc_loop (In_pieces cs) k = Some (fold wc_char (in_data cs) k)"
proof (induction "in_size (In_pieces cs)" arbitrary: cs k rule: less_induct)
  case less
  obtain n bs fd where r: "u_read 512 (In_pieces cs) = (n, bs, fd)" by (cases "u_read 512 (In_pieces cs)") auto
  show ?case
  proof (cases "0 < n")
    case True
    then obtain ds where d: "fd = In_pieces ds" "in_size fd < in_size (In_pieces cs)" "in_data cs = bs @ in_data ds"
      using u_read_progress(1,5) [OF r] by auto
    then show ?thesis using True less [of ds "fold wc_char bs k"] by (subst wc_loop.simps) (simp add: r)
  next
    case False
    then show ?thesis using u_read_stops(1) [OF r] by (subst wc_loop.simps) (auto simp: r)
  qed
qed

text \<open>A decimal number.\<close>

definition decimal :: "uchar list \<Rightarrow> nat \<Rightarrow> bool" where
  "decimal t n \<longleftrightarrow> (\<exists>ds. digit_string 10 t = Some ds \<and> digits_val 10 ds = n)"

lemma printint64_decimal: "n < 2 ^ 32 \<Longrightarrow> decimal (u_printint64 (ucast (of_nat n :: uint)) 10 True) n"
  using udigit_loop_value [of 10 n] extended_word [of "of_nat n"]
  by (simp add: u_printint64_def Let_def decimal_def unat_of_nat)

lemma counts_small: "count_list d 0x0A \<le> length d" "card (word_starts d) \<le> length d"
  using card_mono [of "{..<length d}" "word_starts d"] by (auto simp: count_le_length word_starts_def)

text \<open>C34. \<open>wc\<close> prints the number of newlines, of words and of bytes of its input, in whatever pieces the input
  arrives. (The counters have 32 bits.)\<close>

theorem wc_counts:
  assumes "length (in_data cs) < 2 ^ 32"
  shows "\<exists>l w c. wc (In_pieces cs) name = (Some (l @ 0x20 # w @ 0x20 # c @ 0x20 # name @ [0x0A]), True) \<and>
    decimal l (count_list (in_data cs) 0x0A) \<and> decimal w (card (word_starts (in_data cs))) \<and>
    decimal c (length (in_data cs))"
proof -
  let ?d = "in_data cs"
  let ?t = "\<lambda>n. u_printint64 (ucast (of_nat n :: uint)) 10 True"
  have "wc (In_pieces cs) name = (Some (?t (count_list ?d 0x0A) @ 0x20 # ?t (card (word_starts ?d)) @ 0x20 #
      ?t (length ?d) @ 0x20 # name @ [0x0A]), True)"
    by (simp add: wc_def wc_loop_data wc_fold u_conv_def)
  moreover have "decimal (?t (count_list ?d 0x0A)) (count_list ?d 0x0A)" "decimal (?t (length ?d)) (length ?d)"
    "decimal (?t (card (word_starts ?d))) (card (word_starts ?d))"
    using assms counts_small [of ?d] by (intro printint64_decimal; linarith)+
  ultimately show ?thesis by blast
qed

theorem wc_counts_witness:
  "\<exists>l w c. wc (In_pieces [ustr ''one tw'', ustr ''o'' @ [0x0A]]) (ustr ''f'') =
     (Some (l @ 0x20 # w @ 0x20 # c @ 0x20 # ustr ''f'' @ [0x0A]), True) \<and> decimal c 8"
proof -
  let ?cs = "[ustr ''one tw'', ustr ''o'' @ [0x0A]]"
  have l: "length (in_data ?cs) = 8" by simp
  have "length (in_data ?cs) < 2 ^ 32" unfolding l by simp
  from wc_counts [OF this, of "ustr ''f''"] show ?thesis unfolding l by blast
qed

section \<open>head\<close>

text \<open>The inner loop of \<open>head\<close>: the buffer, the pointer and the count when it ends, and what it writes.\<close>

function head_lines :: "uchar list \<Rightarrow> nat \<Rightarrow> nat \<Rightarrow> (uchar list \<times> nat \<times> nat \<times> uchar list) option" where
  "head_lines buf p count =
     (case strchr_nl buf p of
        None \<Rightarrow> None
      | Some None \<Rightarrow> Some (buf, p, count, [])
      | Some (Some q) \<Rightarrow>
          let line = take (q + 1 - p) (drop p buf);
              buf = buf[q := 0];
              count = count + 1
          in if count = 10 then Some (buf, q + 1, count, line)
             else map_option (\<lambda>(buf, p, count, out). (buf, p, count, line @ out)) (head_lines buf (q + 1) count))"
  by auto

termination
  by (relation "measure (\<lambda>(buf, p, _). length buf - p)") (auto dest: strchr_nl_bounds)

declare head_lines.simps [simp del]

text \<open>What follows the inner loop in \<open>head\<close> and \<open>tail\<close>: the rest of the data moves to the front of the buffer.\<close>

definition keep_rest :: "uchar list \<Rightarrow> nat \<Rightarrow> int \<Rightarrow> uchar list \<times> int" where
  "keep_rest buf p m =
     (let m = (if p = 0 then 0 else m)
      in if m > 0
         then let m' = m - int p in (take (nat m') (drop p buf) @ drop (nat m') buf, m')
         else (buf, m))"

function head_loop :: "uchar list \<Rightarrow> int \<Rightarrow> nat \<Rightarrow> instream \<Rightarrow> uchar list option" where
  "head_loop buf m count fd =
     (case u_read (nat (1024 - m)) fd of (n, bs, fd) \<Rightarrow>
        if n \<le> 0 then Some []
        else if m < 0 then None
        else
          let buf = take (nat m) buf @ bs @ drop (nat m + length bs) buf
          in Option.bind (head_lines buf 0 count) (\<lambda>(buf, p, count, out).
             if count = 10 then Some out
             else case keep_rest buf p (m + n) of (buf, m) \<Rightarrow>
               map_option (\<lambda>outs. out @ outs) (head_loop buf m count fd)))"
  by auto

termination
  by (relation "measure (\<lambda>(_, _, _, fd). in_size fd)") (auto dest: u_read_progress(1) [OF sym])

declare head_loop.simps [simp del]

definition head :: "instream \<Rightarrow> uchar list option" where
  "head fd = head_loop (replicate 1024 0) 0 0 fd"

definition head_main :: "(uchar list \<times> instream option) list \<Rightarrow> uchar list option" where
  "head_main args =
     (case args of
        [] \<Rightarrow> u_format False (ustr ''usage: head filename ...'' @ [0x0A]) []
      | (name, None) # _ \<Rightarrow> u_format False (ustr ''head: cannot open %s'' @ [0x0A]) [U_str (Some name)]
      | (name, Some fd) # _ \<Rightarrow> head fd)"

section \<open>tail\<close>

text \<open>The two inner loops: the first counts, the second counts down and writes the lines from where \<open>count\<close> is
  below 10.\<close>

function tail_count :: "uchar list \<Rightarrow> nat \<Rightarrow> int \<Rightarrow> (uchar list \<times> nat \<times> int) option" where
  "tail_count buf p count =
     (case strchr_nl buf p of
        None \<Rightarrow> None
      | Some None \<Rightarrow> Some (buf, p, count)
      | Some (Some q) \<Rightarrow> tail_count (buf[q := 0]) (q + 1) (count + 1))"
  by auto

termination
  by (relation "measure (\<lambda>(buf, p, _). length buf - p)") (auto dest: strchr_nl_bounds)

declare tail_count.simps [simp del]

function tail_lines :: "uchar list \<Rightarrow> nat \<Rightarrow> int \<Rightarrow> (uchar list \<times> nat \<times> int \<times> uchar list) option" where
  "tail_lines buf p count =
     (case strchr_nl buf p of
        None \<Rightarrow> None
      | Some None \<Rightarrow> Some (buf, p, count, [])
      | Some (Some q) \<Rightarrow>
          let line = take (q + 1 - p) (drop p buf);
              count = count - 1
          in map_option (\<lambda>(buf, p, count', out). (buf, p, count', (if count < 10 then line else []) @ out))
               (tail_lines (buf[q := 0]) (q + 1) count))"
  by auto

termination
  by (relation "measure (\<lambda>(buf, p, _). length buf - p)") (auto dest: strchr_nl_bounds)

declare tail_lines.simps [simp del]

text \<open>The loops around them. The first leaves the buffer and the count.\<close>

function tail_loop1 :: "uchar list \<Rightarrow> int \<Rightarrow> int \<Rightarrow> instream \<Rightarrow> (uchar list \<times> int) option" where
  "tail_loop1 buf m count fd =
     (case u_read (nat (1024 - m)) fd of (n, bs, fd) \<Rightarrow>
        if n \<le> 0 then Some (buf, count)
        else if m < 0 then None
        else
          let buf = take (nat m) buf @ bs @ drop (nat m + length bs) buf
          in Option.bind (tail_count buf 0 count) (\<lambda>(buf, p, count).
             case keep_rest buf p (m + n) of (buf, m) \<Rightarrow> tail_loop1 buf m count fd))"
  by auto

termination
  by (relation "measure (\<lambda>(_, _, _, fd). in_size fd)") (auto dest: u_read_progress(1) [OF sym])

declare tail_loop1.simps [simp del]

function tail_loop2 :: "uchar list \<Rightarrow> int \<Rightarrow> int \<Rightarrow> instream \<Rightarrow> uchar list option" where
  "tail_loop2 buf m count fd =
     (case u_read (nat (1024 - m)) fd of (n, bs, fd) \<Rightarrow>
        if n \<le> 0 then Some []
        else if m < 0 then None
        else
          let buf = take (nat m) buf @ bs @ drop (nat m + length bs) buf
          in Option.bind (tail_lines buf 0 count) (\<lambda>(buf, p, count, out).
             case keep_rest buf p (m + n) of (buf, m) \<Rightarrow>
               map_option (\<lambda>outs. out @ outs) (tail_loop2 buf m count fd)))"
  by auto

termination
  by (relation "measure (\<lambda>(_, _, _, fd). in_size fd)") (auto dest: u_read_progress(1) [OF sym])

declare tail_loop2.simps [simp del]

text \<open>The copying loop of \<open>tail\<close> is that of \<open>cat\<close> with another buffer size and message.\<close>

function tail_copy :: "instream \<Rightarrow> uchar list" where
  "tail_copy fd =
     (case u_read 1024 fd of (n, bs, fd) \<Rightarrow>
        if n > 0 then bs @ tail_copy fd
        else if n < 0 then ustr ''tail: read error'' @ [0x0A]
        else [])"
  by auto

termination
  by (relation "measure in_size") (auto dest: u_read_progress(1) [OF sym])

declare tail_copy.simps [simp del]

text \<open>\<open>tail\<close> opens the file twice: the two results of \<open>open\<close>.\<close>

definition tail :: "uchar list \<Rightarrow> instream option \<Rightarrow> instream option \<Rightarrow> uchar list option" where
  "tail filepath fd1 fd2 =
     (case fd1 of
        None \<Rightarrow> u_format False (ustr ''tail: cannot open %s'' @ [0x0A]) [U_str (Some filepath)]
      | Some fd \<Rightarrow>
          Option.bind (tail_loop1 (replicate 1024 0) 0 0 fd) (\<lambda>(buf, count).
          case fd2 of
            None \<Rightarrow> u_format False (ustr ''tail: cannot open %s'' @ [0x0A]) [U_str (Some filepath)]
          | Some fd \<Rightarrow>
              if count \<le> 10 then Some (tail_copy fd) else tail_loop2 buf 0 count fd))"

section \<open>Short files\<close>

text \<open>The bytes that the loops leave in place of the lines.\<close>

definition cut_lines :: "uchar list list \<Rightarrow> uchar list" where
  "cut_lines ls = concat (map (\<lambda>l. l @ [0]) ls)"

text \<open>One turn of an inner loop on a buffer with a line at \<open>p\<close>.\<close>

lemma next_line:
  assumes "drop p buf = unlines (l # ls) @ rest" and "plain l"
  shows "strchr_nl buf p = Some (Some (p + length l))" "take (p + length l + 1 - p) (drop p buf) = l @ [0x0A]"
    "drop (p + length l + 1) (buf[p + length l := 0]) = unlines ls @ rest"
    "take (p + length l + 1) (buf[p + length l := 0]) = take p buf @ l @ [0]"
proof -
  have d: "drop p buf = l @ 0x0A # unlines ls @ rest" using assms(1) by simp
  have p: "p \<le> length buf" using d by (metis drop_all nat_le_linear append_is_Nil_conv list.distinct(1))
  have b: "buf = take p buf @ l @ 0x0A # unlines ls @ rest" using d by (metis append_take_drop_id)
  have b': "buf[p + length l := 0] = take p buf @ l @ 0 # unlines ls @ rest"
    using p by (subst b) (simp add: list_update_append)
  show "strchr_nl buf p = Some (Some (p + length l))" using strchr_nl_plain [OF assms(2) d] by simp
  show "take (p + length l + 1 - p) (drop p buf) = l @ [0x0A]" by (simp add: d)
  show "drop (p + length l + 1) (buf[p + length l := 0]) = unlines ls @ rest"
    "take (p + length l + 1) (buf[p + length l := 0]) = take p buf @ l @ [0]"
    using p unfolding b' by simp_all
qed

lemma last_line: "drop p buf = unlines [] @ r @ 0 # zs \<Longrightarrow> plain r \<Longrightarrow> strchr_nl buf p = Some None"
  using strchr_nl_plain [of r p buf 0 zs] by simp

lemma head_lines_data:
  assumes "drop p buf = unlines ls @ r @ 0 # zs" and "\<forall>l \<in> set ls. plain l" and "plain r" and "count < 10"
  shows "\<exists>buf' p' count'. head_lines buf p count = Some (buf', p', count', unlines (take (10 - count) ls))"
  using assms
proof (induction ls arbitrary: p buf count)
  case Nil
  then show ?case using last_line [OF Nil(1,3)] by (subst head_lines.simps) simp
next
  case (Cons l ls)
  note n = next_line [OF Cons.prems(1)]
  have l: "plain l" using Cons.prems(2) by simp
  have e: "take (10 - count) (l # ls) = l # take (10 - Suc count) ls" using Cons.prems(4) by (simp add: take_Cons' Suc_diff_Suc)
  show ?case
  proof (cases "Suc count = 10")
    case True
    then show ?thesis using n(1,2) [OF l] by (subst head_lines.simps) (simp add: e)
  next
    case False
    with Cons.prems(4) have "Suc count < 10" by simp
    then show ?thesis
      using Cons.IH [OF n(3) [OF l], of "Suc count"] Cons.prems(2,3) n(1,2) [OF l] False by (subst head_lines.simps) (auto simp: e)
  qed
qed

lemma tail_count_data:
  assumes "drop p buf = unlines ls @ r @ 0 # zs" and "\<forall>l \<in> set ls. plain l" and "plain r"
  shows "tail_count buf p count =
    Some (take p buf @ cut_lines ls @ r @ 0 # zs, p + length (unlines ls), count + int (length ls))"
  using assms
proof (induction ls arbitrary: p buf count)
  case Nil
  then show ?case using last_line [OF Nil(1,3)] append_take_drop_id [of p buf]
    by (subst tail_count.simps) (simp add: cut_lines_def)
next
  case (Cons l ls)
  have l: "plain l" using Cons.prems(2) by simp
  note n = next_line [OF Cons.prems(1) l]
  show ?case using Cons.IH [OF n(3)] Cons.prems(2,3) n(1,4) by (subst tail_count.simps) (simp add: cut_lines_def)
qed

lemma tail_lines_data:
  assumes "drop p buf = unlines ls @ r @ 0 # zs" and "\<forall>l \<in> set ls. plain l" and "plain r"
  shows "\<exists>buf' p' count'. tail_lines buf p count = Some (buf', p', count', unlines (drop (nat (count - 10)) ls))"
  using assms
proof (induction ls arbitrary: p buf count)
  case Nil
  then show ?case using last_line [OF Nil(1,3)] by (subst tail_lines.simps) simp
next
  case (Cons l ls)
  have l: "plain l" using Cons.prems(2) by simp
  note n = next_line [OF Cons.prems(1) l]
  obtain buf' p' count' where t: "tail_lines (buf[p + length l := 0]) (p + length l + 1) (count - 1) =
      Some (buf', p', count', unlines (drop (nat (count - 1 - 10)) ls))"
    using Cons.IH [OF n(3), of "count - 1"] Cons.prems(2,3) by auto
  have "drop (nat (count - 10)) (l # ls) = (if count - 1 < 10 then [l] else []) @ drop (nat (count - 1 - 10)) ls"
    by (auto simp: drop_Cons' nat_diff_distrib)
  then show ?case using n(1,2) t by (subst tail_lines.simps) simp
qed

lemma loops_end [simp]:
  "head_loop buf m count (In_pieces []) = Some []" "tail_loop1 buf m c (In_pieces []) = Some (buf, c)"
  "tail_loop2 buf m c (In_pieces []) = Some []"
  by (subst head_loop.simps tail_loop1.simps tail_loop2.simps; simp)+

lemma tail_copy_copies: "tail_copy (In_pieces cs) = in_data cs"
proof (induction "in_size (In_pieces cs)" arbitrary: cs rule: less_induct)
  case less
  obtain n bs fd where r: "u_read 1024 (In_pieces cs) = (n, bs, fd)" by (cases "u_read 1024 (In_pieces cs)") auto
  show ?case
  proof (cases "0 < n")
    case True
    then show ?thesis using u_read_progress(1,5) [OF r] less by (subst tail_copy.simps) (auto simp: r)
  next
    case False
    then show ?thesis using u_read_stops(1) [OF r] by (subst tail_copy.simps) (auto simp: r)
  qed
qed

lemma keep_rest_drop:
  "drop (length (unlines ls @ r)) (fst (keep_rest (cut_lines ls @ r @ zs) (length (unlines ls)) (int (length (unlines ls @ r))))) = zs"
proof -
  have l: "length (cut_lines ls) = length (unlines ls)" by (induction ls) (simp_all add: cut_lines_def)
  then show ?thesis by (cases "unlines ls @ r = []") (auto simp: keep_rest_def Let_def nat_add_distrib)
qed

text \<open>C35. On a file of fewer than 1024 bytes without a NUL \<open>head\<close> writes the first ten lines, and \<open>tail\<close> writes the
  whole file when it has at most ten lines and else the last ten lines. (An unfinished last line is not
  written by \<open>head\<close>, nor by \<open>tail\<close> when the file has more than ten lines.)\<close>

theorem head_tail_small_file:
  assumes "d = unlines ls @ r" and "\<forall>l \<in> set ls. plain l" and "plain r" and "length d < 1024"
  shows "head (In_pieces [d]) = Some (unlines (take 10 ls)) \<and>
    tail path (Some (In_pieces [d])) (Some (In_pieces [d])) =
      Some (if length ls \<le> 10 then d else unlines (drop (length ls - 10) ls))"
proof (cases "d = []")
  case True
  then have "ls = []" using assms(1) by (cases ls) auto
  with True show ?thesis unfolding head_def tail_def
    by (subst head_loop.simps, subst tail_loop1.simps) (simp add: tail_copy_copies)
next
  case False
  let ?z = "replicate (1023 - length d) (0 :: uchar)"
  have rep: "replicate (1024 - length d) (0 :: uchar) = 0 # ?z"
    using assms(4) by (simp add: replicate_Suc [symmetric] Suc_diff_le del: replicate_Suc)
  have d: "drop 0 (d @ 0 # ?z) = unlines ls @ r @ 0 # ?z" by (simp add: assms(1))
  have h: "head (In_pieces [d]) = Some (unlines (take 10 ls))"
    using head_lines_data [OF d assms(2,3), of 0] False assms(4) unfolding head_def
    by (subst head_loop.simps) (auto simp: rep split: prod.split)
  define buf where "buf = fst (keep_rest (cut_lines ls @ r @ 0 # ?z) (length (unlines ls)) (int (length d)))"
  have b: "tail_loop1 (replicate 1024 0) 0 0 (In_pieces [d]) = Some (buf, int (length ls))"
    using tail_count_data [OF d assms(2,3), of 0] False assms(4)
    by (subst tail_loop1.simps) (simp add: rep buf_def split: prod.split)
  have k: "drop (length d) buf = 0 # ?z" using keep_rest_drop [of ls r "0 # ?z"] by (simp add: buf_def assms(1))
  have n: "nat (int (length ls) - 10) = length ls - 10" by linarith
  have t: "tail_loop2 buf 0 (int (length ls)) (In_pieces [d]) = Some (unlines (drop (length ls - 10) ls))"
    using tail_lines_data [OF d assms(2,3), of "int (length ls)"] False assms(4)
    by (subst tail_loop2.simps) (auto simp: k n split: prod.split)
  show ?thesis using h t by (simp add: tail_def b tail_copy_copies False)
qed

theorem head_tail_small_file_witness:
  "head (In_pieces [unlines (replicate 12 (ustr ''ab'')) @ ustr ''c'']) = Some (unlines (replicate 10 (ustr ''ab''))) \<and>
   tail (ustr ''f'') (Some (In_pieces [unlines (replicate 12 (ustr ''ab'')) @ ustr ''c'']))
     (Some (In_pieces [unlines (replicate 12 (ustr ''ab'')) @ ustr ''c''])) = Some (unlines (replicate 10 (ustr ''ab'')))"
  using head_tail_small_file [OF refl, of "replicate 12 (ustr ''ab'')" "ustr ''c''" "ustr ''f''"]
  by (simp add: plain_def unlines_def length_concat sum_list_replicate)

end
