(* ===== verification/Umalloc.thy ===== *)
theory Umalloc
  imports Vm
begin

text \<open>
  The memory allocator of the C library (userspace/libc/umalloc.c). A header is known by its address; the
  fields \<open>ptr\<close> and \<open>size\<close> of all headers are two functions of the address. The address of the static
  header \<open>base\<close> and the answer of the kernel to \<open>sbrk\<close> are parameters. A walk along the list that does not end
  is the result \<open>None\<close>.
\<close>

section \<open>Operations\<close>

record heap =
  h_ptr :: "uint \<Rightarrow> uint"
  h_size :: "uint \<Rightarrow> uint"
  h_freep :: uint
  h_brk :: uint

definition set_ptr :: "uint \<Rightarrow> uint \<Rightarrow> heap \<Rightarrow> heap" where
  "set_ptr p v h = h\<lparr>h_ptr := (h_ptr h)(p := v)\<rparr>"

definition set_size :: "uint \<Rightarrow> uint \<Rightarrow> heap \<Rightarrow> heap" where
  "set_size p v h = h\<lparr>h_size := (h_size h)(p := v)\<rparr>"

text \<open>\<open>p + n\<close> for a pointer to a header, of 8 bytes.\<close>

definition hdr :: "uint \<Rightarrow> uint \<Rightarrow> uint" where
  "hdr p n = p + 8 * n"

text \<open>The loop of \<open>free\<close>.\<close>

partial_function (option) free_find :: "heap \<Rightarrow> uint \<Rightarrow> uint \<Rightarrow> uint option" where
  "free_find h bp p =
     (if p < bp \<and> bp < h_ptr h p then Some p
      else if h_ptr h p \<le> p \<and> (p < bp \<or> bp < h_ptr h p) then Some p
      else free_find h bp (h_ptr h p))"

definition join_right :: "uint \<Rightarrow> uint \<Rightarrow> heap \<Rightarrow> heap" where
  "join_right p bp h =
     (if hdr bp (h_size h bp) = h_ptr h p
      then let h = set_size bp (h_size h bp + h_size h (h_ptr h p)) h
           in set_ptr bp (h_ptr h (h_ptr h p)) h
      else set_ptr bp (h_ptr h p) h)"

definition join_left :: "uint \<Rightarrow> uint \<Rightarrow> heap \<Rightarrow> heap" where
  "join_left p bp h =
     (if hdr p (h_size h p) = bp
      then let h = set_size p (h_size h p + h_size h bp) h
           in set_ptr p (h_ptr h bp) h
      else set_ptr p bp h)"

definition u_free :: "uint \<Rightarrow> heap \<Rightarrow> heap option" where
  "u_free ap h =
     (let bp = ap - 8
      in Option.bind (free_find h bp (h_freep h)) (\<lambda>p.
         Some ((join_left p bp (join_right p bp h))\<lparr>h_freep := p\<rparr>)))"

text \<open>The system call: the old break, or \<open>None\<close> for \<open>(char* )-1\<close>. The kernel's answer is the parameter \<open>grant\<close>.\<close>

definition u_sbrk :: "(uint \<Rightarrow> uint \<Rightarrow> bool) \<Rightarrow> uint \<Rightarrow> heap \<Rightarrow> (uint \<times> heap) option" where
  "u_sbrk grant n h =
     (if grant (h_brk h) n then Some (h_brk h, h\<lparr>h_brk := h_brk h + n\<rparr>) else None)"

text \<open>The result is \<open>freep\<close>, or 0.\<close>

definition morecore :: "(uint \<Rightarrow> uint \<Rightarrow> bool) \<Rightarrow> uint \<Rightarrow> heap \<Rightarrow> (uint \<times> heap) option" where
  "morecore grant nu h =
     (let nu = (if nu < 4096 then 4096 else nu)
      in case u_sbrk grant (nu * 8) h of
           None \<Rightarrow> Some (0, h)
         | Some (hp, h) \<Rightarrow>
             map_option (\<lambda>h. (h_freep h, h)) (u_free (hdr hp 1) (set_size hp nu h)))"

text \<open>Taking \<open>nunits\<close> units of the block \<open>p\<close>.\<close>

definition take_block :: "uint \<Rightarrow> uint \<Rightarrow> uint \<Rightarrow> heap \<Rightarrow> uint \<times> heap" where
  "take_block nunits prevp p h =
     (if h_size h p = nunits
      then (hdr p 1, (set_ptr prevp (h_ptr h p) h)\<lparr>h_freep := prevp\<rparr>)
      else
        let h = set_size p (h_size h p - nunits) h;
            p = hdr p (h_size h p)
        in (hdr p 1, (set_size p nunits h)\<lparr>h_freep := prevp\<rparr>))"

partial_function (option) malloc_loop :: "(uint \<Rightarrow> uint \<Rightarrow> bool) \<Rightarrow> uint \<Rightarrow> uint \<Rightarrow> uint \<Rightarrow> heap \<Rightarrow> (uint \<times> heap) option" where
  "malloc_loop grant nunits prevp p h =
     (if nunits \<le> h_size h p then Some (take_block nunits prevp p h)
      else if p = h_freep h
      then Option.bind (morecore grant nunits h) (\<lambda>r.
             if fst r = 0 then Some (0, snd r)
             else malloc_loop grant nunits (fst r) (h_ptr (snd r) (fst r)) (snd r))
      else malloc_loop grant nunits p (h_ptr h p) h)"

definition u_malloc :: "(uint \<Rightarrow> uint \<Rightarrow> bool) \<Rightarrow> uint \<Rightarrow> uint \<Rightarrow> heap \<Rightarrow> (uint \<times> heap) option" where
  "u_malloc grant base nbytes h =
     (let nunits = (nbytes + 8 - 1) div 8 + 1;
          h = (if h_freep h = 0 then set_size base 0 ((set_ptr base base h)\<lparr>h_freep := base\<rparr>) else h)
      in malloc_loop grant nunits (h_freep h) (h_ptr h (h_freep h)) h)"

section \<open>The invariant\<close>

text \<open>The end of a block, and blocks that do not overlap.\<close>

definition end_of :: "heap \<Rightarrow> uint \<Rightarrow> nat" where
  "end_of h x = unat x + 8 * unat (h_size h x)"

definition layout :: "heap \<Rightarrow> nat \<Rightarrow> uint set \<Rightarrow> bool" where
  "layout h lo B \<longleftrightarrow> (\<forall>x\<in>B. lo \<le> unat x \<and> 0 < h_size h x \<and> end_of h x \<le> unat (h_brk h)) \<and>
     (\<forall>x\<in>B. \<forall>y\<in>B. x \<noteq> y \<longrightarrow> end_of h x \<le> unat y \<or> end_of h y \<le> unat x)"

text \<open>The pointers lead from each member of the list to the next.\<close>

definition linked :: "heap \<Rightarrow> uint list \<Rightarrow> bool" where
  "linked h xs \<longleftrightarrow> successively (\<lambda>x y. h_ptr h x = y) xs"

text \<open>The ring of the free blocks is \<open>base # bs\<close>, in the order of the addresses.\<close>

definition ring :: "uint \<Rightarrow> uint list \<Rightarrow> heap \<Rightarrow> bool" where
  "ring base bs h \<longleftrightarrow> sorted_wrt (<) (base # bs) \<and> linked h (base # bs @ [base]) \<and> h_size h base = 0 \<and>
     h_freep h \<in> set (base # bs)"

definition heap_inv :: "uint \<Rightarrow> uint list \<Rightarrow> uint set \<Rightarrow> heap \<Rightarrow> bool" where
  "heap_inv base bs L h \<longleftrightarrow> ring base bs h \<and> base \<noteq> 0 \<and> set bs \<inter> L = {} \<and> layout h (unat base + 8) (set bs \<union> L) \<and>
     unat base + 8 \<le> unat (h_brk h) \<and> unat (h_brk h) < 2 ^ 31"

lemma heap_freep: "heap_inv base bs L h \<Longrightarrow> h_freep h \<noteq> 0"
  by (auto simp: heap_inv_def ring_def)

section \<open>The search of free\<close>

lemma linked_split: "linked h (us @ x # vs) \<longleftrightarrow> linked h (us @ [x]) \<and> linked h (x # vs)"
  by (cases vs) (auto simp: linked_def successively_append_iff)

lemma linked_Cons: "linked h (x # y # zs) \<longleftrightarrow> h_ptr h x = y \<and> linked h (y # zs)"
  by (simp add: linked_def)

lemma linked_cong: "(\<And>x. x \<in> set (butlast xs) \<Longrightarrow> h_ptr h' x = h_ptr h x) \<Longrightarrow> linked h' xs = linked h xs"
  by (induction xs rule: induct_list012) (auto simp: linked_def)

text \<open>The place in the ring where the block \<open>bp\<close> belongs is the pair of \<open>p\<close> and its successor.\<close>

lemma find_stop:
  assumes "linked h (p # vs @ [base])" and "p < bp" and "\<forall>v\<in>set vs. bp < v" and "base \<le> p"
  shows "free_find h bp p = Some p"
  using assms by (subst free_find.simps) (cases vs; auto simp: linked_Cons)

lemma find_before:
  assumes "linked h (x # ws @ [p])" and "sorted_wrt (<) (x # ws @ [p])" and "p < bp" and "free_find h bp p = Some p"
  shows "free_find h bp x = Some p"
  using assms(1,2)
proof (induction ws arbitrary: x)
  case Nil
  then show ?case using assms(3,4) by (subst free_find.simps) (auto simp: linked_Cons)
next
  case (Cons w ws)
  have "w < p" using Cons.prems(2) by simp
  then have w: "w < bp" using assms(3) by simp
  have "h_ptr h x = w" "x < w" using Cons.prems by (auto simp: linked_Cons)
  moreover have "free_find h bp w = Some p" using Cons by (auto simp: linked_Cons)
  ultimately show ?case using w by (subst free_find.simps) auto
qed

lemma find_after:
  assumes "linked h (x # ws @ [base])" and "sorted_wrt (<) (x # ws)" and "bp < x" and "base < bp"
  shows "free_find h bp x = free_find h bp base"
  using assms(1,2,3)
proof (induction ws arbitrary: x)
  case Nil
  then show ?case using assms(4) by (subst free_find.simps) (auto simp: linked_Cons)
next
  case (Cons w ws)
  have "h_ptr h x = w" "x < w" using Cons.prems by (auto simp: linked_Cons)
  moreover have "free_find h bp w = free_find h bp base" using Cons calculation by (auto simp: linked_Cons)
  ultimately show ?case using Cons.prems(3) by (subst free_find.simps) auto
qed

lemma sorted_place:
  assumes "sorted_wrt (<) (base # bs)" and "base < (bp :: uint)" and "bp \<notin> set bs"
  obtains us p vs where "base # bs = us @ p # vs" "\<forall>x\<in>set (us @ [p]). x < bp" "\<forall>v\<in>set vs. bp < v"
  using assms
proof (induction bs arbitrary: base thesis)
  case Nil
  then show ?case by (intro Nil(1) [of "[]" base "[]"]) simp_all
next
  case (Cons b bs)
  show ?case
  proof (cases "b < bp")
    case True
    obtain us p vs where u: "b # bs = us @ p # vs" "\<forall>x\<in>set (us @ [p]). x < bp" "\<forall>v\<in>set vs. bp < v"
      using Cons.IH [of b] Cons.prems True by auto
    then show ?thesis using Cons.prems(3) by (intro Cons.prems(1) [of "base # us" p vs]) simp_all
  next
    case False
    then have "bp < b" using Cons.prems(4) by auto
    moreover have "b < x" if "x \<in> set bs" for x using Cons.prems(2) that by simp
    ultimately have "\<forall>v\<in>set (b # bs). bp < v" by (auto intro: less_trans)
    then show ?thesis using Cons.prems(3) by (intro Cons.prems(1) [of "[]" base "b # bs"]) simp_all
  qed
qed

lemma free_find_ring:
  assumes r: "ring base bs h" and b: "base < bp"
    and xs: "base # bs = us @ p # vs" and lt: "\<forall>x\<in>set (us @ [p]). x < bp" and gt: "\<forall>v\<in>set vs. bp < v"
  shows "free_find h bp (h_freep h) = Some p"
proof -
  have s: "sorted_wrt (<) (us @ p # vs)" using r xs by (simp add: ring_def)
  have "linked h ((base # bs) @ [base])" using r by (simp add: ring_def)
  then have c: "linked h (us @ p # vs @ [base])" unfolding xs by simp
  have p: "p < bp" "base \<le> p" using lt s xs by (auto simp: Cons_eq_append_conv)
  have "linked h (p # vs @ [base])" using c by (subst (asm) linked_split) simp
  then have stop: "free_find h bp p = Some p" using gt p by (intro find_stop [of h p vs base]) simp_all
  have before: "free_find h bp x = Some p" if "x \<in> set (us @ [p])" for x
  proof (cases "x = p")
    case False
    then have "x \<in> set us" using that by simp
    then obtain as ws where u: "us = as @ x # ws" by (meson in_set_conv_decomp)
    have "linked h (as @ x # ws @ p # vs @ [base])" using c by (simp add: u)
    then have "linked h ((x # ws) @ p # vs @ [base])" by (subst (asm) linked_split) simp
    then have "linked h (x # ws @ [p])" by (subst (asm) linked_split) simp
    then show ?thesis using s p(1) stop by (intro find_before [of h x ws p]) (auto simp: u sorted_wrt_append)
  qed (simp add: stop)
  have "base \<in> set (us @ [p])" using xs by (cases us) auto
  note base = before [OF this]
  have "free_find h bp x = Some p" if "x \<in> set vs" for x
  proof -
    from that obtain as ws where w: "vs = as @ x # ws" by (meson in_set_conv_decomp)
    have "linked h ((us @ p # as) @ x # ws @ [base])" using c by (simp add: w)
    then have "linked h (x # ws @ [base])" by (subst (asm) linked_split) simp
    moreover have "sorted_wrt (<) (x # ws)" using s by (simp add: w sorted_wrt_append)
    ultimately show ?thesis using gt that b base find_after [of h x ws base bp] by auto
  qed
  moreover have "h_freep h \<in> set (us @ [p]) \<union> set vs" using r unfolding ring_def xs by auto
  ultimately show ?thesis using before by blast
qed

section \<open>Joining blocks\<close>

lemma set_ptr_simps [simp]:
  "h_ptr (set_ptr p v h) = (h_ptr h)(p := v)" "h_size (set_ptr p v h) = h_size h" "h_freep (set_ptr p v h) = h_freep h"
  "h_brk (set_ptr p v h) = h_brk h" "h_ptr (set_size p n h) = h_ptr h" "h_size (set_size p n h) = (h_size h)(p := n)"
  "h_freep (set_size p n h) = h_freep h" "h_brk (set_size p n h) = h_brk h"
  by (simp_all add: set_ptr_def set_size_def)

lemma layout_apart: "layout h lo B \<Longrightarrow> x \<in> B \<Longrightarrow> y \<in> B \<Longrightarrow> x \<noteq> y \<Longrightarrow> end_of h x \<le> unat y \<or> end_of h y \<le> unat x"
  unfolding layout_def by blast

lemma layout_cong: "h_size h' = h_size h \<Longrightarrow> h_brk h' = h_brk h \<Longrightarrow> layout h' lo B = layout h lo B"
  by (simp add: layout_def end_of_def)

lemma unat_hdr: "end_of h x < 2 ^ 32 \<Longrightarrow> unat (hdr x (h_size h x)) = end_of h x"
  by (simp add: end_of_def hdr_def unat_word_ariths)

lemma layout_end: "layout h lo B \<Longrightarrow> x \<in> B \<Longrightarrow> unat (hdr x (h_size h x)) = end_of h x \<and> unat x < end_of h x"
proof -
  assume "layout h lo B" "x \<in> B"
  then have "end_of h x \<le> unat (h_brk h)" "0 < h_size h x" by (auto simp: layout_def)
  moreover have "unat (h_brk h) < 2 ^ 32" using unsigned_less [of "h_brk h"] by simp
  ultimately have "end_of h x < 2 ^ 32" "0 < unat (h_size h x)" by (linarith, simp add: word_less_nat_alt)
  then show ?thesis by (intro conjI unat_hdr) (simp_all add: end_of_def)
qed

lemma layout_merge:
  assumes l: "layout h lo B" and x: "x \<in> B" "y \<in> B" "end_of h x = unat y"
  shows "layout (set_size x (h_size h x + h_size h y) h) lo (B - {y})"
    and "unat (h_size h x + h_size h y) = unat (h_size h x) + unat (h_size h y)"
proof -
  have b: "end_of h y \<le> unat (h_brk h)" "unat (h_brk h) < 2 ^ 32" "0 < h_size h x"
    using l x(1,2) unsigned_less [of "h_brk h"] by (auto simp: layout_def)
  have n: "unat x + 8 * (unat (h_size h x) + unat (h_size h y)) = end_of h y" using x(3) by (simp add: end_of_def)
  have small: "k + 8 * m = e \<Longrightarrow> e \<le> c \<Longrightarrow> c < 2 ^ 32 \<Longrightarrow> m < 2 ^ 32" for k m e c :: nat by simp
  have "unat (h_size h x) + unat (h_size h y) < 2 ^ 32" by (rule small [OF n b(1,2)])
  then show u: "unat (h_size h x + h_size h y) = unat (h_size h x) + unat (h_size h y)" by (simp add: unat_word_ariths)
  let ?h = "set_size x (h_size h x + h_size h y) h"
  have ex: "end_of ?h x = end_of h y" using n by (simp add: end_of_def u)
  have eo: "z \<noteq> x \<Longrightarrow> end_of ?h z = end_of h z" for z by (simp add: end_of_def)
  have xy: "unat x < unat y" using layout_end [OF l x(1)] x(3) by simp
  have sep: "end_of h z \<le> unat x \<or> end_of h y \<le> unat z" if "z \<in> B" "z \<noteq> x" "z \<noteq> y" for z
  proof -
    have "end_of h z \<le> unat x \<or> end_of h x \<le> unat z" by (rule layout_apart [OF l that(1) x(1) that(2)])
    moreover have "end_of h z \<le> unat y \<or> end_of h y \<le> unat z" by (rule layout_apart [OF l that(1) x(2) that(3)])
    ultimately show ?thesis using x(3) layout_end [OF l that(1)] by linarith
  qed
  have s: "0 < h_size h x + h_size h y" using u b(3) by (metis add_gr_0 unat_gt_0 word_neq_0_conv)
  show "layout ?h lo (B - {y})"
    unfolding layout_def
  proof (intro conjI ballI impI)
    fix z
    assume "z \<in> B - {y}"
    then show "lo \<le> unat z" "0 < h_size ?h z" "end_of ?h z \<le> unat (h_brk ?h)"
      using l s b(1) ex eo by (cases "z = x"; auto simp: layout_def)+
  next
    fix z w
    assume "z \<in> B - {y}" "w \<in> B - {y}" "z \<noteq> w"
    then show "end_of ?h z \<le> unat w \<or> end_of ?h w \<le> unat z"
      using sep [of z] sep [of w] l ex eo by (cases "z = x"; cases "w = x") (auto simp: layout_def)
  qed
qed

lemma linked_relink:
  assumes "linked h (us @ [p])" and "p \<notin> set us" and "linked h (w # ws)" and "p \<notin> set (butlast (w # ws))"
  shows "linked (set_ptr p w h) (us @ p # w # ws)"
proof -
  have "linked (set_ptr p w h) (us @ [p]) = linked h (us @ [p])" by (rule linked_cong) (use assms(2) in \<open>auto simp: butlast_append\<close>)
  moreover have "linked (set_ptr p w h) (w # ws) = linked h (w # ws)" by (rule linked_cong) (use assms(4) in auto)
  ultimately show ?thesis using assms(1,3) by (subst linked_split) (simp add: linked_Cons)
qed

lemma linked_size [simp]: "linked (set_size p n h) xs = linked h xs" "linked (h\<lparr>h_freep := f\<rparr>) xs = linked h xs" "linked (h\<lparr>h_brk := b\<rparr>) xs = linked h xs"
  by (simp_all add: linked_def)

lemma linked_head:
  assumes "linked h (x # zs)" and "y \<notin> set (butlast zs)"
  shows "linked (set_ptr y (h_ptr h x) h) (y # zs)"
proof (cases zs)
  case (Cons z ys)
  have "linked (set_ptr y (h_ptr h x) h) zs = linked h zs" by (rule linked_cong) (use assms(2) in auto)
  then show ?thesis using assms(1) by (simp add: Cons linked_Cons)
qed (simp add: linked_def)

section \<open>free\<close>

text \<open>After \<open>join_right\<close> the block \<open>bp\<close> leads on to the rest of the ring; it may have swallowed its successor.\<close>

lemma join_right_spec:
  assumes l: "layout h lo B" and B: "bp \<in> B" "set vs \<subseteq> B" and c: "linked h (p # vs @ [base])" and v: "\<forall>v\<in>set vs. bp < v"
    and o: "sorted_wrt (<) vs" "base < bp" and p: "p \<noteq> bp"
  obtains ws where "linked (join_right p bp h) (bp # ws @ [base])" "\<forall>w\<in>set ws. bp < w" "sorted_wrt (<) ws" "set ws \<subseteq> set vs"
    "layout (join_right p bp h) lo (B - (set vs - set ws))" "h_size h bp \<le> h_size (join_right p bp h) bp"
    "\<forall>x. x \<noteq> bp \<longrightarrow> h_ptr (join_right p bp h) x = h_ptr h x \<and> h_size (join_right p bp h) x = h_size h x"
    "h_brk (join_right p bp h) = h_brk h"
proof (cases "hdr bp (h_size h bp) = h_ptr h p")
  case True
  have e: "unat (h_ptr h p) = end_of h bp" "unat bp < end_of h bp" using layout_end [OF l B(1)] True by simp_all
  have "vs \<noteq> []" using c e o(2) by (auto simp: linked_Cons word_less_nat_alt)
  then obtain w ws where w: "vs = w # ws" by (cases vs) auto
  have hp: "h_ptr h p = w" using c by (simp add: w linked_Cons)
  have nb: "w \<noteq> bp" using v by (auto simp: w)
  let ?h = "set_size bp (h_size h bp + h_size h w) h"
  have j: "join_right p bp h = set_ptr bp (h_ptr h w) ?h" using True p by (simp add: join_right_def hp)
  have wB: "w \<in> B" using B(2) by (simp add: w)
  note m = layout_merge [OF l B(1) wB e(1) [unfolded hp, symmetric]]
  have "linked h (w # ws @ [base])" using c by (simp add: w linked_Cons)
  then have "linked (set_ptr bp (h_ptr h w) ?h) (bp # ws @ [base])"
    using v by (intro linked_head [of ?h, simplified]) (auto simp: w butlast_append)
  moreover have "layout (join_right p bp h) lo (B - (set vs - set ws))"
  proof -
    have "w \<notin> set ws" using o(1) by (auto simp: w)
    then have "B - (set vs - set ws) = B - {w}" by (auto simp: w)
    then show ?thesis using m(1) unfolding j by (subst layout_cong [of _ ?h]) simp_all
  qed
  moreover have "h_size h bp \<le> h_size (join_right p bp h) bp" using m(2) by (simp add: j word_le_nat_alt)
  ultimately show thesis using v o(1) by (intro that [of ws]) (auto simp: j w)
next
  case False
  then have j: "join_right p bp h = set_ptr bp (h_ptr h p) h" by (simp add: join_right_def)
  have "linked (set_ptr bp (h_ptr h p) h) (bp # vs @ [base])"
    using v by (intro linked_head [OF c]) (auto simp: butlast_append)
  moreover have "layout (join_right p bp h) lo (B - (set vs - set vs))" using l unfolding j by (subst layout_cong [of _ h]) simp_all
  ultimately show thesis using v o(1) by (intro that [of vs]) (simp_all add: j)
qed

lemma layout_mono: "layout h lo B \<Longrightarrow> B' \<subseteq> B \<Longrightarrow> layout h lo B'"
  unfolding layout_def by blast

lemma heap_build:
  assumes "sorted_wrt (<) (us @ p # zs)" and "base # bs = us @ p # vs" and "linked h (us @ p # zs @ [base])"
    and "h_size h base = 0" "base \<noteq> 0" and "layout h (unat base + 8) B" "set (us @ p # zs) \<subseteq> insert base B" "L \<subseteq> B" "base \<notin> L"
    and "set (us @ p # zs) \<inter> L = {}" and "unat base + 8 \<le> unat (h_brk h)" "unat (h_brk h) < 2 ^ 31"
  obtains bs' where "heap_inv base bs' L (h\<lparr>h_freep := p\<rparr>)" "base # bs' = us @ p # zs"
proof -
  obtain bs' where b: "base # bs' = us @ p # zs" using assms(2) by (cases us) auto
  have s: "sorted_wrt (<) (base # bs')" unfolding b by (rule assms(1))
  have "linked h ((base # bs') @ [base])" using assms(3) unfolding b by simp
  moreover have "p \<in> set (base # bs')" unfolding b by simp
  moreover have "set bs' \<subseteq> B" using assms(7) s unfolding b [symmetric] by auto
  then have "layout h (unat base + 8) (set bs' \<union> L)" using assms(8) by (intro layout_mono [OF assms(6)]) blast
  moreover have "set bs' \<inter> L = {}" using assms(10) unfolding b [symmetric] by auto
  ultimately have "heap_inv base bs' L (h\<lparr>h_freep := p\<rparr>)"
    using s assms(4,5,11,12) unfolding heap_inv_def ring_def by (simp add: layout_cong [of "h\<lparr>h_freep := p\<rparr>" h])
  then show thesis using that b by blast
qed

lemma join_left_spec:
  assumes l: "layout h lo B" and B: "bp \<in> B" "p = base \<or> p \<in> B" and c: "linked h (us @ [p])" "linked h (bp # ws @ [base])"
    and o: "sorted_wrt (<) (us @ [p])" "p < bp" "\<forall>w\<in>set ws. bp < w" "sorted_wrt (<) ws" and z: "h_size h base = 0"
  obtains zs where "linked (join_left p bp h) (us @ p # zs @ [base])" "sorted_wrt (<) (us @ p # zs)" "set zs \<subseteq> insert bp (set ws)"
    "layout (join_left p bp h) lo (B - ({bp} - set zs))" "\<exists>y\<in>set (p # zs). y \<in> B \<and> h_size h bp \<le> h_size (join_left p bp h) y"
    "\<forall>x. x \<noteq> p \<or> x = base \<longrightarrow> h_size (join_left p bp h) x = h_size h x" "h_brk (join_left p bp h) = h_brk h"
proof (cases "hdr p (h_size h p) = bp")
  case True
  have b: "p \<noteq> base" using True z o(2) by (auto simp: hdr_def)
  then have p: "p \<in> B" using B(2) by simp
  let ?h = "set_size p (h_size h p + h_size h bp) h"
  have j: "join_left p bp h = set_ptr p (h_ptr h bp) ?h" using True o(2) by (simp add: join_left_def)
  have e: "end_of h p = unat bp" using layout_end [OF l p] True by simp
  note m = layout_merge [OF l p B(1) e]
  have bp: "bp \<notin> set ws" using o(3) by auto
  have pw: "p < w" if "w \<in> set ws" for w using o(2,3) that less_trans by blast
  obtain w ys where w: "ws @ [base] = w # ys" "h_ptr h bp = w" "linked h (w # ys)" using c(2) by (cases ws) (auto simp: linked_Cons)
  have pu: "p \<notin> set us" using o(1) by (auto simp: sorted_wrt_append)
  have "p \<notin> set (butlast (w # ys))" using pw unfolding w(1) [symmetric] by (auto simp: butlast_append)
  then have "linked (set_ptr p w ?h) (us @ p # w # ys)" using c(1) pu w(3) by (intro linked_relink) simp_all
  then have "linked (join_left p bp h) (us @ p # ws @ [base])" by (simp add: j w)
  moreover have "layout (join_left p bp h) lo (B - ({bp} - set ws))"
  proof -
    have "B - ({bp} - set ws) = B - {bp}" using bp by auto
    then show ?thesis using m(1) unfolding j by (subst layout_cong [of _ ?h]) simp_all
  qed
  moreover have "h_size h bp \<le> h_size (join_left p bp h) p" using m(2) by (simp add: j word_le_nat_alt)
  moreover have "sorted_wrt (<) (us @ p # ws)" using o pw by (auto simp: sorted_wrt_append intro: less_trans)
  ultimately show thesis using p b by (intro that [of ws]) (auto simp: j)
next
  case False
  then have j: "join_left p bp h = set_ptr p bp h" by (simp add: join_left_def)
  have pu: "p \<notin> set us" using o(1) by (auto simp: sorted_wrt_append)
  have pw: "p < w" if "w \<in> set ws" for w using o(2,3) that less_trans by blast
  have "p \<notin> set (butlast (bp # ws @ [base]))" using pw o(2) by (auto simp: butlast_append)
  then have "linked (join_left p bp h) (us @ p # (bp # ws) @ [base])" using c pu by (simp add: j linked_relink)
  moreover have "layout (join_left p bp h) lo (B - ({bp} - set (bp # ws)))" using l unfolding j by (subst layout_cong [of _ h]) simp_all
  moreover have "sorted_wrt (<) (us @ p # bp # ws)" using o pw by (auto simp: sorted_wrt_append intro: less_trans)
  ultimately show thesis using B(1) by (intro that [of "bp # ws"]) (auto simp: j)
qed

lemma layout_above: "layout h (unat base + 8) B \<Longrightarrow> y \<in> B \<Longrightarrow> base < y"
  by (fastforce simp: layout_def word_less_nat_alt)

lemma u_free_spec:
  assumes inv: "heap_inv base bs (insert x L) h" and x: "x \<notin> L"
  obtains bs' h' where "u_free (x + 8) h = Some h'" "heap_inv base bs' L h'" "\<forall>y\<in>L. h_size h' y = h_size h y"
    "\<exists>y\<in>set bs'. h_size h x \<le> h_size h' y" "h_brk h' = h_brk h"
proof -
  let ?B = "set bs \<union> insert x L" and ?lo = "unat base + 8"
  have r: "ring base bs h" and l: "layout h ?lo ?B" and b0: "base \<noteq> 0" "?lo \<le> unat (h_brk h)" "unat (h_brk h) < 2 ^ 31" and d: "set bs \<inter> insert x L = {}"
    using inv by (simp_all add: heap_inv_def)
  have s: "sorted_wrt (<) (base # bs)" and c: "linked h ((base # bs) @ [base])" and z: "h_size h base = 0" using r by (simp_all add: ring_def)
  note bL = layout_above [OF l]
  have bx: "base < x" "x \<notin> set bs" using bL [of x] d by auto
  obtain us p vs where u: "base # bs = us @ p # vs" "\<forall>y\<in>set (us @ [p]). y < x" "\<forall>v\<in>set vs. x < v"
    using sorted_place [OF s bx] by metis
  have f: "free_find h x (h_freep h) = Some p" by (rule free_find_ring [OF r bx(1) u])
  have su: "sorted_wrt (<) (us @ p # vs)" using s unfolding u(1) .
  have bsv: "set vs \<subseteq> set bs" "p = base \<or> p \<in> set bs" using u(1) by (cases us; auto)+
  then have vB: "set vs \<subseteq> ?B" and pB: "p = base \<or> p \<in> ?B" by auto
  have c': "linked h (us @ p # vs @ [base])" using c unfolding u(1) by simp
  have cp: "linked h (p # vs @ [base])" using c' by (subst (asm) linked_split) simp
  have sp: "sorted_wrt (<) vs" "sorted_wrt (<) (us @ [p])" "p < x" "p \<noteq> x" "x \<in> ?B" using su u(2) by (auto simp: sorted_wrt_append)
  obtain ws where w: "linked (join_right p x h) (x # ws @ [base])" "\<forall>w\<in>set ws. x < w" "sorted_wrt (<) ws" "set ws \<subseteq> set vs"
    "layout (join_right p x h) ?lo (?B - (set vs - set ws))" "h_size h x \<le> h_size (join_right p x h) x"
    "\<forall>y. y \<noteq> x \<longrightarrow> h_ptr (join_right p x h) y = h_ptr h y \<and> h_size (join_right p x h) y = h_size h y"
    "h_brk (join_right p x h) = h_brk h"
    by (rule join_right_spec [OF l sp(5) vB cp u(3) sp(1) bx(1) sp(4)])
  let ?h = "join_right p x h"
  have "linked h (us @ [p])" using c' by (subst (asm) linked_split) simp
  then have cu: "linked ?h (us @ [p])" using w(7) u(2) by (subst linked_cong [of _ _ h]) (auto simp: butlast_append)
  have B1: "x \<in> ?B - (set vs - set ws)" "p = base \<or> p \<in> ?B - (set vs - set ws)" using u(2,3) pB by auto
  obtain zs where y: "linked (join_left p x ?h) (us @ p # zs @ [base])" "sorted_wrt (<) (us @ p # zs)" "set zs \<subseteq> insert x (set ws)"
    "layout (join_left p x ?h) ?lo (?B - (set vs - set ws) - ({x} - set zs))"
    "\<exists>y\<in>set (p # zs). y \<in> ?B - (set vs - set ws) \<and> h_size ?h x \<le> h_size (join_left p x ?h) y"
    "\<forall>y. y \<noteq> p \<or> y = base \<longrightarrow> h_size (join_left p x ?h) y = h_size ?h y" "h_brk (join_left p x ?h) = h_brk ?h"
    by (rule join_left_spec [OF w(5) B1 cu w(1) sp(2,3) w(2,3)]) (use w(7) bx(1) z in auto)
  have zs: "set zs \<subseteq> insert x (set vs)" "x \<notin> L" using y(3) w(4) x by auto
  obtain bs' where b: "heap_inv base bs' L ((join_left p x ?h)\<lparr>h_freep := p\<rparr>)" "base # bs' = us @ p # zs"
  proof (rule heap_build [OF y(2) u(1) y(1) _ b0(1) y(4)])
    show "h_size (join_left p x ?h) base = 0" using y(6) w(7) bx(1) z by auto
    have us: "set us \<subseteq> insert base (set bs)" "set us \<inter> (insert x (set vs)) = {}" using u su by (cases us; auto simp: sorted_wrt_append)+
    show "set (us @ p # zs) \<subseteq> insert base (?B - (set vs - set ws) - ({x} - set zs))"
    proof -
      have "set zs \<inter> (set vs - set ws) = {}" using y(3) u(3) by auto
      then show ?thesis using us B1(2) y(3) w(4) vB sp by auto
    qed
    show "L \<subseteq> ?B - (set vs - set ws) - ({x} - set zs)" using d bsv(1) x by auto
    show "base \<notin> L" using bL by auto
    then show "set (us @ p # zs) \<inter> L = {}" using zs us bsv d x by auto
    show "unat base + 8 \<le> unat (h_brk (join_left p x ?h))" "unat (h_brk (join_left p x ?h)) < 2 ^ 31" using b0 y(7) w(8) by simp_all
  qed
  show thesis
  proof (rule that [OF _ b(1)])
    show "u_free (x + 8) h = Some ((join_left p x ?h)\<lparr>h_freep := p\<rparr>)" using f by (simp add: u_free_def)
    show "\<forall>y\<in>L. h_size ((join_left p x ?h)\<lparr>h_freep := p\<rparr>) y = h_size h y"
    proof
      fix y
      assume yL: "y \<in> L"
      then have "y \<noteq> p \<or> y = base" "y \<noteq> x" using bsv(2) d x by auto
      then show "h_size ((join_left p x ?h)\<lparr>h_freep := p\<rparr>) y = h_size h y" using y(6) w(7) by simp
    qed
    obtain k where "k \<in> set (p # zs)" "k \<in> ?B" "h_size ?h x \<le> h_size (join_left p x ?h) k" using y(5) by blast
    moreover from this have "k \<in> set bs'" using bL b(2) by (cases us) auto
    ultimately show "\<exists>y\<in>set bs'. h_size h x \<le> h_size ((join_left p x ?h)\<lparr>h_freep := p\<rparr>) y"
      using order_trans [OF w(6)] by (intro bexI [of _ k]) simp_all
    show "h_brk ((join_left p x ?h)\<lparr>h_freep := p\<rparr>) = h_brk h" using y(7) w(8) by simp
  qed
qed

section \<open>malloc\<close>

lemma linked_map: "linked h (xs @ [y]) \<Longrightarrow> xs \<noteq> [] \<Longrightarrow> map (h_ptr h) xs = tl xs @ [y]"
proof (induction xs)
  case (Cons x xs)
  then show ?case by (cases xs) (auto simp: linked_Cons)
qed simp

lemma ring_inj: "ring base bs h \<Longrightarrow> inj_on (h_ptr h) (set (base # bs))"
proof -
  assume r: "ring base bs h"
  have "map (h_ptr h) (base # bs) = bs @ [base]" using linked_map [of h "base # bs" base] r by (simp add: ring_def)
  moreover have "distinct (bs @ [base])"
    using r strict_sorted_iff [of "base # bs"] by (auto simp: ring_def strict_sorted_iff sorted_wrt_iff_nth_less)
  ultimately show ?thesis by (metis distinct_map)
qed

lemma malloc_search:
  assumes "linked h (q # zs @ [h_freep h])" and "h_freep h \<notin> set zs"
  shows "(\<exists>q' p. q' \<in> set (q # zs) \<and> p \<in> set (zs @ [h_freep h]) \<and> h_ptr h q' = p \<and> n \<le> h_size h p \<and>
      malloc_loop g n q (h_ptr h q) h = Some (take_block n q' p h)) \<or>
    ((\<forall>z\<in>set (zs @ [h_freep h]). \<not> n \<le> h_size h z) \<and> malloc_loop g n q (h_ptr h q) h =
      Option.bind (morecore g n h) (\<lambda>r. if fst r = 0 then Some (0, snd r)
        else malloc_loop g n (fst r) (h_ptr (snd r) (fst r)) (snd r)))"
  using assms
proof (induction zs arbitrary: q)
  case Nil
  then show ?case by (subst (1 2) malloc_loop.simps) (auto simp: linked_Cons)
next
  case (Cons z zs)
  have z: "h_ptr h q = z" "linked h (z # zs @ [h_freep h])" "z \<noteq> h_freep h" using Cons.prems by (auto simp: linked_Cons)
  show ?case
  proof (cases "n \<le> h_size h z")
    case True
    then have "malloc_loop g n q (h_ptr h q) h = Some (take_block n q z h)" by (subst malloc_loop.simps) (simp add: z)
    then show ?thesis using True z(1) by auto
  next
    case False
    then have "malloc_loop g n q (h_ptr h q) h = malloc_loop g n z (h_ptr h z) h" using z by (subst malloc_loop.simps) simp
    then show ?thesis using Cons.IH [OF z(2)] Cons.prems(2) False by auto
  qed
qed

lemma ring_rotate:
  assumes "ring base bs h"
  obtains zs where "linked h (h_freep h # zs @ [h_freep h])" "h_freep h \<notin> set zs" "set (zs @ [h_freep h]) = set (base # bs)"
proof -
  let ?f = "h_freep h"
  have "?f \<in> set (base # bs)" using assms by (simp add: ring_def)
  then obtain us vs where u: "base # bs = us @ ?f # vs" by (meson in_set_conv_decomp)
  have "linked h ((base # bs) @ [base])" and s: "sorted_wrt (<) (base # bs)" using assms by (simp_all add: ring_def)
  then have c: "linked h (us @ ?f # vs @ [base])" unfolding u by simp
  have c1: "linked h (us @ [?f])" and c2: "linked h (?f # vs @ [base])" using c by (simp_all add: linked_split [of h us ?f "vs @ [base]"])
  have "linked h (?f # (vs @ us) @ [?f])"
  proof (cases us)
    case (Cons b ws)
    then have "b = base" using u by simp
    then show ?thesis using c1 c2 linked_split [of h "?f # vs" base "ws @ [?f]"] by (simp add: Cons)
  qed (use c2 u in auto)
  moreover have "?f \<notin> set (vs @ us)" using s unfolding u by (auto simp: sorted_wrt_append)
  moreover have "set ((vs @ us) @ [?f]) = set (base # bs)" unfolding u by auto
  ultimately show thesis using that by blast
qed

lemma layout_split:
  assumes l: "layout h lo B" and p: "p \<in> B" and n: "0 < n" "n < h_size h p"
  defines "x \<equiv> hdr p (h_size h p - n)"
  shows "layout (set_size x n (set_size p (h_size h p - n) h)) lo (insert x B)" and "x \<notin> B" and "p < x"
proof -
  let ?h = "set_size x n (set_size p (h_size h p - n) h)"
  have e: "end_of h p \<le> unat (h_brk h)" "unat (h_brk h) < 2 ^ 32" using l p unsigned_less [of "h_brk h"] by (auto simp: layout_def)
  have sz: "unat (h_size h p - n) = unat (h_size h p) - unat n" "unat n < unat (h_size h p)" "0 < unat n"
    using n by (simp_all add: word_less_nat_alt unat_sub word_le_nat_alt)
  have "unat p + 8 * unat (h_size h p - n) < 2 ^ 32" using e sz unfolding end_of_def by linarith
  then have x: "unat x = unat p + 8 * (unat (h_size h p) - unat n)" 
    using unat_hdr [of "set_size p (h_size h p - n) h" p] by (simp add: x_def end_of_def sz(1))
  have ends: "end_of ?h x = end_of h p" "end_of ?h p = unat x" "unat p < unat x" "unat x < end_of h p"
    using x sz by (auto simp: end_of_def)
  have other: "z \<noteq> x \<Longrightarrow> z \<noteq> p \<Longrightarrow> end_of ?h z = end_of h z" for z by (simp add: end_of_def)
  have sep: "end_of h z \<le> unat p \<or> end_of h p \<le> unat z" if "z \<in> B" "z \<noteq> p" for z
    using l p that unfolding layout_def by blast
  show "p < x" using ends(3) by (simp add: word_less_nat_alt)
  show xB: "x \<notin> B"
  proof
    assume "x \<in> B"
    then show False using sep [of x] ends layout_end [OF l, of x] by auto
  qed
  have pos: "0 < h_size ?h z" "lo \<le> unat z" "end_of ?h z \<le> unat (h_brk h)" if "z \<in> insert x B" for z
    using that l p n ends e(1) other xB sz by (cases "z = x"; cases "z = p"; fastforce simp: layout_def word_less_nat_alt)+
  moreover have "end_of ?h z \<le> unat w \<or> end_of ?h w \<le> unat z" if "z \<in> insert x B" "w \<in> insert x B" "z \<noteq> w" for z w
  proof -
    have old: "z \<in> B \<Longrightarrow> w \<in> B \<Longrightarrow> end_of h z \<le> unat w \<or> end_of h w \<le> unat z" using l that(3) unfolding layout_def by blast
    show ?thesis using that old sep [of z] sep [of w] ends other [of z] other [of w] xB
      by (cases "z = x"; cases "w = x"; cases "z = p"; cases "w = p") auto
  qed
  ultimately show "layout ?h lo (insert x B)" unfolding layout_def by simp
qed

lemma take_block_spec:
  assumes inv: "heap_inv base bs L h" and q: "q \<in> set (base # bs)" "p \<in> set (base # bs)" "h_ptr h q = p" and n: "n \<le> h_size h p" "0 < n"
  obtains bs' x h' where "take_block n q p h = (x + 8, h')" "heap_inv base bs' (insert x L) h'" "x \<notin> L" "h_size h' x = n"
    "\<forall>y\<in>L. h_size h' y = h_size h y" "h_brk h' = h_brk h"
proof -
  let ?B = "set bs \<union> L" and ?lo = "unat base + 8"
  have r: "ring base bs h" and l: "layout h ?lo ?B" and b0: "base \<noteq> 0" "?lo \<le> unat (h_brk h)" "unat (h_brk h) < 2 ^ 31" and d: "set bs \<inter> L = {}"
    using inv by (simp_all add: heap_inv_def)
  have s: "sorted_wrt (<) (base # bs)" and c: "linked h ((base # bs) @ [base])" and z: "h_size h base = 0" using r by (simp_all add: ring_def)
  have pb: "p \<noteq> base" "p \<in> set bs" using n z q(2) by auto
  have bL: "base \<notin> ?B" using layout_above [OF l] by blast
  show thesis
  proof (cases "h_size h p = n")
    case True
    obtain as cs where a: "bs = as @ p # cs" using pb(2) by (meson in_set_conv_decomp)
    obtain us k where u: "base # as = us @ [k]" by (metis list.discI rev_exhaust)
    have e: "base # bs = us @ k # p # cs" using u by (simp add: a)
    have c': "linked h (us @ k # p # cs @ [base])" using c unfolding e by simp
    then have ck: "linked h (us @ [k])" "linked h (k # p # cs @ [base])" by (simp_all add: linked_split [of h us k "p # cs @ [base]"])
    then have "h_ptr h k = p" by (simp add: linked_Cons)
    then have qk: "q = k" using ring_inj [OF r] q(1,3) unfolding e by (metis inj_onD in_set_conv_decomp)
    obtain w ys where w: "cs @ [base] = w # ys" "h_ptr h p = w" "linked h (w # ys)" using ck(2) by (cases cs) (auto simp: linked_Cons)
    have so: "sorted_wrt (<) (us @ k # p # cs)" using s unfolding e .
    have "k \<notin> set us" "k \<notin> set cs" using so by (auto simp: sorted_wrt_append)
    moreover have "butlast (w # ys) = cs" unfolding w(1) [symmetric] by simp
    ultimately have "linked (set_ptr k w h) (us @ k # w # ys)" using ck(1) w(3) by (intro linked_relink) simp_all
    then have ch: "linked (set_ptr k w h) (us @ k # cs @ [base])" by (simp add: w(1))
    have se: "set (us @ k # cs) \<subseteq> set (base # bs)" unfolding e by auto
    obtain bs' where b: "heap_inv base bs' (insert p L) ((set_ptr k w h)\<lparr>h_freep := k\<rparr>)" "base # bs' = us @ k # cs"
    proof (rule heap_build [OF _ e ch])
      show "sorted_wrt (<) (us @ k # cs)" using so by (simp add: sorted_wrt_append)
      show "layout (set_ptr k w h) ?lo ?B" using l by (subst layout_cong [of _ h]) simp_all
      show "set (us @ k # cs) \<subseteq> insert base ?B" using se by auto
      have "set (us @ k # cs) \<inter> {p} = {}" using so by (auto simp: sorted_wrt_append)
      then show "set (us @ k # cs) \<inter> insert p L = {}" using se bL d by auto
    qed (use z b0 pb bL in auto)
    show thesis
      by (rule that [OF _ b(1)]) (use True d pb w(2) qk in \<open>auto simp: take_block_def hdr_def\<close>)
  next
    case False
    then have lt: "n < h_size h p" using n by simp
    let ?x = "hdr p (h_size h p - n)"
    let ?h = "set_size ?x n (set_size p (h_size h p - n) h)"
    have pB: "p \<in> ?B" using pb by simp
    note m = layout_split [OF l pB n(2) lt]
    have "?x \<noteq> base" using layout_above [OF m(1)] by blast
    then have i: "heap_inv base bs (insert ?x L) (?h\<lparr>h_freep := q\<rparr>)"
      using m r b0 d q(1) z pb unfolding heap_inv_def ring_def by (auto simp: layout_cong [of "?h\<lparr>h_freep := q\<rparr>" ?h])
    have t: "take_block n q p h = (?x + 8, ?h\<lparr>h_freep := q\<rparr>)" using False by (simp add: take_block_def hdr_def Let_def)
    show thesis by (rule that [OF t i]) (use m d pb in auto)
  qed
qed

text \<open>A new block at the break.\<close>

lemma layout_add:
  assumes l: "layout h lo B" and lo: "lo \<le> unat (h_brk h)" and m: "0 < m" "unat (h_brk h + m * 8) = unat (h_brk h) + 8 * unat m"
  defines "h' \<equiv> set_size (h_brk h) m (h\<lparr>h_brk := h_brk h + m * 8\<rparr>)"
  shows "h_brk h \<notin> B" and "layout h' lo (insert (h_brk h) B)"
proof -
  have below: "end_of h z \<le> unat (h_brk h)" if "z \<in> B" for z using l that unfolding layout_def by blast
  show xB: "h_brk h \<notin> B" using below [of "h_brk h"] layout_end [OF l, of "h_brk h"] by auto
  have new: "end_of h' (h_brk h) = unat (h_brk h')" using m(2) by (simp add: end_of_def h'_def)
  have old: "end_of h' z = end_of h z" "h_size h' z = h_size h z" if "z \<in> B" for z using that xB by (auto simp: end_of_def h'_def)
  have "lo \<le> unat z \<and> 0 < h_size h' z \<and> end_of h' z \<le> unat (h_brk h')" if "z \<in> insert (h_brk h) B" for z
  proof (cases "z = h_brk h")
    case False
    then have z: "z \<in> B" using that by simp
    then have "lo \<le> unat z" "0 < h_size h z" using l unfolding layout_def by blast+
    then show ?thesis using old [OF z] below [OF z] m(2) by (simp add: h'_def)
  qed (use lo m(1) new in \<open>simp add: h'_def\<close>)
  moreover have "end_of h' z \<le> unat w \<or> end_of h' w \<le> unat z" if "z \<in> insert (h_brk h) B" "w \<in> insert (h_brk h) B" "z \<noteq> w" for z w
  proof (cases "z \<in> B \<and> w \<in> B")
    case True
    then show ?thesis using l old that(3) unfolding layout_def by metis
  next
    case False
    then show ?thesis using that below old by auto
  qed
  ultimately show "layout h' lo (insert (h_brk h) B)" unfolding layout_def by blast
qed

text \<open>The result of an allocation of \<open>n\<close> units next to the live blocks \<open>L\<close>.\<close>

definition allocated :: "uint \<Rightarrow> uint set \<Rightarrow> heap \<Rightarrow> uint \<Rightarrow> uint \<times> heap \<Rightarrow> bool" where
  "allocated base L h n r \<longleftrightarrow> (\<exists>bs x. fst r = x + 8 \<and> heap_inv base bs (insert x L) (snd r) \<and> x \<notin> L \<and> h_size (snd r) x = n \<and>
     (\<forall>y\<in>L. h_size (snd r) y = h_size h y))"

lemma malloc_found:
  assumes inv: "heap_inv base bs L h" and n: "0 < n" and y: "y \<in> set (base # bs)" "n \<le> h_size h y"
  shows "\<exists>r. malloc_loop g n (h_freep h) (h_ptr h (h_freep h)) h = Some r \<and> allocated base L h n r"
proof -
  have "ring base bs h" using inv by (simp add: heap_inv_def)
  then obtain zs where z: "linked h (h_freep h # zs @ [h_freep h])" "h_freep h \<notin> set zs" "set (zs @ [h_freep h]) = set (base # bs)"
    by (rule ring_rotate)
  from malloc_search [OF z(1,2), of n g] obtain q p where qp: "q \<in> set (h_freep h # zs)" "p \<in> set (zs @ [h_freep h])"
    "h_ptr h q = p" "n \<le> h_size h p" "malloc_loop g n (h_freep h) (h_ptr h (h_freep h)) h = Some (take_block n q p h)"
    using y unfolding z(3) by blast
  have "q \<in> set (base # bs)" "p \<in> set (base # bs)" using qp(1,2) unfolding z(3) [symmetric] by auto
  from take_block_spec [OF inv this qp(3,4) n] obtain bs' x h' where "take_block n q p h = (x + 8, h')"
    "heap_inv base bs' (insert x L) h'" "x \<notin> L" "h_size h' x = n" "\<forall>y\<in>L. h_size h' y = h_size h y" by metis
  then show ?thesis using qp(5) unfolding allocated_def by (intro exI [of _ "(x + 8, h')"]) auto
qed

section \<open>The allocator over a kernel\<close>

text \<open>What the allocator needs of the kernel: a break below 2 GB is raised only to one below 2 GB.\<close>

locale user_break =
  fixes grant :: "uint \<Rightarrow> uint \<Rightarrow> bool"
  assumes grant_below: "unat b < 2 ^ 31 \<Longrightarrow> unat n < 2 ^ 31 \<Longrightarrow> grant b n \<Longrightarrow> unat b + unat n < 2 ^ 31"
begin

lemma morecore_spec:
  assumes inv: "heap_inv base bs L h" and n: "8 * unat nu < 2 ^ 31"
  obtains "morecore grant nu h = Some (0, h)"
  | bs' h' where "morecore grant nu h = Some (h_freep h', h')" "heap_inv base bs' L h'" "\<forall>y\<in>L. h_size h' y = h_size h y"
    "\<exists>y\<in>set bs'. nu \<le> h_size h' y"
proof (cases "grant (h_brk h) ((if nu < 4096 then 4096 else nu) * 8)")
  case False
  then show thesis using that(1) by (simp add: morecore_def u_sbrk_def Let_def)
next
  case True
  let ?m = "if nu < 4096 then 4096 else nu"
  let ?x = "h_brk h"
  let ?h = "set_size ?x ?m (h\<lparr>h_brk := ?x + ?m * 8\<rparr>)"
  have m: "unat (?m * 8) = 8 * unat ?m" "8 * unat ?m < 2 ^ 31" "nu \<le> ?m" "0 < ?m" using n
    by (auto simp: unat_word_ariths word_less_nat_alt word_le_nat_alt)
  have bx: "unat ?x < 2 ^ 31" "unat base + 8 \<le> unat ?x" using inv by (simp_all add: heap_inv_def)
  have g: "unat ?x + 8 * unat ?m < 2 ^ 31" using grant_below [OF bx(1) _ True] m(1,2) by simp
  then have x: "unat (?x + ?m * 8) = unat ?x + 8 * unat ?m" using m(1) by (simp add: unat_word_ariths)
  have l: "layout h (unat base + 8) (set bs \<union> L)" using inv by (simp add: heap_inv_def)
  note a = layout_add [OF l bx(2) m(4) x]
  have xB: "?x \<notin> set bs \<union> L" by (rule a)
  have "layout ?h (unat base + 8) (insert ?x (set bs \<union> L))" by (rule a)
  then have "heap_inv base bs (insert ?x L) ?h"
    using inv xB x g unfolding heap_inv_def ring_def by auto
  then obtain bs' h' where f: "u_free (?x + 8) ?h = Some h'" "heap_inv base bs' L h'" "\<forall>y\<in>L. h_size h' y = h_size ?h y"
    "\<exists>y\<in>set bs'. h_size ?h ?x \<le> h_size h' y"
    using xB by (elim u_free_spec) auto
  show thesis
  proof (rule that(2) [OF _ f(2)])
    show "morecore grant nu h = Some (h_freep h', h')" using True f(1) by (simp add: morecore_def u_sbrk_def Let_def hdr_def)
    show "\<forall>y\<in>L. h_size h' y = h_size h y" using f(3) xB by auto
    show "\<exists>y\<in>set bs'. nu \<le> h_size h' y" using f(4) m(3) by (auto intro: order_trans)
  qed
qed

lemma malloc_loop_spec:
  assumes inv: "heap_inv base bs L h" and n: "0 < n" "8 * unat n < 2 ^ 31"
  shows "\<exists>r. malloc_loop grant n (h_freep h) (h_ptr h (h_freep h)) h = Some r \<and> (r = (0, h) \<or> allocated base L h n r)"
proof (cases "\<exists>y\<in>set (base # bs). n \<le> h_size h y")
  case True
  then show ?thesis using malloc_found [OF inv n(1)] by blast
next
  case False
  have "ring base bs h" using inv by (simp add: heap_inv_def)
  then obtain zs where z: "linked h (h_freep h # zs @ [h_freep h])" "h_freep h \<notin> set zs" "set (zs @ [h_freep h]) = set (base # bs)"
    by (rule ring_rotate)
  have m: "malloc_loop grant n (h_freep h) (h_ptr h (h_freep h)) h =
      Option.bind (morecore grant n h) (\<lambda>r. if fst r = 0 then Some (0, snd r)
        else malloc_loop grant n (fst r) (h_ptr (snd r) (fst r)) (snd r))"
    using malloc_search [OF z(1,2), of n grant] False unfolding z(3) by blast
  show ?thesis
  proof (rule morecore_spec [OF inv n(2)])
    fix bs' h'
    assume c: "morecore grant n h = Some (h_freep h', h')" and i: "heap_inv base bs' L h'"
      and L: "\<forall>y\<in>L. h_size h' y = h_size h y" and y: "\<exists>y\<in>set bs'. n \<le> h_size h' y"
    show ?thesis using malloc_found [OF i n(1), of _ grant] heap_freep [OF i] y L unfolding m c by (fastforce simp: allocated_def)
  qed (simp add: m)
qed

end

text \<open>The kernel grants an \<open>sbrk\<close> by a positive number when \<open>allocuvm\<close> does not return 0 (\<open>growproc\<close>).\<close>

definition kernel_grants :: "kernel \<Rightarrow> uint \<Rightarrow> uint \<Rightarrow> uint \<Rightarrow> bool" where
  "kernel_grants s pgdir b n = (case allocuvm pgdir b (b + n) s of Ok sz t \<Rightarrow> sz \<noteq> 0 | _ \<Rightarrow> False)"

interpretation kb: user_break "kernel_grants s pgdir" for s pgdir
proof
  fix b n
  assume a: "unat b < 2 ^ 31" "unat n < 2 ^ 31" and g: "kernel_grants s pgdir b n"
  have "b + n < KERNBASE" using g by (auto simp: kernel_grants_def allocuvm_def not_le [symmetric])
  moreover have "unat (b + n) = unat b + unat n" using a by (simp add: unat_word_ariths)
  ultimately show "unat b + unat n < 2 ^ 31" by (simp add: word_less_nat_alt KERNBASE_def)
qed

section \<open>Properties\<close>

text \<open>A heap with the live blocks \<open>L\<close>. Before the first call \<open>freep\<close> is null and nothing is allocated.\<close>

definition heap_ok :: "uint \<Rightarrow> uint set \<Rightarrow> heap \<Rightarrow> bool" where
  "heap_ok base L h \<longleftrightarrow> (\<exists>bs. heap_inv base bs L h) \<or>
     h_freep h = 0 \<and> L = {} \<and> base \<noteq> 0 \<and> unat base + 8 \<le> unat (h_brk h) \<and> unat (h_brk h) < 2 ^ 31"

lemma heap_init:
  assumes "h_freep h = 0" "L = {}" "base \<noteq> 0" "unat base + 8 \<le> unat (h_brk h)" "unat (h_brk h) < 2 ^ 31"
  shows "heap_inv base [] L (set_size base 0 ((set_ptr base base h)\<lparr>h_freep := base\<rparr>))"
  using assms by (simp add: heap_inv_def ring_def linked_def layout_def)

lemma nunits: 
  fixes nbytes :: uint
  assumes "unat nbytes < 2 ^ 31 - 16"
  defines "n \<equiv> (nbytes + 8 - 1) div 8 + 1"
  shows "0 < n" "8 * unat n < 2 ^ 31" "unat nbytes + 8 \<le> 8 * unat n"
proof -
  have "unat (nbytes + 7) = unat nbytes + 7" using assms(1) by (simp add: unat_word_ariths)
  then have "unat n = (unat nbytes + 7) div 8 + 1" using assms(1) unfolding n_def by (simp add: unat_word_ariths unat_div)
  then show "0 < n" "8 * unat n < 2 ^ 31" "unat nbytes + 8 \<le> 8 * unat n" using assms(1) by (simp_all add: word_less_nat_alt)
qed


text \<open>A heap with one block of 32 bytes in use and none free.\<close>

definition one_block :: heap where
  "one_block = \<lparr>h_ptr = (\<lambda>_. 0)(0x1000 := 0x1000), h_size = (\<lambda>_. 0)(0x2000 := 4), h_freep = 0x1000, h_brk = 0x2020\<rparr>"

lemma one_block_ok: "heap_ok 0x1000 {0x2000} one_block"
proof -
  have "heap_inv 0x1000 [] {0x2000} one_block"
    by (simp add: one_block_def heap_inv_def ring_def linked_def layout_def end_of_def)
  then show ?thesis by (auto simp: heap_ok_def)
qed


text \<open>C14. \<open>free\<close> of a block in use always returns (its walk along the circular list ends), keeps the heap in order
  and leaves all other blocks in use as they are.\<close>

theorem free_safe:
  assumes "heap_ok base L h" and "x \<in> L"
  shows "\<exists>h'. u_free (x + 8) h = Some h' \<and> heap_ok base (L - {x}) h' \<and> (\<forall>y\<in>L - {x}. end_of h' y = end_of h y)"
proof -
  obtain bs where "heap_inv base bs (insert x (L - {x})) h"
    using assms unfolding heap_ok_def by (auto simp: insert_absorb)
  then obtain bs' h' where "u_free (x + 8) h = Some h'" "heap_inv base bs' (L - {x}) h'" "\<forall>y\<in>L - {x}. h_size h' y = h_size h y"
    by (rule u_free_spec) blast+
  then show ?thesis by (auto simp: heap_ok_def end_of_def)
qed

theorem free_safe_witness:
  "\<exists>h'. u_free 0x2008 one_block = Some h' \<and> heap_ok 0x1000 {} h'"
proof -
  have "0x2000 \<in> {0x2000 :: uint}" by simp
  from free_safe [OF one_block_ok this] show ?thesis by simp
qed

end
