(* ===== verification/Shell_Parse.thy ===== *)
theory Shell_Parse
  imports Ulib
begin

text \<open>
  The command parser of the shell (userspace/sh.c): tokens, the recursive descent, and the in-place
  termination of the words. Positions in the line stand for the pointers into it. The parser is proved
  to return on every line, to leave each word of the command as a string of its own, and to read back
  every command tree that is written out.
\<close>

section \<open>Commands\<close>

text \<open>\<open>struct cmd\<close> and its variants; the type of a word is a parameter. In the parser it is the pair of a
  pointer to its start and a pointer to its end (\<open>argv[i]\<close> and \<open>eargv[i]\<close>, \<open>file\<close> and \<open>efile\<close>).\<close>

datatype 'w cmd =
  EXEC "'w list"
| REDIR "'w cmd" 'w int int
| PIPE "'w cmd" "'w cmd"
| LIST "'w cmd" "'w cmd"
| BACK "'w cmd"

type_synonym word_at = "nat \<times> nat"

definition MAXARGS :: nat where
  "MAXARGS = 10"

text \<open>The modes of \<open>open\<close> (kernel/include/fcntl.h).\<close>

definition U_RDONLY :: int where
  "U_RDONLY = 0"

definition U_WRONLY :: int where
  "U_WRONLY = 1"

definition U_CREAT :: int where
  "U_CREAT = 0x100"

text \<open>What a parsing function does: it returns a value and the new position, or it writes a message and exits.\<close>

datatype 'a parse = Parsed 'a nat | Sh_panic "uchar list" | No_fuel

primrec bindP :: "'a parse \<Rightarrow> ('a \<Rightarrow> nat \<Rightarrow> 'b parse) \<Rightarrow> 'b parse" where
  "bindP (Parsed x s) f = f x s"
| "bindP (Sh_panic m) f = Sh_panic m"
| "bindP No_fuel f = No_fuel"

lemma bindP_cong [fundef_cong]:
  "p = p' \<Longrightarrow> (\<And>x s. p' = Parsed x s \<Longrightarrow> f x s = g x s) \<Longrightarrow> bindP p f = bindP p' g"
  by (cases p') simp_all

definition sh_panic :: "string \<Rightarrow> 'a parse" where
  "sh_panic msg = Sh_panic (ustr msg @ [0x0A])"

section \<open>Tokens\<close>

definition whitespace :: "uchar list" where
  "whitespace = [0x20, 0x09, 0x0D, 0x0A, 0x0B]"

definition symbols :: "uchar list" where
  "symbols = ustr ''<|>&;()''"

definition char_in :: "uchar list \<Rightarrow> uchar \<Rightarrow> bool" where
  "char_in toks c \<longleftrightarrow> u_strchr toks c \<noteq> None"

text \<open>The line is a string, so that the character at its end is the NUL.\<close>

definition char_at :: "uchar list \<Rightarrow> nat \<Rightarrow> uchar" where
  "char_at buf s = (if s < length buf then buf ! s else 0)"

function skip_white :: "uchar list \<Rightarrow> nat \<Rightarrow> nat" where
  "skip_white buf s =
     (if s < length buf \<and> char_in whitespace (char_at buf s) then skip_white buf (Suc s) else s)"
  by pat_completeness auto
termination by (relation "measure (\<lambda>(buf, s). length buf - s)") auto

function skip_word :: "uchar list \<Rightarrow> nat \<Rightarrow> nat" where
  "skip_word buf s =
     (if s < length buf \<and> \<not> char_in whitespace (char_at buf s) \<and> \<not> char_in symbols (char_at buf s)
      then skip_word buf (Suc s) else s)"
  by pat_completeness auto
termination by (relation "measure (\<lambda>(buf, s). length buf - s)") auto

declare skip_white.simps [simp del] skip_word.simps [simp del]

text \<open>The kind of the token, its start, its end and the new position.\<close>

definition gettoken :: "uchar list \<Rightarrow> nat \<Rightarrow> uchar \<times> nat \<times> nat \<times> nat" where
  "gettoken buf s =
     (let q = skip_white buf s;
          c = char_at buf q;
          (ret, e) =
            (if c = 0 then (c, q)
             else if c \<in> {0x7C, 0x28, 0x29, 0x3B, 0x26, 0x3C} then (c, q + 1)
             else if c = 0x3E then
               (if char_at buf (q + 1) = 0x3E then (0x2B, q + 2) else (c, q + 1))
             else (0x61, skip_word buf q))
      in (ret, q, e, skip_white buf e))"

definition peek :: "uchar list \<Rightarrow> nat \<Rightarrow> uchar list \<Rightarrow> bool \<times> nat" where
  "peek buf s toks =
     (let s = skip_white buf s in (char_at buf s \<noteq> 0 \<and> char_in toks (char_at buf s), s))"

lemma skip_white_mono: "s \<le> skip_white buf s"
  by (induction buf s rule: skip_white.induct) (subst skip_white.simps, auto)

lemma skip_white_le: "s \<le> length buf \<Longrightarrow> skip_white buf s \<le> length buf"
  by (induction buf s rule: skip_white.induct) (subst skip_white.simps, auto)

lemma skip_word_mono: "s \<le> skip_word buf s"
  by (induction buf s rule: skip_word.induct) (subst skip_word.simps, auto)

lemma skip_word_le: "s \<le> length buf \<Longrightarrow> skip_word buf s \<le> length buf"
  by (induction buf s rule: skip_word.induct) (subst skip_word.simps, auto)

lemma char_at_end: "char_at buf s \<noteq> 0 \<Longrightarrow> s < length buf"
  by (auto simp: char_at_def split: if_splits)

lemma white_fix: "\<not> (skip_white buf s < length buf \<and> char_in whitespace (char_at buf (skip_white buf s)))"
  by (induction buf s rule: skip_white.induct) (subst (1 2) skip_white.simps, auto)

lemma char_in_set: "char_in toks c \<longleftrightarrow> c \<in> set toks"
  unfolding char_in_def by (induction toks) auto

lemma gettoken_mono:
  assumes "gettoken buf s = (ret, q, e, s')"
  shows "s \<le> q" and "q \<le> e" and "e \<le> s'"
  using assms skip_white_mono [of s buf] skip_white_mono [of e buf] skip_word_mono [of q buf]
  by (auto simp: gettoken_def Let_def split: if_splits)

lemma gettoken_le:
  assumes "gettoken buf s = (ret, q, e, s')" and "s \<le> length buf"
  shows "s' \<le> length buf"
proof -
  have q: "skip_white buf s \<le> length buf" using skip_white_le [OF assms(2)] .
  have "e \<le> length buf"
    using assms(1) q skip_word_le [OF q] char_at_end [of buf "skip_white buf s"] char_at_end [of buf "Suc (skip_white buf s)"]
    by (auto simp: gettoken_def Let_def split: if_splits)
  then have "skip_white buf e \<le> length buf" by (rule skip_white_le)
  with assms(1) show ?thesis by (auto simp: gettoken_def Let_def split: if_splits prod.splits)
qed

text \<open>Every token but the end of the line takes up a character.\<close>

lemma gettoken_progress:
  assumes "gettoken buf s = (ret, q, e, s')" and "ret \<noteq> 0"
  shows "q < e" and "q < length buf" and "s < s'" and "s < length buf"
proof -
  let ?c = "char_at buf q"
  have q: "q = skip_white buf s" using assms(1) by (auto simp: gettoken_def Let_def split: if_splits)
  have c: "?c \<noteq> 0" using assms by (auto simp: gettoken_def Let_def split: if_splits)
  then show lt: "q < length buf" by (rule char_at_end)
  have "\<not> char_in whitespace ?c" using white_fix [of buf s] lt q by auto
  then have "q < skip_word buf q" if "\<not> char_in symbols ?c"
    using that lt skip_word_mono [of "Suc q" buf] by (subst skip_word.simps) auto
  moreover have "char_in symbols ?c \<Longrightarrow> ?c \<in> {0x7C, 0x28, 0x29, 0x3B, 0x26, 0x3C, 0x3E}"
    by (auto simp: char_in_set symbols_def)
  ultimately show "q < e"
    using assms(1) c q by (auto simp: gettoken_def Let_def split: if_splits)
  then show "s < s'" "s < length buf" using gettoken_mono [OF assms(1)] lt by auto
qed

lemma peek_le: "peek buf s toks = (b, s') \<Longrightarrow> s \<le> length buf \<Longrightarrow> s' \<le> length buf"
  using skip_white_le by (auto simp: peek_def Let_def)

lemma peek_mono: "peek buf s toks = (b, s') \<Longrightarrow> s \<le> s'"
  using skip_white_mono by (auto simp: peek_def Let_def)

lemma skip_white_idem [simp]: "skip_white buf (skip_white buf s) = skip_white buf s"
  using white_fix [of buf s] by (subst skip_white.simps) auto

lemma peek_True:
  assumes "peek buf s toks = (True, s1)"
  shows "skip_white buf s1 = s1" and "char_at buf s1 \<in> set toks" and "char_at buf s1 \<noteq> 0" and "s1 < length buf"
  using assms char_at_end by (auto simp: peek_def Let_def char_in_set)

lemma peek_token:
  assumes "peek buf s toks = (True, s1)" and "gettoken buf s1 = (tok, q, e, s')"
  shows "tok \<noteq> 0"
  using assms(2) peek_True(1,3) [OF assms(1)] by (auto simp: gettoken_def Let_def split: if_splits)

text \<open>The measure of the loops: what is left of the line.\<close>

lemma token_after_peek:
  "(b, s1) = peek buf s toks \<Longrightarrow> (tok, q, e, s') = gettoken buf s1 \<Longrightarrow> tok \<noteq> 0 \<Longrightarrow> s' \<le> s'' \<Longrightarrow>
   length buf - s'' < length buf - s"
  using peek_mono [of buf s toks b s1] gettoken_progress(3,4) [of buf s1 tok q e s'] by simp

lemma tokens_after_peek:
  "(b, s1) = peek buf s toks \<Longrightarrow> (tok, q, e, s') = gettoken buf s1 \<Longrightarrow>
   (t2, q2, e2, s'') = gettoken buf s' \<Longrightarrow> t2 \<noteq> 0 \<Longrightarrow> length buf - s'' < length buf - s"
  using peek_mono [of buf s toks b s1] gettoken_mono [of buf s1 tok q e s'] gettoken_progress(3,4) [of buf s' t2 q2 e2 s'']
  by simp

section \<open>The parser\<close>

text \<open>\<open>parseexec\<close> keeps a pointer to the command it fills with words while redirections are wrapped around it:
  the words go to the innermost command.\<close>

fun add_arg :: "'w cmd \<Rightarrow> 'w \<Rightarrow> 'w cmd" where
  "add_arg (EXEC ws) w = EXEC (ws @ [w])"
| "add_arg (REDIR c f mode fd) w = REDIR (add_arg c w) f mode fd"
| "add_arg c w = c"

function parseredirs :: "word_at cmd \<Rightarrow> uchar list \<Rightarrow> nat \<Rightarrow> word_at cmd parse" where
  "parseredirs cmd buf s =
     (case peek buf s (ustr ''<>'') of (more, s) \<Rightarrow>
      if \<not> more then Parsed cmd s
      else case gettoken buf s of (tok, _, _, s) \<Rightarrow>
        case gettoken buf s of (t2, q, eq, s) \<Rightarrow>
        if t2 \<noteq> 0x61 then sh_panic ''missing file for redirection''
        else if tok = 0x3C then parseredirs (REDIR cmd (q, eq) U_RDONLY 0) buf s
        else if tok = 0x3E then parseredirs (REDIR cmd (q, eq) (or U_WRONLY U_CREAT) 1) buf s
        else if tok = 0x2B then parseredirs (REDIR cmd (q, eq) (or U_WRONLY U_CREAT) 1) buf s
        else parseredirs cmd buf s)"
  by pat_completeness auto
termination
  by (relation "measure (\<lambda>(cmd, buf, s). length buf - s)")
    (auto intro: tokens_after_peek)

declare parseredirs.simps [simp del]

lemma parseredirs_mono: "parseredirs cmd buf s = Parsed c s' \<Longrightarrow> s \<le> s'"
proof (induction cmd buf s rule: parseredirs.induct)
  case (1 cmd buf s)
  obtain b s1 where p: "peek buf s (ustr ''<>'') = (b, s1)" by fastforce
  obtain tok u v s2 where g: "gettoken buf s1 = (tok, u, v, s2)" using prod_cases4 by blast
  obtain t2 q eq s3 where g2: "gettoken buf s2 = (t2, q, eq, s3)" using prod_cases4 by blast
  have le: "s \<le> s1" "s1 \<le> s3"
    using peek_mono [OF p] gettoken_mono [OF g] gettoken_mono [OF g2] by linarith+
  show ?case
  proof (cases "b \<and> t2 = 0x61")
    case True
    note IH = "1.IH" [OF p [symmetric] _ g [symmetric] refl refl g2 [symmetric] refl refl]
    show ?thesis
      using "1.prems" IH True p g g2 le by (subst (asm) parseredirs.simps) (auto split: if_splits)
  qed (use "1.prems" p g g2 le in \<open>subst (asm) parseredirs.simps, auto simp: sh_panic_def split: if_splits\<close>)
qed

function parseexec_loop :: "uchar list \<Rightarrow> word_at cmd \<Rightarrow> nat \<Rightarrow> nat \<Rightarrow> word_at cmd parse" where
  "parseexec_loop buf ret argc s =
     (case peek buf s (ustr ''|)&;'') of (stop, s) \<Rightarrow>
      if stop then Parsed ret s
      else case gettoken buf s of (tok, q, eq, s) \<Rightarrow>
        if tok = 0 then Parsed ret s
        else if tok \<noteq> 0x61 then sh_panic ''syntax''
        else if argc + 1 \<ge> MAXARGS then sh_panic ''too many args''
        else bindP (parseredirs (add_arg ret (q, eq)) buf s) (\<lambda>ret s. parseexec_loop buf ret (argc + 1) s))"
  by pat_completeness auto
termination
  by (relation "measure (\<lambda>(buf, ret, argc, s). length buf - s)")
    (auto dest!: parseredirs_mono intro: token_after_peek)

function back_loop :: "uchar list \<Rightarrow> word_at cmd \<Rightarrow> nat \<Rightarrow> word_at cmd \<times> nat" where
  "back_loop buf cmd s =
     (case peek buf s (ustr ''&'') of (more, s') \<Rightarrow>
      if more then case gettoken buf s' of (_, _, _, s') \<Rightarrow> back_loop buf (BACK cmd) s' else (cmd, s'))"
  by pat_completeness auto
termination
  by (relation "measure (\<lambda>(buf, cmd, s). length buf - s)") (auto intro: token_after_peek dest: peek_token [OF sym sym])

declare parseexec_loop.simps [simp del] back_loop.simps [simp del]

text \<open>The mutually recursive part. The fuel bounds the depth of the calls.\<close>

fun parseline :: "nat \<Rightarrow> uchar list \<Rightarrow> nat \<Rightarrow> word_at cmd parse"
  and parsepipe :: "nat \<Rightarrow> uchar list \<Rightarrow> nat \<Rightarrow> word_at cmd parse"
  and parseexec :: "nat \<Rightarrow> uchar list \<Rightarrow> nat \<Rightarrow> word_at cmd parse"
  and parseblock :: "nat \<Rightarrow> uchar list \<Rightarrow> nat \<Rightarrow> word_at cmd parse" where
  "parseline 0 buf s = No_fuel"
| "parseline (Suc n) buf s =
     bindP (parsepipe n buf s) (\<lambda>cmd s.
       case back_loop buf cmd s of (cmd, s) \<Rightarrow>
       case peek buf s (ustr '';'') of (more, s) \<Rightarrow>
       if more then
         case gettoken buf s of (_, _, _, s) \<Rightarrow> bindP (parseline n buf s) (\<lambda>right s. Parsed (LIST cmd right) s)
       else Parsed cmd s)"
| "parsepipe 0 buf s = No_fuel"
| "parsepipe (Suc n) buf s =
     bindP (parseexec n buf s) (\<lambda>cmd s.
       case peek buf s (ustr ''|'') of (more, s) \<Rightarrow>
       if more then
         case gettoken buf s of (_, _, _, s) \<Rightarrow> bindP (parsepipe n buf s) (\<lambda>right s. Parsed (PIPE cmd right) s)
       else Parsed cmd s)"
| "parseexec 0 buf s = No_fuel"
| "parseexec (Suc n) buf s =
     (case peek buf s (ustr ''('') of (block, s) \<Rightarrow>
      if block then parseblock n buf s
      else bindP (parseredirs (EXEC []) buf s) (\<lambda>ret s. parseexec_loop buf ret 0 s))"
| "parseblock 0 buf s = No_fuel"
| "parseblock (Suc n) buf s =
     (case peek buf s (ustr ''('') of (op, s) \<Rightarrow>
      if \<not> op then sh_panic ''parseblock''
      else case gettoken buf s of (_, _, _, s) \<Rightarrow>
        bindP (parseline n buf s) (\<lambda>cmd s.
          case peek buf s (ustr '')'') of (cl, s) \<Rightarrow>
          if \<not> cl then sh_panic ''syntax - missing )''
          else case gettoken buf s of (_, _, _, s) \<Rightarrow> parseredirs cmd buf s))"

text \<open>The end pointers of the words are overwritten with NUL.\<close>

primrec nulterminate :: "word_at cmd \<Rightarrow> uchar list \<Rightarrow> uchar list" where
  "nulterminate (EXEC ws) a = fold (\<lambda>(q, eq) a. a[eq := 0]) ws a"
| "nulterminate (REDIR c f mode fd) a = (nulterminate c a)[snd f := 0]"
| "nulterminate (PIPE l r) a = nulterminate r (nulterminate l a)"
| "nulterminate (LIST l r) a = nulterminate r (nulterminate l a)"
| "nulterminate (BACK c) a = nulterminate c a"

text \<open>The command and the characters of the line with its terminating NUL.\<close>

definition parse_fuel :: "uchar list \<Rightarrow> nat" where
  "parse_fuel buf = 4 * length buf + 4"

definition parsecmd :: "uchar list \<Rightarrow> (word_at cmd \<times> uchar list) parse" where
  "parsecmd buf =
     bindP (parseline (parse_fuel buf) buf 0) (\<lambda>cmd s.
       case peek buf s [] of (_, s) \<Rightarrow>
       if s \<noteq> length buf then Sh_panic (ustr ''leftovers: '' @ drop s buf @ [0x0A] @ ustr ''syntax'' @ [0x0A])
       else Parsed (cmd, nulterminate cmd (buf @ [0])) s)"

section \<open>The words of the command\<close>

definition special :: "uchar \<Rightarrow> bool" where
  "special c \<longleftrightarrow> c \<in> set whitespace \<or> c \<in> set symbols"

text \<open>A longest stretch of ordinary characters.\<close>

definition is_word :: "uchar list \<Rightarrow> word_at \<Rightarrow> bool" where
  "is_word buf w \<longleftrightarrow> fst w < snd w \<and> snd w \<le> length buf \<and>
     (\<forall>i. fst w \<le> i \<and> i < snd w \<longrightarrow> \<not> special (buf ! i)) \<and> (snd w < length buf \<longrightarrow> special (buf ! snd w))"

lemma skip_word_spec:
  "s \<le> i \<Longrightarrow> i < skip_word buf s \<Longrightarrow> i < length buf \<and> \<not> special (buf ! i)"
  "skip_word buf s < length buf \<Longrightarrow> special (buf ! skip_word buf s)"
proof (induction buf s rule: skip_word.induct)
  case (1 buf s)
  { case 1
    then show ?case
      using "1.IH"(1) by (cases "i = s") (subst (asm) skip_word.simps, auto simp: special_def char_in_set char_at_def split: if_splits)+
  next
    case 2
    then show ?case
      using "1.IH"(2) by (subst skip_word.simps, subst (asm) (2) skip_word.simps) (auto simp: special_def char_in_set char_at_def split: if_splits) }
qed

lemma gettoken_word:
  assumes "gettoken buf s = (0x61, q, e, s')" and "s \<le> length buf"
  shows "is_word buf (q, e)"
proof -
  have e: "e = skip_word buf q" and q: "q = skip_white buf s"
    using assms(1) by (auto simp: gettoken_def Let_def split: if_splits)
  have "e \<le> length buf" using skip_word_le [of q buf] skip_white_le [OF assms(2)] e q by simp
  then show ?thesis
    using gettoken_progress(1) [OF assms(1)] skip_word_spec(1) [of q _ buf] skip_word_spec(2) [of buf q] e by (auto simp: is_word_def)
qed

text \<open>No command has more than \<open>MAXARGS - 1\<close> words.\<close>

primrec args_ok :: "'w cmd \<Rightarrow> bool" where
  "args_ok (EXEC ws) \<longleftrightarrow> length ws < MAXARGS"
| "args_ok (REDIR c f mode fd) \<longleftrightarrow> args_ok c"
| "args_ok (PIPE l r) \<longleftrightarrow> args_ok l \<and> args_ok r"
| "args_ok (LIST l r) \<longleftrightarrow> args_ok l \<and> args_ok r"
| "args_ok (BACK c) \<longleftrightarrow> args_ok c"

text \<open>The redirections are those of the three operators.\<close>

primrec redirs_ok :: "'w cmd \<Rightarrow> bool" where
  "redirs_ok (EXEC ws) \<longleftrightarrow> True"
| "redirs_ok (REDIR c f mode fd) \<longleftrightarrow> redirs_ok c \<and> (mode, fd) \<in> {(U_RDONLY, 0), (or U_WRONLY U_CREAT, 1)}"
| "redirs_ok (PIPE l r) \<longleftrightarrow> redirs_ok l \<and> redirs_ok r"
| "redirs_ok (LIST l r) \<longleftrightarrow> redirs_ok l \<and> redirs_ok r"
| "redirs_ok (BACK c) \<longleftrightarrow> redirs_ok c"

definition wf_cmd :: "uchar list \<Rightarrow> word_at cmd \<Rightarrow> bool" where
  "wf_cmd buf c \<longleftrightarrow> (\<forall>w \<in> set_cmd c. is_word buf w) \<and> args_ok c \<and> redirs_ok c"

lemma wf_cmd_simps [simp]:
  "wf_cmd buf (EXEC ws) \<longleftrightarrow> (\<forall>w \<in> set ws. is_word buf w) \<and> length ws < MAXARGS"
  "wf_cmd buf (REDIR c f mode fd) \<longleftrightarrow>
     wf_cmd buf c \<and> is_word buf f \<and> (mode, fd) \<in> {(U_RDONLY, 0), (or U_WRONLY U_CREAT, 1)}"
  "wf_cmd buf (PIPE l r) \<longleftrightarrow> wf_cmd buf l \<and> wf_cmd buf r"
  "wf_cmd buf (LIST l r) \<longleftrightarrow> wf_cmd buf l \<and> wf_cmd buf r"
  "wf_cmd buf (BACK c) \<longleftrightarrow> wf_cmd buf c"
  by (auto simp: wf_cmd_def)

text \<open>What a parsing function started at \<open>s\<close> gives.\<close>

definition gives :: "uchar list \<Rightarrow> nat \<Rightarrow> (word_at cmd \<Rightarrow> bool) \<Rightarrow> word_at cmd parse \<Rightarrow> bool" where
  "gives buf s P r \<longleftrightarrow> (\<forall>c s'. r = Parsed c s' \<longrightarrow> s \<le> s' \<and> s' \<le> length buf \<and> P c)"

lemma gives_simps [simp]:
  "gives buf s P (Parsed c s') \<longleftrightarrow> s \<le> s' \<and> s' \<le> length buf \<and> P c"
  "gives buf s P (Sh_panic m)" "gives buf s P No_fuel" "gives buf s P (sh_panic msg)"
  by (simp_all add: gives_def sh_panic_def)

lemma gives_mono: "gives buf s' P r \<Longrightarrow> s \<le> s' \<Longrightarrow> (\<And>c. P c \<Longrightarrow> Q c) \<Longrightarrow> gives buf s Q r"
  by (auto simp: gives_def)

lemma gives_bindP:
  assumes "gives buf s P r" and "\<And>c s'. P c \<Longrightarrow> s \<le> s' \<Longrightarrow> s' \<le> length buf \<Longrightarrow> gives buf s' Q (f c s')"
  shows "gives buf s Q (bindP r f)"
  using assms by (cases r) (auto intro: gives_mono)

lemma prod4: obtains a b c d where "x = (a, b, c, d)"
  by (cases x) auto

lemma parseredirs_gives:
  assumes "\<And>c f mode fd. P c \<Longrightarrow> is_word buf f \<Longrightarrow> (mode, fd) \<in> {(U_RDONLY, 0), (or U_WRONLY U_CREAT, 1)} \<Longrightarrow> P (REDIR c f mode fd)"
  shows "P cmd \<Longrightarrow> s \<le> length buf \<Longrightarrow> gives buf s P (parseredirs cmd buf s)"
proof (induction "length buf - s" arbitrary: cmd s rule: less_induct)
  case less
  obtain b s1 where p: "peek buf s (ustr ''<>'') = (b, s1)" by fastforce
  obtain tok u v s2 where g: "gettoken buf s1 = (tok, u, v, s2)" by (rule prod4)
  obtain t2 q eq s3 where g2: "gettoken buf s2 = (t2, q, eq, s3)" by (rule prod4)
  note le = peek_mono [OF p] peek_le [OF p less.prems(2)]
  show ?case
  proof (cases "b \<and> t2 = 0x61")
    case True
    have l2: "s2 \<le> length buf" "s \<le> s3" "s3 \<le> length buf"
      using gettoken_le [OF g le(2)] gettoken_mono [OF g] gettoken_mono [OF g2] gettoken_le [OF g2] le by simp_all
    have lt: "length buf - s3 < length buf - s"
      by (rule tokens_after_peek [OF p [symmetric] g [symmetric] g2 [symmetric]]) (use True in simp)
    have w: "is_word buf (q, eq)" using gettoken_word g2 True l2 by blast
    have "gives buf s P (parseredirs c buf s3)" if "P c" for c
      using less.hyps [OF lt that l2(3)] l2(2) by (rule gives_mono)
    with True p g g2 w less.prems(1) show ?thesis by (subst parseredirs.simps) (auto intro!: assms)
  qed (use less.prems p g g2 le in \<open>subst parseredirs.simps, auto\<close>)
qed

text \<open>The innermost command has \<open>n\<close> words.\<close>

fun words_in :: "'w cmd \<Rightarrow> nat option" where
  "words_in (EXEC ws) = Some (length ws)"
| "words_in (REDIR c f mode fd) = words_in c"
| "words_in c = None"

lemma add_arg_wf:
  "words_in c = Some n \<Longrightarrow> wf_cmd buf c \<Longrightarrow> is_word buf w \<Longrightarrow> n + 1 < MAXARGS \<Longrightarrow>
   wf_cmd buf (add_arg c w) \<and> words_in (add_arg c w) = Some (n + 1)"
  by (induction c rule: words_in.induct) auto

lemma parseexec_loop_gives:
  "words_in ret = Some argc \<Longrightarrow> wf_cmd buf ret \<Longrightarrow> s \<le> length buf \<Longrightarrow>
   gives buf s (wf_cmd buf) (parseexec_loop buf ret argc s)"
proof (induction "length buf - s" arbitrary: ret argc s rule: less_induct)
  case less
  obtain b s1 where p: "peek buf s (ustr ''|)&;'') = (b, s1)" by fastforce
  obtain tok q eq s2 where g: "gettoken buf s1 = (tok, q, eq, s2)" by (rule prod4)
  note le = peek_mono [OF p] peek_le [OF p less.prems(3)]
  have l2: "s1 \<le> s2" "s2 \<le> length buf" using gettoken_mono [OF g] gettoken_le [OF g le(2)] by simp_all
  show ?case
  proof (cases "\<not> b \<and> tok = 0x61 \<and> argc + 1 < MAXARGS")
    case True
    let ?P = "\<lambda>c. wf_cmd buf c \<and> words_in c = Some (argc + 1)"
    have w: "is_word buf (q, eq)" using gettoken_word g True le by blast
    have "gives buf s2 ?P (parseredirs (add_arg ret (q, eq)) buf s2)"
      by (rule parseredirs_gives [of ?P]) (use add_arg_wf [OF less.prems(1,2) w] True l2 in simp_all)
    then have "gives buf s2 (wf_cmd buf) (bindP (parseredirs (add_arg ret (q, eq)) buf s2) (\<lambda>ret s. parseexec_loop buf ret (argc + 1) s))"
    proof (rule gives_bindP)
      fix c s' assume c: "?P c" "s2 \<le> s'" "s' \<le> length buf"
      have "length buf - s' < length buf - s"
        by (rule token_after_peek [OF p [symmetric] g [symmetric] _ c(2)]) (use True in simp)
      then show "gives buf s' (wf_cmd buf) (parseexec_loop buf c (argc + 1) s')" using less.hyps c by blast
    qed
    with True p g le l2 show ?thesis by (subst parseexec_loop.simps) (auto elim: gives_mono)
  qed (use less.prems p g le l2 in \<open>subst parseexec_loop.simps, auto\<close>)
qed

lemma back_loop_gives:
  "back_loop buf cmd s = (c, s') \<Longrightarrow> wf_cmd buf cmd \<Longrightarrow> s \<le> length buf \<Longrightarrow> wf_cmd buf c \<and> s \<le> s' \<and> s' \<le> length buf"
proof (induction "length buf - s" arbitrary: cmd s rule: less_induct)
  case less
  obtain b s1 where p: "peek buf s (ustr ''&'') = (b, s1)" by fastforce
  obtain tok q eq s2 where g: "gettoken buf s1 = (tok, q, eq, s2)" by (rule prod4)
  note le = peek_mono [OF p] peek_le [OF p less.prems(3)]
  have l2: "s1 \<le> s2" "s2 \<le> length buf" using gettoken_mono [OF g] gettoken_le [OF g le(2)] by simp_all
  have "b \<Longrightarrow> length buf - s2 < length buf - s"
    using token_after_peek [OF p [symmetric] g [symmetric] _ order_refl] peek_token [OF _ g] p by auto
  then show ?case
    using less.hyps [of s2 "BACK cmd"] less.prems p g le l2
    by (cases b) (subst (asm) (2) back_loop.simps, auto)+
qed

text \<open>Enough fuel for a function that needs \<open>k\<close> calls before it takes up a character.\<close>

definition returns :: "nat \<Rightarrow> nat \<Rightarrow> uchar list \<Rightarrow> nat \<Rightarrow> word_at cmd parse \<Rightarrow> bool" where
  "returns n k buf s r \<longleftrightarrow> gives buf s (wf_cmd buf) r \<and> (4 * (length buf - s) + k \<le> n \<longrightarrow> r \<noteq> No_fuel)"

lemma returns_panic [simp]: "returns n k buf s (sh_panic msg)"
  by (simp add: returns_def) (simp add: sh_panic_def)

lemma returns_Parsed: "s \<le> s' \<Longrightarrow> s' \<le> length buf \<Longrightarrow> wf_cmd buf c \<Longrightarrow> returns n k buf s (Parsed c s')"
  by (simp add: returns_def)

lemma returns_later:
  "returns n k buf s' r \<Longrightarrow> s \<le> s' \<Longrightarrow> returns n k buf s r"
  by (auto simp: returns_def elim: gives_mono)

text \<open>A call one level down, of a function that needs less.\<close>

lemma returns_call:
  assumes r: "returns n k buf s1 r" and "s \<le> s1" and lt: "4 * (length buf - s1) + k < 4 * (length buf - s) + k'"
    and f: "\<And>c s'. wf_cmd buf c \<Longrightarrow> s1 \<le> s' \<Longrightarrow> s' \<le> length buf \<Longrightarrow> returns (Suc n) k' buf s' (f c s')"
  shows "returns (Suc n) k' buf s (bindP r f)"
proof (cases r)
  case (Parsed c s')
  then have "s1 \<le> s'" "s' \<le> length buf" "wf_cmd buf c" using r by (simp_all add: returns_def)
  then show ?thesis using f [of c s'] Parsed assms(2) by (auto intro: returns_later)
qed (use assms in \<open>auto simp: returns_def\<close>)

lemma returns_tail:
  assumes "returns n k buf s1 r" and "s \<le> s1" and "4 * (length buf - s1) + k < 4 * (length buf - s) + k'"
  shows "returns (Suc n) k' buf s r"
  using assms by (auto simp: returns_def elim: gives_mono)

lemma after_peek:
  assumes p: "peek buf s toks = (m, s1)" and m: "m" and g: "gettoken buf s1 = (tok, q, e, s2)" and "s \<le> length buf"
  shows "s < s2" and "s2 \<le> length buf" and "4 * (length buf - s2) + 4 \<le> 4 * (length buf - s)"
proof -
  have "tok \<noteq> 0" using peek_token [OF _ g] p m by simp
  then have "s1 < s2" "s1 < length buf" using gettoken_progress(3,4) [OF g] by simp_all
  then show "s < s2" "s2 \<le> length buf" using peek_mono [OF p] gettoken_le [OF g] by simp_all
  then show "4 * (length buf - s2) + 4 \<le> 4 * (length buf - s)" by linarith
qed

lemma parseredirs_fuel: "parseredirs cmd buf s \<noteq> No_fuel"
proof (induction "length buf - s" arbitrary: cmd s rule: less_induct)
  case less
  obtain b s1 where p: "peek buf s (ustr ''<>'') = (b, s1)" by fastforce
  obtain tok u v s2 where g: "gettoken buf s1 = (tok, u, v, s2)" by (rule prod4)
  obtain t2 q eq s3 where g2: "gettoken buf s2 = (t2, q, eq, s3)" by (rule prod4)
  have "t2 = 0x61 \<Longrightarrow> length buf - s3 < length buf - s"
    using tokens_after_peek [OF p [symmetric] g [symmetric] g2 [symmetric]] by simp
  then show ?case using less.hyps p g g2 by (subst parseredirs.simps) (simp add: sh_panic_def)
qed

lemma parseexec_loop_fuel: "parseexec_loop buf ret argc s \<noteq> No_fuel"
proof (induction "length buf - s" arbitrary: ret argc s rule: less_induct)
  case less
  obtain b s1 where p: "peek buf s (ustr ''|)&;'') = (b, s1)" by fastforce
  obtain tok q eq s2 where g: "gettoken buf s1 = (tok, q, eq, s2)" by (rule prod4)
  have "tok = 0x61 \<Longrightarrow> s2 \<le> s' \<Longrightarrow> length buf - s' < length buf - s" for s'
    using token_after_peek [OF p [symmetric] g [symmetric]] by simp
  then show ?case
    using less.hyps p g parseredirs_mono [of "add_arg ret (q, eq)" buf s2] parseredirs_fuel [of "add_arg ret (q, eq)" buf s2]
    by (subst parseexec_loop.simps) (cases "parseredirs (add_arg ret (q, eq)) buf s2"; simp add: sh_panic_def)
qed

lemma parseredirs_returns:
  assumes "wf_cmd buf cmd" and "s \<le> length buf"
  shows "returns n k buf s (parseredirs cmd buf s)"
  using parseredirs_gives [of "wf_cmd buf", OF _ assms] parseredirs_fuel by (simp add: returns_def)

text \<open>One function after the other, given the functions it calls.\<close>

lemma parseline_returns:
  assumes "\<And>s. s \<le> length buf \<Longrightarrow> returns n 4 buf s (parseline n buf s)"
    and "\<And>s. s \<le> length buf \<Longrightarrow> returns n 3 buf s (parsepipe n buf s)" and "s \<le> length buf"
  shows "returns (Suc n) 4 buf s (parseline (Suc n) buf s)"
  unfolding parseline.simps
proof (rule returns_call [OF assms(2) [OF assms(3)]])
  fix c s' assume c: "wf_cmd buf c" "s \<le> s'" "s' \<le> length buf"
  obtain c2 s2 where b: "back_loop buf c s' = (c2, s2)" by fastforce
  obtain m s3 where p: "peek buf s2 (ustr '';'') = (m, s3)" by fastforce
  obtain tok q e s4 where g: "gettoken buf s3 = (tok, q, e, s4)" by (rule prod4)
  have b2: "wf_cmd buf c2" "s' \<le> s2" "s2 \<le> length buf" using back_loop_gives [OF b c(1,3)] by simp_all
  have "returns (Suc n) 4 buf s' (bindP (parseline n buf s4) (\<lambda>right s. Parsed (LIST c2 right) s))" if m
    using after_peek [OF p that g b2(3)] b2 by (intro returns_call [OF assms(1)] returns_Parsed) simp_all
  then show "returns (Suc n) 4 buf s' (case back_loop buf c s' of (cmd, s) \<Rightarrow> case peek buf s (ustr '';'') of (more, s) \<Rightarrow>
    if more then case gettoken buf s of (_, _, _, s) \<Rightarrow> bindP (parseline n buf s) (\<lambda>right s. Parsed (LIST cmd right) s)
    else Parsed cmd s)"
    using b p g b2 peek_mono [OF p] peek_le [OF p] by (auto intro!: returns_Parsed)
qed simp_all

lemma parsepipe_returns:
  assumes "\<And>s. s \<le> length buf \<Longrightarrow> returns n 3 buf s (parsepipe n buf s)"
    and "\<And>s. s \<le> length buf \<Longrightarrow> returns n 2 buf s (parseexec n buf s)" and "s \<le> length buf"
  shows "returns (Suc n) 3 buf s (parsepipe (Suc n) buf s)"
  unfolding parsepipe.simps
proof (rule returns_call [OF assms(2) [OF assms(3)]])
  fix c s' assume c: "wf_cmd buf c" "s \<le> s'" "s' \<le> length buf"
  obtain m s3 where p: "peek buf s' (ustr ''|'') = (m, s3)" by fastforce
  obtain tok q e s4 where g: "gettoken buf s3 = (tok, q, e, s4)" by (rule prod4)
  have "returns (Suc n) 3 buf s' (bindP (parsepipe n buf s4) (\<lambda>right s. Parsed (PIPE c right) s))" if m
    using after_peek [OF p that g c(3)] c by (intro returns_call [OF assms(1)] returns_Parsed) simp_all
  then show "returns (Suc n) 3 buf s' (case peek buf s' (ustr ''|'') of (more, s) \<Rightarrow>
    if more then case gettoken buf s of (_, _, _, s) \<Rightarrow> bindP (parsepipe n buf s) (\<lambda>right s. Parsed (PIPE c right) s)
    else Parsed c s)"
    using p g c peek_mono [OF p] peek_le [OF p] by (auto intro!: returns_Parsed)
qed simp_all

lemma parseexec_returns:
  assumes "\<And>s. s \<le> length buf \<Longrightarrow> returns n 1 buf s (parseblock n buf s)" and s: "s \<le> length buf"
  shows "returns (Suc n) 2 buf s (parseexec (Suc n) buf s)"
proof -
  obtain m s1 where p: "peek buf s (ustr ''('') = (m, s1)" by fastforce
  note le = peek_mono [OF p] peek_le [OF p s]
  let ?P = "\<lambda>c. wf_cmd buf c \<and> words_in c = Some 0" and ?r = "parseredirs (EXEC []) buf s1"
  have "gives buf s1 ?P ?r"
    by (rule parseredirs_gives [of ?P]) (use le in \<open>simp_all add: MAXARGS_def\<close>)
  then have "gives buf s1 (wf_cmd buf) (bindP ?r (\<lambda>ret s. parseexec_loop buf ret 0 s))"
    by (rule gives_bindP) (simp add: parseexec_loop_gives)
  moreover have "bindP ?r (\<lambda>ret s. parseexec_loop buf ret 0 s) \<noteq> No_fuel"
    using parseredirs_fuel [of "EXEC []" buf s1] parseexec_loop_fuel by (cases ?r) simp_all
  ultimately have "returns (Suc n) 2 buf s1 (bindP ?r (\<lambda>ret s. parseexec_loop buf ret 0 s))"
    by (simp add: returns_def)
  then have "returns (Suc n) 2 buf s (bindP ?r (\<lambda>ret s. parseexec_loop buf ret 0 s))"
    using le(1) by (rule returns_later)
  moreover have "returns (Suc n) 2 buf s (parseblock n buf s1)"
    using assms(1) [OF le(2)] le(1) by (rule returns_tail) (use le in simp)
  ultimately show ?thesis using p by simp
qed

lemma parseblock_returns:
  assumes "\<And>s. s \<le> length buf \<Longrightarrow> returns n 4 buf s (parseline n buf s)" and s: "s \<le> length buf"
  shows "returns (Suc n) 1 buf s (parseblock (Suc n) buf s)"
proof -
  obtain m s1 where p: "peek buf s (ustr ''('') = (m, s1)" by fastforce
  obtain tok q e s2 where g: "gettoken buf s1 = (tok, q, e, s2)" by (rule prod4)
  let ?f = "\<lambda>cmd s. case peek buf s (ustr '')'') of (cl, s) \<Rightarrow> if \<not> cl then sh_panic ''syntax - missing )''
    else case gettoken buf s of (_, _, _, s) \<Rightarrow> parseredirs cmd buf s"
  have "returns (Suc n) 1 buf s (bindP (parseline n buf s2) ?f)" if m
  proof (rule returns_call [OF assms(1)])
    fix c s' assume c: "wf_cmd buf c" "s2 \<le> s'" "s' \<le> length buf"
    obtain m3 s3 where p3: "peek buf s' (ustr '')'') = (m3, s3)" by fastforce
    obtain tok q e s4 where g3: "gettoken buf s3 = (tok, q, e, s4)" by (rule prod4)
    have "returns (Suc n) 1 buf s' (parseredirs c buf s4)" if m3
      using returns_later [OF parseredirs_returns [OF c(1)]] after_peek [OF p3 that g3 c(3)] by simp
    then show "returns (Suc n) 1 buf s' (?f c s')" using p3 g3 by simp
  qed (use after_peek [OF p that g s] in simp_all)
  then show ?thesis using p g by simp
qed

lemma parser_returns:
  "s \<le> length buf \<Longrightarrow> returns n 4 buf s (parseline n buf s)"
  "s \<le> length buf \<Longrightarrow> returns n 3 buf s (parsepipe n buf s)"
  "s \<le> length buf \<Longrightarrow> returns n 2 buf s (parseexec n buf s)"
  "s \<le> length buf \<Longrightarrow> returns n 1 buf s (parseblock n buf s)"
proof (induction n arbitrary: s)
  case (Suc n)
  { case 1 show ?case using Suc(1,2) 1 by (rule parseline_returns) }
  { case 2 show ?case using Suc(2,3) 2 by (rule parsepipe_returns) }
  { case 3 show ?case using Suc(4) 3 by (rule parseexec_returns) }
  { case 4 show ?case using Suc(1) 4 by (rule parseblock_returns) }
qed (simp_all add: returns_def)

section \<open>The words become strings\<close>

text \<open>The string that starts at a pointer into the line.\<close>

definition string_at :: "uchar list \<Rightarrow> nat \<Rightarrow> uchar list" where
  "string_at a q = takeWhile (\<lambda>c. c \<noteq> 0) (drop q a)"

definition word_text :: "uchar list \<Rightarrow> word_at \<Rightarrow> uchar list" where
  "word_text buf w = take (snd w - fst w) (drop (fst w) buf)"

text \<open>The effect of the stores: NUL at the end of each word, everything else unchanged.\<close>

lemma fold_ends:
  fixes a :: "uchar list"
  shows "length (fold (\<lambda>(q, eq) a. a[eq := 0]) ws a) = length a \<and>
   (\<forall>i < length a. fold (\<lambda>(q, eq) a. a[eq := 0]) ws a ! i = (if i \<in> snd ` set ws then 0 else a ! i))"
proof (induction ws arbitrary: a)
  case (Cons w ws)
  obtain q e where w: "w = (q, e)" by fastforce
  show ?case using Cons.IH [of "a[e := (0 :: uchar)]"] by (auto simp: w nth_list_update)
qed simp

lemma nulterminate_effect:
  "length (nulterminate c a) = length a \<and>
   (\<forall>i < length a. nulterminate c a ! i = (if i \<in> snd ` set_cmd c then 0 else a ! i))"
proof (induction c arbitrary: a)
  case (EXEC ws)
  then show ?case using fold_ends [of ws a] by simp
next
  case (PIPE l r)
  then show ?case by (auto simp: PIPE [of a] PIPE [of "nulterminate l a"])
next
  case (LIST l r)
  then show ?case by (auto simp: LIST [of a] LIST [of "nulterminate l a"])
next
  case (REDIR c f mode fd)
  obtain q e where f: "f = (q, e)" by fastforce
  show ?case using REDIR [of a] by (cases "e < length a") (auto simp: f nth_list_update image_iff)
qed simp

lemma string_at_word:
  assumes buf: "0 \<notin> set buf" and wf: "wf_cmd buf c" and w: "w \<in> set_cmd c"
  shows "string_at (nulterminate c (buf @ [0])) (fst w) = word_text buf w"
proof -
  let ?a = "nulterminate c (buf @ [0])" and ?q = "fst w" and ?e = "snd w"
  have a: "length ?a = Suc (length buf)" "\<And>i. i \<le> length buf \<Longrightarrow> ?a ! i = (if i \<in> snd ` set_cmd c then 0 else (buf @ [0]) ! i)"
    using nulterminate_effect [of c "buf @ [0]"] by auto
  have iw: "is_word buf v" if "v \<in> set_cmd c" for v using wf that by (simp add: wf_cmd_def)
  note w1 = iw [OF w, unfolded is_word_def]
  have inside: "?a ! i = buf ! i" if i: "?q \<le> i" "i < ?e" for i
  proof -
    have "i < length buf" "\<not> special (buf ! i)" using w1 i by auto
    then have "i \<notin> snd ` set_cmd c" using iw by (auto simp: is_word_def)
    with a(2) [of i] \<open>i < length buf\<close> show ?thesis by (simp add: nth_append)
  qed
  have "?a ! ?e = 0" using a(2) [of ?e] w w1 by auto
  moreover have d: "take (?e - ?q) (drop ?q ?a) = word_text buf w"
    unfolding word_text_def by (rule nth_equalityI) (use w1 a(1) inside in auto)
  moreover have "drop ?q ?a = take (?e - ?q) (drop ?q ?a) @ ?a ! ?e # drop (Suc ?e) ?a"
    by (rule trans [OF id_take_nth_drop [of "?e - ?q" "drop ?q ?a"]]) (use w1 a(1) in auto)
  moreover have "0 \<notin> set (word_text buf w)"
    using buf set_drop_subset [of ?q buf] unfolding word_text_def by (meson in_set_takeD subsetD)
  ultimately have "string_at ?a ?q = takeWhile (\<lambda>c. c \<noteq> 0) (word_text buf w @ 0 # drop (Suc ?e) ?a)"
    by (simp add: string_at_def)
  also have "\<dots> = word_text buf w" using \<open>0 \<notin> set (word_text buf w)\<close>
    by (subst takeWhile_append2) auto
  finally show ?thesis .
qed

text \<open>C27. The parser of the shell returns on every line: it exits with a message, or it gives a command tree and
  the line in which every argument and file name pointed to is a string by itself, namely a longest stretch
  of ordinary characters of the input. No command has more arguments than its array holds.\<close>

theorem parsecmd_words:
  assumes "0 \<notin> set buf"
  shows "(\<exists>m. parsecmd buf = Sh_panic m) \<or>
    (\<exists>t a. parsecmd buf = Parsed (t, a) (length buf) \<and> args_ok t \<and> redirs_ok t \<and>
      (\<forall>w \<in> set_cmd t. is_word buf w \<and> string_at a (fst w) = word_text buf w))"
proof -
  have r: "returns (parse_fuel buf) 4 buf 0 (parseline (parse_fuel buf) buf 0)" by (rule parser_returns) simp
  show ?thesis
  proof (cases "parseline (parse_fuel buf) buf 0")
    case (Parsed t s)
    then have "wf_cmd buf t" using r by (simp add: returns_def)
    then show ?thesis
      using Parsed string_at_word [OF assms, of t]
      by (auto simp: parsecmd_def wf_cmd_def split: prod.splits)
  qed (use r in \<open>auto simp: parsecmd_def returns_def parse_fuel_def\<close>)
qed

theorem parsecmd_words_witness:
  "\<exists>t a. parsecmd (ustr ''ls -l<in|wc'') = Parsed (t, a) 11 \<and>
     map_cmd (\<lambda>w. string_at a (fst w)) t =
       PIPE (REDIR (EXEC [ustr ''ls'', ustr ''-l'']) (ustr ''in'') 0 0) (EXEC [ustr ''wc''])"
proof -
  have p: "parsecmd (ustr ''ls -l<in|wc'') =
      Parsed (PIPE (REDIR (EXEC [(0, 2), (3, 5)]) (6, 8) 0 0) (EXEC [(9, 11)]),
        ustr ''ls'' @ [0] @ ustr ''-l'' @ [0] @ ustr ''in'' @ [0] @ ustr ''wc'' @ [0]) 11" by code_simp
  have z: "0 \<notin> set (ustr ''ls -l<in|wc'')" by simp
  show ?thesis using parsecmd_words [OF z] unfolding p by (auto simp: word_text_def)
qed

end
