(* ===== verification/Shell_Roundtrip.thy ===== *)
theory Shell_Roundtrip
  imports Shell_Parse
begin

text \<open>
  A printer for the command trees of the shell (userspace/sh.c), and the proof that the parser reads every
  printed tree back: the grammar reaches every tree whose words and redirections are those of the shell.
\<close>

section \<open>Printing\<close>

definition redir_op :: "int \<Rightarrow> uchar" where
  "redir_op fd = (if fd = 0 then 0x3C else 0x3E)"

definition print_words :: "uchar list list \<Rightarrow> uchar list" where
  "print_words ws = concat (map (\<lambda>w. 0x20 # w) ws)"

definition print_redirs :: "(uchar list \<times> int \<times> int) list \<Rightarrow> uchar list" where
  "print_redirs rs = concat (map (\<lambda>(f, mode, fd). redir_op fd # f) rs)"

text \<open>Parentheses go around a command where the grammar does not allow it bare.\<close>

fun print_line :: "uchar list cmd \<Rightarrow> uchar list"
  and print_back :: "uchar list cmd \<Rightarrow> uchar list"
  and print_pipe :: "uchar list cmd \<Rightarrow> uchar list"
  and print_exec :: "uchar list cmd \<Rightarrow> uchar list" where
  "print_line (LIST l r) = print_back l @ 0x3B # print_line r"
| "print_line c = print_back c"
| "print_back (BACK c) = print_back c @ [0x26]"
| "print_back c = print_pipe c"
| "print_pipe (PIPE l r) = print_exec l @ 0x7C # print_pipe r"
| "print_pipe c = print_exec c"
| "print_exec (EXEC ws) = print_words ws"
| "print_exec (REDIR c f mode fd) = print_exec c @ redir_op fd # f"
| "print_exec (PIPE l r) = 0x28 # print_exec l @ 0x7C # print_pipe r @ [0x29]"
| "print_exec (LIST l r) = 0x28 # print_back l @ 0x3B # print_line r @ [0x29]"
| "print_exec (BACK c) = 0x28 # print_back c @ 0x26 # [0x29]"

definition wrap :: "'w cmd \<Rightarrow> 'w \<times> int \<times> int \<Rightarrow> 'w cmd" where
  "wrap c r = (case r of (f, mode, fd) \<Rightarrow> REDIR c f mode fd)"

definition good_word :: "uchar list \<Rightarrow> bool" where
  "good_word w \<longleftrightarrow> w \<noteq> [] \<and> (\<forall>c \<in> set w. \<not> special c \<and> c \<noteq> 0)"

definition good_redir :: "uchar list \<times> int \<times> int \<Rightarrow> bool" where
  "good_redir r \<longleftrightarrow> good_word (fst r) \<and> snd r \<in> {(U_RDONLY, 0), (or U_WRONLY U_CREAT, 1)}"

section \<open>Reading tokens\<close>

definition white :: "uchar \<Rightarrow> bool" where
  "white c \<longleftrightarrow> c \<in> set whitespace"

lemma char_in_white: "char_in whitespace c \<longleftrightarrow> white c"
  by (simp add: char_in_set white_def)

abbreviation strip_white :: "uchar list \<Rightarrow> uchar list" where
  "strip_white \<equiv> dropWhile white"

text \<open>The text from \<open>s\<close> on is \<open>txt\<close>, up to white space in front.\<close>

definition text_at :: "uchar list \<Rightarrow> nat \<Rightarrow> uchar list \<Rightarrow> bool" where
  "text_at buf s txt \<longleftrightarrow> s \<le> length buf \<and> strip_white (drop s buf) = strip_white txt"

lemma skip_white_drop: "drop (skip_white buf s) buf = strip_white (drop s buf)"
proof (induction buf s rule: skip_white.induct)
  case (1 buf s)
  show ?case
  proof (cases "s < length buf")
    case True
    then have "drop s buf = buf ! s # drop (Suc s) buf" by (simp add: Cons_nth_drop_Suc)
    with True 1 show ?thesis by (subst skip_white.simps) (simp add: char_in_white char_at_def)
  qed (simp add: skip_white.simps)
qed

lemma char_at_drop: "char_at buf s = (case drop s buf of [] \<Rightarrow> 0 | c # _ \<Rightarrow> c)"
  by (cases "drop s buf") (auto simp: char_at_def Cons_nth_drop_Suc [symmetric])

lemma text_at_skip:
  assumes "text_at buf s txt"
  shows "drop (skip_white buf s) buf = strip_white txt" and "text_at buf (skip_white buf s) txt"
  using assms skip_white_le by (auto simp: text_at_def skip_white_drop)

definition starts :: "uchar list \<Rightarrow> uchar list \<Rightarrow> bool" where
  "starts toks txt \<longleftrightarrow> (case strip_white txt of [] \<Rightarrow> False | c # _ \<Rightarrow> c \<noteq> 0 \<and> c \<in> set toks)"

lemma peek_at:
  assumes "text_at buf s txt"
  shows "\<exists>s1. peek buf s toks = (starts toks txt, s1) \<and> text_at buf s1 txt"
  using text_at_skip [OF assms]
  by (cases "strip_white txt") (simp_all add: peek_def Let_def char_at_drop char_in_set starts_def del: dropWhile_eq_Nil_conv)

lemma gettoken_symbol:
  assumes "text_at buf s txt" and "strip_white txt = c # r" and "c \<in> {0x7C, 0x28, 0x29, 0x3B, 0x26, 0x3C}"
  shows "\<exists>q e s'. gettoken buf s = (c, q, e, s') \<and> text_at buf s' r"
proof -
  let ?q = "skip_white buf s"
  have d: "drop ?q buf = c # r" using text_at_skip(1) [OF assms(1)] assms(2) by simp
  have l: "?q < length buf" using d by (metis drop_eq_Nil2 leI list.discI)
  have "drop (Suc ?q) buf = r" using d by (metis drop_Suc list.sel(3) tl_drop)
  then have "text_at buf (skip_white buf (Suc ?q)) r" using text_at_skip(2) [of buf "Suc ?q" r] l by (simp add: text_at_def)
  moreover have "char_at buf ?q = c" using d by (simp add: char_at_drop)
  ultimately show ?thesis using assms(3) by (auto simp: gettoken_def Let_def)
qed

lemma gettoken_out:
  assumes "text_at buf s txt" and "strip_white txt = 0x3E # r" and "r \<noteq> []" and "hd r \<noteq> 0x3E"
  shows "\<exists>q e s'. gettoken buf s = (0x3E, q, e, s') \<and> text_at buf s' r"
proof -
  let ?q = "skip_white buf s"
  have d: "drop ?q buf = 0x3E # r" using text_at_skip(1) [OF assms(1)] assms(2) by simp
  have l: "?q < length buf" using d by (metis drop_eq_Nil2 leI list.discI)
  have d2: "drop (Suc ?q) buf = r" using d by (metis drop_Suc list.sel(3) tl_drop)
  then have "text_at buf (skip_white buf (Suc ?q)) r" using text_at_skip(2) [of buf "Suc ?q" r] l by (simp add: text_at_def)
  moreover have "char_at buf ?q = 0x3E" "char_at buf (Suc ?q) \<noteq> 0x3E"
    using d d2 assms(3,4) by (auto simp: char_at_drop neq_Nil_conv)
  ultimately show ?thesis by (auto simp: gettoken_def Let_def)
qed

lemma skip_word_drop:
  assumes "drop s buf = w @ r" and "\<forall>c \<in> set w. \<not> special c" and "r = [] \<or> special (hd r)"
  shows "skip_word buf s = s + length w"
  using assms
proof (induction w arbitrary: s)
  case Nil
  then show ?case
    by (subst skip_word.simps) (cases r, auto simp: char_at_drop char_in_set special_def)
next
  case (Cons c w)
  have d: "drop (Suc s) buf = w @ r" using Cons.prems(1) by (metis append_Cons drop_Suc list.sel(3) tl_drop)
  have "s < length buf" using Cons.prems(1) by (metis append_Cons drop_eq_Nil2 leI list.discI)
  moreover have "\<not> char_in whitespace (char_at buf s)" "\<not> char_in symbols (char_at buf s)"
    using Cons.prems(1,2) by (simp_all add: char_at_drop char_in_set special_def)
  ultimately show ?case using Cons.IH [OF d] Cons.prems(2,3) by (subst skip_word.simps) simp
qed

lemma gettoken_good_word:
  assumes "text_at buf s txt" and "strip_white txt = w @ r" and w: "good_word w" and "r = [] \<or> special (hd r)"
  shows "\<exists>q e s'. gettoken buf s = (0x61, q, e, s') \<and> word_text buf (q, e) = w \<and> text_at buf s' r"
proof -
  let ?q = "skip_white buf s"
  have d: "drop ?q buf = w @ r" using text_at_skip(1) [OF assms(1)] assms(2) by simp
  have e: "skip_word buf ?q = ?q + length w" using skip_word_drop [OF d] assms(4) w by (simp add: good_word_def)
  have d2: "drop (?q + length w) buf = r" using d by (metis add.commute append_eq_conv_conj drop_drop)
  have l: "?q + length w \<le> length buf"
    using arg_cong [OF d, of length] skip_white_le [of s buf] assms(1) by (simp add: text_at_def)
  then have "text_at buf (skip_white buf (?q + length w)) r"
    using text_at_skip(2) [of buf "?q + length w" r] d2 by (simp add: text_at_def)
  moreover have "word_text buf (?q, ?q + length w) = w" using d by (simp add: word_text_def)
  moreover obtain c w' where "w = c # w'" "c \<noteq> 0" "\<not> special c" using w by (auto simp: good_word_def neq_Nil_conv)
  then have "char_at buf ?q = c" "c \<noteq> 0" "c \<notin> {0x7C, 0x28, 0x29, 0x3B, 0x26, 0x3C}" "c \<noteq> 0x3E"
    using d by (auto simp: char_at_drop special_def symbols_def)
  ultimately show ?thesis using e by (auto simp: gettoken_def Let_def)
qed

lemma gettoken_end:
  assumes "text_at buf s txt" and "strip_white txt = []"
  shows "\<exists>q e s'. gettoken buf s = (0, q, e, s') \<and> text_at buf s' []"
proof -
  have d: "drop (skip_white buf s) buf = []" using text_at_skip(1) [OF assms(1)] assms(2) by simp
  then have "char_at buf (skip_white buf s) = 0" by (simp add: char_at_drop)
  moreover have "text_at buf (skip_white buf s) []"
    using text_at_skip(2) [OF assms(1)] assms(2) by (simp add: text_at_def)
  ultimately show ?thesis by (auto simp: gettoken_def Let_def)
qed

section \<open>Reading commands\<close>

text \<open>What may come after a printed command.\<close>

definition follow :: "string \<Rightarrow> uchar list \<Rightarrow> bool" where
  "follow toks post \<longleftrightarrow> (case post of [] \<Rightarrow> True | c # _ \<Rightarrow> c \<in> set (ustr toks))"

lemma special_white: "white c \<Longrightarrow> special c"
  by (simp add: white_def special_def)

lemma strip_word: "good_word w \<Longrightarrow> strip_white (w @ r) = w @ r"
  by (auto simp: good_word_def neq_Nil_conv dest: special_white)

lemma not_white:
  "\<not> white 0x28" "\<not> white 0x29" "\<not> white 0x7C" "\<not> white 0x26" "\<not> white 0x3B" "\<not> white 0x3C" "\<not> white 0x3E"
  by (simp_all add: white_def whitespace_def)

lemma strip_follow: "follow ''|)&;'' post \<Longrightarrow> strip_white post = post"
  by (cases post) (auto simp: follow_def not_white)

lemma starts_word: "good_word w \<Longrightarrow> set toks \<subseteq> set symbols \<Longrightarrow> \<not> starts toks (w @ r)"
  by (auto simp: starts_def strip_word good_word_def neq_Nil_conv special_def split: list.split)

lemma starts_Cons: "\<not> white c \<Longrightarrow> c \<noteq> 0 \<Longrightarrow> starts toks (c # r) \<longleftrightarrow> c \<in> set toks"
  by (simp add: starts_def)

lemma starts_Nil [simp]: "\<not> starts toks []"
  by (simp add: starts_def)

lemma starts_space [simp]: "starts toks (0x20 # r) = starts toks r"
  by (simp add: starts_def white_def whitespace_def)

lemma text_at_space [simp]: "text_at buf s (0x20 # r) = text_at buf s r"
  by (simp add: text_at_def white_def whitespace_def)

lemma map_cmd_add_arg: "map_cmd f (add_arg c w) = add_arg (map_cmd f c) (f w)"
  by (induction c w rule: add_arg.induct) simp_all

lemma redirs_head:
  assumes "post = [] \<or> special (hd post)"
  shows "print_redirs rs @ post = [] \<or> special (hd (print_redirs rs @ post))"
proof -
  have "special (redir_op fd)" for fd by (simp add: redir_op_def special_def symbols_def)
  then show ?thesis using assms by (cases rs) (auto simp: print_redirs_def split_beta)
qed

lemma parseredirs_none:
  assumes "text_at buf s txt" and "\<not> starts (ustr ''<>'') txt"
  shows "\<exists>s'. parseredirs cmd buf s = Parsed cmd s' \<and> text_at buf s' txt"
  using peek_at [OF assms(1), of "ustr ''<>''"] assms(2) by (subst parseredirs.simps) auto

lemma parseredirs_reads:
  assumes "text_at buf s (print_redirs rs @ post)" and "\<forall>r \<in> set rs. good_redir r"
    and "post = [] \<or> special (hd post)" and "\<not> starts (ustr ''<>'') post"
  shows "\<exists>t s'. parseredirs cmd buf s = Parsed t s' \<and>
     map_cmd (word_text buf) t = foldl wrap (map_cmd (word_text buf) cmd) rs \<and> text_at buf s' post"
  using assms(1,2)
proof (induction rs arbitrary: cmd s)
  case Nil
  then show ?case using parseredirs_none [of buf s post cmd] assms(4) by (auto simp: print_redirs_def)
next
  case (Cons r rs)
  obtain f mode fd where r: "r = (f, mode, fd)" by (cases r)
  let ?c = "redir_op fd" and ?rest = "print_redirs rs @ post"
  have f: "good_word f" and m: "(mode, fd) \<in> {(U_RDONLY, 0), (or U_WRONLY U_CREAT, 1)}"
    using Cons.prems(2) by (simp_all add: r good_redir_def)
  have c: "?c = 0x3C \<or> ?c = 0x3E" "\<not> white ?c" by (simp_all add: redir_op_def not_white)
  have at: "text_at buf s (?c # f @ ?rest)" using Cons.prems(1) by (simp add: print_redirs_def r)
  obtain s1 where p: "peek buf s (ustr ''<>'') = (True, s1)" "text_at buf s1 (?c # f @ ?rest)"
    using peek_at [OF at, of "ustr ''<>''"] c by (auto simp: starts_Cons)
  have hf: "f \<noteq> []" "hd f \<noteq> 0x3E" using f by (auto simp: good_word_def special_def symbols_def neq_Nil_conv)
  obtain q e s2 where g: "gettoken buf s1 = (?c, q, e, s2)" "text_at buf s2 (f @ ?rest)"
    using gettoken_symbol [OF p(2), of ?c "f @ ?rest"] gettoken_out [OF p(2), of "f @ ?rest"] c hf by auto
  obtain q2 e2 s3 where g2: "gettoken buf s2 = (0x61, q2, e2, s3)" "word_text buf (q2, e2) = f" "text_at buf s3 ?rest"
    using gettoken_good_word [OF g(2) strip_word [OF f] f redirs_head [OF assms(3)]] by auto
  have "parseredirs cmd buf s = parseredirs (REDIR cmd (q2, e2) mode fd) buf s3"
    using p(1) g(1) g2(1) m by (subst parseredirs.simps) (auto simp: redir_op_def)
  with Cons.IH [OF g2(3), of "REDIR cmd (q2, e2) mode fd"] Cons.prems(2) g2(2) show ?case
    by (simp add: r wrap_def)
qed

text \<open>The loop of \<open>parseexec\<close> at the end of the command, and over the words with the redirections behind the last.\<close>

lemma parseexec_loop_end:
  assumes "text_at buf s post" and "follow ''|)&;'' post"
  shows "\<exists>s'. parseexec_loop buf ret argc s = Parsed ret s' \<and> text_at buf s' post"
proof (cases post)
  case Nil
  obtain s1 where "peek buf s (ustr ''|)&;'') = (False, s1)" "text_at buf s1 []"
    using peek_at [OF assms(1), of "ustr ''|)&;''"] Nil by auto
  then show ?thesis using gettoken_end [of buf s1 "[]"] Nil by (subst parseexec_loop.simps) auto
next
  case (Cons c r)
  then have "starts (ustr ''|)&;'') post" using assms(2) by (auto simp: follow_def starts_Cons not_white)
  then show ?thesis using peek_at [OF assms(1), of "ustr ''|)&;''"] by (subst parseexec_loop.simps) auto
qed

lemma follow_special: "follow ''|)&;'' post \<Longrightarrow> post = [] \<or> special (hd post)"
  by (cases post) (auto simp: follow_def special_def symbols_def)

lemma follow_no_redir: "follow ''|)&;'' post \<Longrightarrow> \<not> starts (ustr ''<>'') post"
  by (cases post) (auto simp: follow_def starts_Cons not_white)

lemma words_head:
  assumes "post = [] \<or> special (hd post)"
  shows "print_words ws @ post = [] \<or> special (hd (print_words ws @ post))"
  using assms by (cases ws) (auto simp: print_words_def special_def whitespace_def)

lemma print_words_Cons: "print_words (w # ws) @ r = 0x20 # w @ print_words ws @ r"
  by (simp add: print_words_def)

lemma parseexec_loop_reads:
  assumes "text_at buf s (print_words ws @ print_redirs rs @ post)" and "\<forall>w \<in> set ws. good_word w"
    and rs: "\<forall>r \<in> set rs. good_redir r" and post: "follow ''|)&;'' post" and "ws = [] \<longrightarrow> rs = []"
    and "map_cmd (word_text buf) ret = EXEC vs" and "length vs + length ws < MAXARGS"
  shows "\<exists>t s'. parseexec_loop buf ret (length vs) s = Parsed t s' \<and>
     map_cmd (word_text buf) t = foldl wrap (EXEC (vs @ ws)) rs \<and> text_at buf s' post"
  using assms(1,2,5-7)
proof (induction ws arbitrary: ret vs s)
  case Nil
  then show ?case using parseexec_loop_end [OF _ post, of buf s ret "length vs"] by (auto simp: print_words_def print_redirs_def)
next
  case (Cons w ws)
  let ?rest = "print_words ws @ print_redirs rs @ post"
  have w: "good_word w" and at: "text_at buf s (w @ ?rest)" using Cons.prems(1,2) by (simp_all add: print_words_Cons)
  obtain s1 where p: "peek buf s (ustr ''|)&;'') = (False, s1)" "text_at buf s1 (w @ ?rest)"
    using peek_at [OF at, of "ustr ''|)&;''"] starts_word [OF w, of "ustr ''|)&;''"] by (auto simp: symbols_def)
  have h: "?rest = [] \<or> special (hd ?rest)" by (intro words_head redirs_head follow_special post)
  obtain q e s2 where g: "gettoken buf s1 = (0x61, q, e, s2)" "word_text buf (q, e) = w" "text_at buf s2 ?rest"
    using gettoken_good_word [OF p(2) strip_word [OF w] w h] by auto
  let ?ret = "add_arg ret (q, e)"
  have m: "map_cmd (word_text buf) ?ret = EXEC (vs @ [w])" using Cons.prems(4) g(2) by (simp add: map_cmd_add_arg)
  have step: "parseexec_loop buf ret (length vs) s =
      bindP (parseredirs ?ret buf s2) (\<lambda>ret s. parseexec_loop buf ret (length (vs @ [w])) s)"
    using p(1) g(1) Cons.prems(5) by (subst parseexec_loop.simps) simp
  show ?case
  proof (cases ws)
    case Nil
    then obtain t s3 where "parseredirs ?ret buf s2 = Parsed t s3" "text_at buf s3 post"
      "map_cmd (word_text buf) t = foldl wrap (EXEC (vs @ [w])) rs"
      using parseredirs_reads [OF _ rs follow_special [OF post] follow_no_redir [OF post], of buf s2 ?ret] g(3) m
      by (auto simp: print_words_def)
    then show ?thesis using step parseexec_loop_end [OF _ post, of buf s3 t "length (vs @ [w])"] Nil by auto
  next
    case (Cons w' ws')
    then have "\<not> starts (ustr ''<>'') ?rest"
      using Cons.prems(2) starts_word [of w' "ustr ''<>''"] by (simp add: print_words_Cons symbols_def)
    then obtain s3 where "parseredirs ?ret buf s2 = Parsed ?ret s3" "text_at buf s3 ?rest"
      using parseredirs_none [OF g(3)] by auto
    then show ?thesis using Cons.IH [of s3 ?ret "vs @ [w]"] step m Cons.prems Cons by simp
  qed
qed

text \<open>The four functions read what the four printers print, if the fuel is enough.\<close>

abbreviation texts :: "uchar list \<Rightarrow> word_at cmd \<Rightarrow> uchar list cmd" where
  "texts buf \<equiv> map_cmd (word_text buf)"

definition reads :: "uchar list \<Rightarrow> word_at cmd parse \<Rightarrow> uchar list cmd \<Rightarrow> uchar list \<Rightarrow> bool" where
  "reads buf r c post \<longleftrightarrow> r \<noteq> No_fuel \<longrightarrow> (\<exists>t s'. r = Parsed t s' \<and> texts buf t = c \<and> text_at buf s' post)"

definition exec_reads :: "uchar list cmd \<Rightarrow> bool" where
  "exec_reads c \<longleftrightarrow> (\<forall>n buf s rs post. text_at buf s (print_exec c @ print_redirs rs @ post) \<longrightarrow> (\<forall>r \<in> set rs. good_redir r) \<longrightarrow>
     follow ''|)&;'' post \<longrightarrow> reads buf (parseexec n buf s) (foldl wrap c rs) post)"

definition pipe_reads :: "uchar list cmd \<Rightarrow> bool" where
  "pipe_reads c \<longleftrightarrow> (\<forall>n buf s post. text_at buf s (print_pipe c @ post) \<longrightarrow> follow '')&;'' post \<longrightarrow>
     reads buf (parsepipe n buf s) c post)"

definition back_reads :: "uchar list cmd \<Rightarrow> bool" where
  "back_reads c \<longleftrightarrow> (\<forall>n buf s post. text_at buf s (print_back c @ post) \<longrightarrow> follow '')&;'' post \<longrightarrow> parsepipe n buf s \<noteq> No_fuel \<longrightarrow>
     (\<exists>t s' t0 s0. parsepipe n buf s = Parsed t0 s0 \<and> back_loop buf t0 s0 = back_loop buf t s' \<and>
        texts buf t = c \<and> text_at buf s' post))"

definition line_reads :: "uchar list cmd \<Rightarrow> bool" where
  "line_reads c \<longleftrightarrow> (\<forall>n buf s post. text_at buf s (print_line c @ post) \<longrightarrow> follow '')'' post \<longrightarrow>
     reads buf (parseline n buf s) c post)"

lemma follow_mono: "follow xs post \<Longrightarrow> set xs \<subseteq> set ys \<Longrightarrow> follow ys post"
  by (cases post) (auto simp: follow_def ustr_def)

text \<open>The token after a command.\<close>

lemma next_symbol:
  assumes "text_at buf s (c # r)" and "c \<in> set toks" and "c \<in> {0x7C, 0x28, 0x29, 0x3B, 0x26}"
  obtains s1 q e s2 where "peek buf s toks = (True, s1)" "gettoken buf s1 = (c, q, e, s2)" "text_at buf s2 r"
proof -
  have c: "\<not> white c" "c \<noteq> 0" using assms(3) by (auto simp: not_white)
  obtain s1 where "peek buf s toks = (True, s1)" "text_at buf s1 (c # r)"
    using peek_at [OF assms(1), of toks] c assms(2) by (auto simp: starts_Cons)
  with gettoken_symbol [of buf s1 "c # r" c r] c assms(3) that show ?thesis by auto
qed

lemma no_symbol:
  assumes "text_at buf s post" and "follow xs post" and "set toks \<inter> set (ustr xs) = {}" and "set xs \<subseteq> set ''|)&;''"
  obtains s1 where "peek buf s toks = (False, s1)" "text_at buf s1 post"
proof -
  have "\<not> starts toks post"
    using assms(2,3) follow_mono [OF assms(2,4)]
    by (cases post) (auto simp: follow_def starts_Cons not_white)
  then show ?thesis using peek_at [OF assms(1), of toks] that by auto
qed

lemma no_block: "follow ''|)&;'' post \<Longrightarrow> \<not> starts (ustr ''('') (print_redirs rs @ post)"
  by (cases rs; cases post) (auto simp: print_redirs_def redir_op_def follow_def starts_Cons not_white split: if_splits)

lemma EXEC_reads:
  assumes "\<forall>w \<in> set ws. good_word w" and "length ws < MAXARGS"
  shows "exec_reads (EXEC ws)"
  unfolding exec_reads_def reads_def
proof (intro allI impI)
  fix n buf s rs post
  assume at: "text_at buf s (print_exec (EXEC ws) @ print_redirs rs @ post)" and rs: "\<forall>r \<in> set rs. good_redir r"
    and post: "follow ''|)&;'' post" and n: "parseexec n buf s \<noteq> No_fuel"
  obtain m where m: "n = Suc m" using n by (cases n) simp_all
  note sp = follow_special [OF post] follow_no_redir [OF post]
  have "\<not> starts (ustr ''('') (print_words ws @ print_redirs rs @ post)"
    using assms(1) starts_word [of _ "ustr ''(''"] no_block [OF post]
    by (cases ws) (auto simp: print_words_Cons symbols_def, simp add: print_words_def)
  then obtain s1 where p: "peek buf s (ustr ''('') = (False, s1)" "text_at buf s1 (print_words ws @ print_redirs rs @ post)"
    using peek_at [OF at, of "ustr ''(''"] by auto
  show "\<exists>t s'. parseexec n buf s = Parsed t s' \<and> texts buf t = foldl wrap (EXEC ws) rs \<and> text_at buf s' post"
  proof (cases ws)
    case Nil
    then obtain t s2 where "parseredirs (EXEC []) buf s1 = Parsed t s2" "texts buf t = foldl wrap (EXEC []) rs" "text_at buf s2 post"
      using parseredirs_reads [OF _ rs sp, of buf s1 "EXEC []"] p(2) by (auto simp: print_words_def)
    then show ?thesis using p(1) m Nil parseexec_loop_end [OF _ post, of buf s2 t 0] by auto
  next
    case (Cons w ws')
    then have "\<not> starts (ustr ''<>'') (print_words ws @ print_redirs rs @ post)"
      using assms(1) starts_word [of w "ustr ''<>''"] by (simp add: print_words_Cons symbols_def)
    then obtain s2 where "parseredirs (EXEC []) buf s1 = Parsed (EXEC []) s2" "text_at buf s2 (print_words ws @ print_redirs rs @ post)"
      using parseredirs_none [OF p(2)] by auto
    then show ?thesis
      using p(1) m Cons parseexec_loop_reads [OF _ assms(1) rs post, of buf s2 "EXEC []" "[]"] assms(2) by simp
  qed
qed

lemma block_reads:
  assumes l: "line_reads c" and c: "print_exec c = 0x28 # print_line c @ [0x29]"
  shows "exec_reads c"
  unfolding exec_reads_def reads_def
proof (intro allI impI)
  fix n buf s rs post
  assume at: "text_at buf s (print_exec c @ print_redirs rs @ post)" and rs: "\<forall>r \<in> set rs. good_redir r"
    and post: "follow ''|)&;'' post" and n: "parseexec n buf s \<noteq> No_fuel"
  let ?rest = "0x29 # print_redirs rs @ post"
  obtain s1 where p: "peek buf s (ustr ''('') = (True, s1)" "text_at buf s1 (0x28 # print_line c @ ?rest)"
    using peek_at [OF at, of "ustr ''(''"] c by (auto simp: starts_Cons not_white)
  obtain s2 q e s3 where g: "peek buf s1 (ustr ''('') = (True, s2)" "gettoken buf s2 = (0x28, q, e, s3)"
    "text_at buf s3 (print_line c @ ?rest)"
    by (rule next_symbol [OF p(2)]) auto
  obtain m where m: "n = Suc (Suc m)" using n p(1) by (cases n; cases "n - 1") auto
  have "parseline m buf s3 \<noteq> No_fuel" using n m p(1) g(1,2) by auto
  then obtain t s4 where t: "parseline m buf s3 = Parsed t s4" "texts buf t = c" "text_at buf s4 ?rest"
    using l g(3) unfolding line_reads_def reads_def by (fastforce simp: follow_def)
  obtain s5 q e s6 where g2: "peek buf s4 (ustr '')'') = (True, s5)" "gettoken buf s5 = (0x29, q, e, s6)"
    "text_at buf s6 (print_redirs rs @ post)"
    by (rule next_symbol [OF t(3)]) auto
  show "\<exists>t s'. parseexec n buf s = Parsed t s' \<and> texts buf t = foldl wrap c rs \<and> text_at buf s' post"
    using parseredirs_reads [OF g2(3) rs follow_special [OF post] follow_no_redir [OF post], of t] m p(1) g(1,2) t(1,2) g2(1,2)
    by auto
qed

lemma pipe_of_exec:
  assumes "exec_reads c" and "print_pipe c = print_exec c"
  shows "pipe_reads c"
  unfolding pipe_reads_def reads_def
proof (intro allI impI)
  fix n buf s post
  assume at: "text_at buf s (print_pipe c @ post)" and post: "follow '')&;'' post" and n: "parsepipe n buf s \<noteq> No_fuel"
  obtain m where m: "n = Suc m" "parseexec m buf s \<noteq> No_fuel" using n by (cases n) force+
  have "follow ''|)&;'' post" using post by (rule follow_mono) auto
  then have "reads buf (parseexec m buf s) c post"
    using assms(1) [unfolded exec_reads_def, rule_format, of buf s "[]" post m] assms(2) at by (simp add: print_redirs_def)
  then obtain t s1 where t: "parseexec m buf s = Parsed t s1" "texts buf t = c" "text_at buf s1 post"
    using m(2) unfolding reads_def by auto
  obtain s2 where "peek buf s1 (ustr ''|'') = (False, s2)" "text_at buf s2 post"
    by (rule no_symbol [OF t(3) post, of "ustr ''|''"]) auto
  then show "\<exists>t s'. parsepipe n buf s = Parsed t s' \<and> texts buf t = c \<and> text_at buf s' post"
    using t m(1) by auto
qed

lemma PIPE_reads:
  assumes "exec_reads l" and "pipe_reads r"
  shows "pipe_reads (PIPE l r)"
  unfolding pipe_reads_def reads_def
proof (intro allI impI)
  fix n buf s post
  assume at: "text_at buf s (print_pipe (PIPE l r) @ post)" and post: "follow '')&;'' post" and n: "parsepipe n buf s \<noteq> No_fuel"
  obtain m where m: "n = Suc m" "parseexec m buf s \<noteq> No_fuel" using n by (cases n) force+
  let ?rest = "0x7C # print_pipe r @ post"
  have "reads buf (parseexec m buf s) l ?rest"
    using assms(1) [unfolded exec_reads_def, rule_format, of buf s "[]" ?rest m] at by (simp add: print_redirs_def follow_def)
  then obtain t s1 where t: "parseexec m buf s = Parsed t s1" "texts buf t = l" "text_at buf s1 ?rest"
    using m(2) unfolding reads_def by auto
  obtain s2 q e s3 where g: "peek buf s1 (ustr ''|'') = (True, s2)" "gettoken buf s2 = (0x7C, q, e, s3)"
    "text_at buf s3 (print_pipe r @ post)"
    by (rule next_symbol [OF t(3)]) auto
  have "parsepipe m buf s3 \<noteq> No_fuel" using n m t(1) g(1,2) by auto
  then obtain t2 s4 where "parsepipe m buf s3 = Parsed t2 s4" "texts buf t2 = r" "text_at buf s4 post"
    using assms(2) g(3) post unfolding pipe_reads_def reads_def by blast
  then show "\<exists>t s'. parsepipe n buf s = Parsed t s' \<and> texts buf t = PIPE l r \<and> text_at buf s' post"
    using m(1) t(1,2) g(1,2) by auto
qed

lemma back_of_pipe:
  assumes "pipe_reads c" and "print_back c = print_pipe c"
  shows "back_reads c"
  using assms unfolding pipe_reads_def back_reads_def reads_def by metis

lemma BACK_reads:
  assumes "back_reads c"
  shows "back_reads (BACK c)"
  unfolding back_reads_def
proof (intro allI impI)
  fix n buf s post
  assume at: "text_at buf s (print_back (BACK c) @ post)" and post: "follow '')&;'' post" and n: "parsepipe n buf s \<noteq> No_fuel"
  have at': "text_at buf s (print_back c @ 0x26 # post)" using at by simp
  obtain t s' t0 s0 where t: "parsepipe n buf s = Parsed t0 s0" "back_loop buf t0 s0 = back_loop buf t s'" "texts buf t = c"
    "text_at buf s' (0x26 # post)"
    using assms [unfolded back_reads_def, rule_format, OF at' _ n] by (auto simp: follow_def)
  obtain s1 q e s2 where g: "peek buf s' (ustr ''&'') = (True, s1)" "gettoken buf s1 = (0x26, q, e, s2)" "text_at buf s2 post"
    by (rule next_symbol [OF t(4)]) auto
  have "back_loop buf t s' = back_loop buf (BACK t) s2" using g(1,2) by (subst back_loop.simps) simp
  with t g(3) show "\<exists>t s' t0 s0. parsepipe n buf s = Parsed t0 s0 \<and> back_loop buf t0 s0 = back_loop buf t s' \<and>
     texts buf t = BACK c \<and> text_at buf s' post"
    by (intro exI [of _ "BACK t"] exI [of _ s2] exI [of _ t0] exI [of _ s0]) simp
qed

lemma back_loop_end:
  assumes "text_at buf s post" and "follow '');'' post"
  obtains s' where "back_loop buf t s = (t, s')" "text_at buf s' post"
proof -
  obtain s1 where "peek buf s (ustr ''&'') = (False, s1)" "text_at buf s1 post"
    by (rule no_symbol [OF assms, of "ustr ''&''"]) auto
  with that show ?thesis by (subst (asm) back_loop.simps) auto
qed

lemma line_of_back:
  assumes "back_reads c" and "print_line c = print_back c"
  shows "line_reads c"
  unfolding line_reads_def reads_def
proof (intro allI impI)
  fix n buf s post
  assume at: "text_at buf s (print_line c @ post)" and post: "follow '')'' post" and n: "parseline n buf s \<noteq> No_fuel"
  obtain m where m: "n = Suc m" "parsepipe m buf s \<noteq> No_fuel" using n by (cases n) force+
  have f: "follow '')&;'' post" "follow '');'' post" by (rule follow_mono [OF post]; simp)+
  obtain t s' t0 s0 where t: "parsepipe m buf s = Parsed t0 s0" "back_loop buf t0 s0 = back_loop buf t s'" "texts buf t = c"
    "text_at buf s' post"
    using assms at f(1) m(2) unfolding back_reads_def by metis
  obtain s1 where s1: "back_loop buf t s' = (t, s1)" "text_at buf s1 post" by (rule back_loop_end [OF t(4) f(2)])
  obtain s2 where s2: "peek buf s1 (ustr '';'') = (False, s2)" "text_at buf s2 post"
    by (rule no_symbol [OF s1(2) post, of "ustr '';''"]) auto
  then show "\<exists>t s'. parseline n buf s = Parsed t s' \<and> texts buf t = c \<and> text_at buf s' post"
    using m(1) t(1-3) s1(1) by auto
qed

lemma LIST_reads:
  assumes "back_reads l" and "line_reads r"
  shows "line_reads (LIST l r)"
  unfolding line_reads_def reads_def
proof (intro allI impI)
  fix n buf s post
  assume at: "text_at buf s (print_line (LIST l r) @ post)" and post: "follow '')'' post" and n: "parseline n buf s \<noteq> No_fuel"
  let ?rest = "0x3B # print_line r @ post"
  obtain m where m: "n = Suc m" "parsepipe m buf s \<noteq> No_fuel" using n by (cases n) force+
  have at': "text_at buf s (print_back l @ ?rest)" using at by simp
  obtain t s' t0 s0 where t: "parsepipe m buf s = Parsed t0 s0" "back_loop buf t0 s0 = back_loop buf t s'" "texts buf t = l"
    "text_at buf s' ?rest"
    using assms(1) [unfolded back_reads_def, rule_format, OF at' _ m(2)] by (auto simp: follow_def)
  obtain s1 where s1: "back_loop buf t s' = (t, s1)" "text_at buf s1 ?rest"
    by (rule back_loop_end [OF t(4)]) (auto simp: follow_def)
  obtain s2 q e s3 where g: "peek buf s1 (ustr '';'') = (True, s2)" "gettoken buf s2 = (0x3B, q, e, s3)"
    "text_at buf s3 (print_line r @ post)"
    by (rule next_symbol [OF s1(2)]) auto
  have "parseline m buf s3 \<noteq> No_fuel" using n m t(1,2) s1(1) g(1,2) by auto
  then obtain t2 s4 where "parseline m buf s3 = Parsed t2 s4" "texts buf t2 = r" "text_at buf s4 post"
    using assms(2) g(3) post unfolding line_reads_def reads_def by blast
  then show "\<exists>t s'. parseline n buf s = Parsed t s' \<and> texts buf t = LIST l r \<and> text_at buf s' post"
    using m(1) t(1-3) s1(1) g(1,2) by auto
qed

section \<open>The round trip\<close>

text \<open>The trees that can be written: ordinary words, fewer than \<open>MAXARGS\<close> of them, redirections of the shell.\<close>

definition printable :: "uchar list cmd \<Rightarrow> bool" where
  "printable c \<longleftrightarrow> (\<forall>w \<in> set_cmd c. good_word w) \<and> args_ok c \<and> redirs_ok c"

lemma REDIR_reads:
  assumes "exec_reads c" and "good_redir (f, mode, fd)"
  shows "exec_reads (REDIR c f mode fd)"
  unfolding exec_reads_def
proof (intro allI impI)
  fix n buf s rs post
  assume at: "text_at buf s (print_exec (REDIR c f mode fd) @ print_redirs rs @ post)"
    and rs: "\<forall>r \<in> set rs. good_redir r" and post: "follow ''|)&;'' post"
  have "text_at buf s (print_exec c @ print_redirs ((f, mode, fd) # rs) @ post)" using at by (simp add: print_redirs_def)
  moreover have "\<forall>r \<in> set ((f, mode, fd) # rs). good_redir r" using assms(2) rs by simp
  ultimately show "reads buf (parseexec n buf s) (foldl wrap (REDIR c f mode fd) rs) post"
    using assms(1) post unfolding exec_reads_def by (fastforce simp: wrap_def)
qed

lemma all_read: "printable c \<Longrightarrow> exec_reads c \<and> pipe_reads c \<and> back_reads c \<and> line_reads c"
proof (induction c)
  case (EXEC ws)
  then have "exec_reads (EXEC ws)" by (intro EXEC_reads) (simp_all add: printable_def)
  then show ?case by (simp add: pipe_of_exec back_of_pipe line_of_back)
next
  case (REDIR c f mode fd)
  then have "exec_reads (REDIR c f mode fd)" by (intro REDIR_reads) (auto simp: printable_def good_redir_def)
  then show ?case by (simp add: pipe_of_exec back_of_pipe line_of_back)
next
  case (PIPE l r)
  then have "pipe_reads (PIPE l r)" by (intro PIPE_reads) (simp_all add: printable_def)
  then show ?case by (simp add: back_of_pipe line_of_back block_reads)
next
  case (LIST l r)
  then have "line_reads (LIST l r)" by (intro LIST_reads) (simp_all add: printable_def)
  then show ?case by (simp add: block_reads pipe_of_exec back_of_pipe)
next
  case (BACK c)
  then have "back_reads (BACK c)" by (intro BACK_reads) (simp_all add: printable_def)
  then show ?case by (simp add: line_of_back block_reads pipe_of_exec)
qed

lemma good_word_no_NUL: "good_word w \<Longrightarrow> 0 \<notin> set w"
  by (auto simp: good_word_def)

lemma print_no_NUL:
  "printable c \<Longrightarrow> 0 \<notin> set (print_line c)" "printable c \<Longrightarrow> 0 \<notin> set (print_back c)"
  "printable c \<Longrightarrow> 0 \<notin> set (print_pipe c)" "printable c \<Longrightarrow> 0 \<notin> set (print_exec c)"
  by (induction c and c and c and c rule: print_line_print_back_print_pipe_print_exec.induct)
    (auto simp: printable_def good_word_no_NUL print_words_def redir_op_def)

lemma parsecmd_reads:
  assumes "printable c"
  shows "\<exists>t a. parsecmd (print_line c) = Parsed (t, a) (length (print_line c)) \<and> map_cmd (\<lambda>w. string_at a (fst w)) t = c"
proof -
  let ?buf = "print_line c" and ?n = "parse_fuel (print_line c)"
  have r: "returns ?n 4 ?buf 0 (parseline ?n ?buf 0)" by (rule parser_returns) simp
  then have "parseline ?n ?buf 0 \<noteq> No_fuel" by (simp add: returns_def parse_fuel_def)
  moreover have "text_at ?buf 0 (print_line c @ [])" by (simp add: text_at_def)
  ultimately obtain t s where t: "parseline ?n ?buf 0 = Parsed t s" "texts ?buf t = c" "text_at ?buf s []"
    using all_read [OF assms] unfolding line_reads_def reads_def by (fastforce simp: follow_def)
  obtain b s1 where p: "peek ?buf s [] = (b, s1)" by fastforce
  have "s1 = skip_white ?buf s" using p by (simp add: peek_def Let_def)
  then have s1: "s1 = length ?buf" using text_at_skip [OF t(3)] by (auto simp: text_at_def)
  have "wf_cmd ?buf t" using r t(1) by (simp add: returns_def)
  then have "map_cmd (\<lambda>w. string_at (nulterminate t (?buf @ [0])) (fst w)) t = texts ?buf t"
    using string_at_word [OF print_no_NUL(1) [OF assms]] by (intro cmd.map_cong0) auto
  then show ?thesis using t p s1 by (auto simp: parsecmd_def)
qed

text \<open>C26. The parser of the shell reads back every command tree: the tree is written with parentheses where they
  are needed, and the parser returns a tree whose arguments and file names, as the strings that the pointers
  refer to in the line after it has been cut into words, are those of the original tree.\<close>

theorem parsecmd_print:
  assumes "printable c"
  shows "\<exists>t a. parsecmd (print_line c) = Parsed (t, a) (length (print_line c)) \<and> map_cmd (\<lambda>w. string_at a (fst w)) t = c"
  using assms by (rule parsecmd_reads)

theorem parsecmd_print_witness:
  "let c = LIST (BACK (PIPE (REDIR (LIST (EXEC [ustr ''a'']) (EXEC [ustr ''b'', ustr ''c''])) (ustr ''in'') 0 0) (EXEC [ustr ''d''])))
             (EXEC []) in
   print_line c = ustr ''( a; b c)<in| d&;'' \<and>
   (\<exists>t a. parsecmd (ustr ''( a; b c)<in| d&;'') = Parsed (t, a) 17 \<and> map_cmd (\<lambda>w. string_at a (fst w)) t = c)"
proof -
  let ?c = "LIST (BACK (PIPE (REDIR (LIST (EXEC [ustr ''a'']) (EXEC [ustr ''b'', ustr ''c''])) (ustr ''in'') 0 0) (EXEC [ustr ''d''])))
             (EXEC [])"
  have p: "print_line ?c = ustr ''( a; b c)<in| d&;''" by (simp add: print_words_def redir_op_def)
  have "printable ?c" by (simp add: printable_def good_word_def special_def whitespace_def symbols_def MAXARGS_def U_RDONLY_def)
  moreover have l: "length (ustr ''( a; b c)<in| d&;'') = 17" by simp
  ultimately show ?thesis using parsecmd_print [of ?c, unfolded p l] p unfolding Let_def by blast
qed

end
