(* ===== verification/Shell.thy ===== *)
theory Shell
  imports Shell_Roundtrip "HOL-Library.Signed_Division"
begin

text \<open>
  The rest of the shell (userspace/sh.c): the text routines, the environment and the search path, and the
  processes and descriptors that \<open>runcmd\<close> sets up for a command. Memory from \<open>malloc\<close> is not cleared; what
  the code reads of it before writing it is a parameter.
\<close>

section \<open>Text\<close>

text \<open>\<open>strip\<close> removes tabs and newlines.\<close>

primrec strip :: "uchar list \<Rightarrow> uchar list" where
  "strip [] = []"
| "strip (c # s) = (if c \<noteq> 0x09 \<and> c \<noteq> 0x0A then c # strip s else strip s)"

text \<open>\<open>readln\<close> reads a line of at most \<open>lim - 1\<close> characters.\<close>

primrec readln_loop :: "nat \<Rightarrow> instream \<Rightarrow> uchar list \<times> instream" where
  "readln_loop 0 i = ([], i)"
| "readln_loop (Suc k) i =
     (case u_read 1 i of (cc, bs, i) \<Rightarrow>
      if cc < 1 then ([], i)
      else let c = hd bs in
        if c = 0x0A \<or> c = 0x0D then ([c], i)
        else case readln_loop k i of (s, i) \<Rightarrow> (c # s, i))"

definition readln :: "int \<Rightarrow> instream \<Rightarrow> uchar list \<times> instream" where
  "readln lim i = readln_loop (nat (lim - 1)) i"

text \<open>\<open>trim\<close> cuts off the white space at both ends. The scan from the end stops at the last character that is
  no white space; if there is none it leaves the string.\<close>

definition trim :: "uchar list \<Rightarrow> uchar list option" where
  "trim orig =
     (if list_all isspace orig then None
      else Some (rev (dropWhile isspace (rev (dropWhile isspace orig)))))"

text \<open>\<open>itoa\<close> negates the number in 32 bits. The quotient is rounded towards zero.\<close>

function itoa_loop :: "int \<Rightarrow> uchar list" where
  "itoa_loop v = word_of_int (v smod 10 + 0x30) # (if v sdiv 10 = 0 then [] else itoa_loop (v sdiv 10))"
  by pat_completeness auto
termination
  by (relation "measure (\<lambda>v. nat \<bar>v\<bar>)") (auto simp: signed_divide_int_def sgn_if abs_if split: if_splits)

definition itoa :: "uint \<Rightarrow> uchar list" where
  "itoa x =
     (let sign = sint x < 0; v = sint (if sign then - x else x)
      in (if sign then [0x2D] else []) @ rev (itoa_loop v))"

section \<open>The environment\<close>

text \<open>The values of a variable. The field \<open>values\<close> of a new variable is not set.\<close>

datatype varval = V_unset | V_nil | V_cons "uchar list" varval

record variable =
  v_name :: "uchar list"
  v_values :: varval

type_synonym environ = "variable list"

definition MAX_VAR_NAME :: nat where "MAX_VAR_NAME = 128"

definition MAX_VAR_VAL :: nat where "MAX_VAR_VAL = 1024"

definition MAX_VAR_LINE :: int where "MAX_VAR_LINE = 1024"

definition MAX_CMD_PATH_LEN :: nat where "MAX_CMD_PATH_LEN = 256"

definition comp_eq :: "uchar list \<Rightarrow> uchar list \<Rightarrow> bool" where
  "comp_eq s1 s2 \<longleftrightarrow> u_strcmp s1 s2 = 0"

text \<open>The variable found, as the rest of the list that starts with it.\<close>

primrec environLookup :: "uchar list \<Rightarrow> environ \<Rightarrow> environ" where
  "environLookup name [] = []"
| "environLookup name (v # vs) = (if comp_eq name (v_name v) then v # vs else environLookup name vs)"

text \<open>Freeing follows the list to its end; None is a pointer that was never set.\<close>

primrec freeVarval :: "varval \<Rightarrow> unit option" where
  "freeVarval V_unset = None"
| "freeVarval V_nil = Some ()"
| "freeVarval (V_cons s vs) = freeVarval vs"

primrec freeEnvironment :: "environ \<Rightarrow> unit option" where
  "freeEnvironment [] = Some ()"
| "freeEnvironment (v # vs) = Option.bind (freeEnvironment vs) (\<lambda>_. freeVarval (v_values v))"

primrec removeFromEnvironment :: "uchar list \<Rightarrow> environ \<Rightarrow> environ option" where
  "removeFromEnvironment name [] = Some []"
| "removeFromEnvironment name (v # vs) =
     (if name = [] then Some (v # vs)
      else if comp_eq (v_name v) name then map_option (\<lambda>_. vs) (freeVarval (v_values v))
      else map_option (\<lambda>vs. v # vs) (removeFromEnvironment name vs))"

text \<open>None is a name or value that does not fit into its array.\<close>

primrec addToEnvironment :: "uchar list \<Rightarrow> environ \<Rightarrow> environ option" where
  "addToEnvironment name [] =
     (if length name < MAX_VAR_NAME then Some [\<lparr>v_name = name, v_values = V_unset\<rparr>] else None)"
| "addToEnvironment name (v # vs) = map_option (\<lambda>vs. v # vs) (addToEnvironment name vs)"

primrec addValueToVariable :: "uchar list \<Rightarrow> environ \<Rightarrow> uchar list \<Rightarrow> environ option" where
  "addValueToVariable name [] val = Some []"
| "addValueToVariable name (v # vs) val =
     (if comp_eq name (v_name v) then
        if length val < MAX_VAR_VAL then Some (v\<lparr>v_values := V_cons val (v_values v)\<rparr> # vs) else None
      else map_option (\<lambda>vs. v # vs) (addValueToVariable name vs val))"

lemma u_read_size: "u_read n i = (r, bs, i') \<Longrightarrow> in_size i' \<le> in_size i"
  by (cases "(n, i)" rule: u_read.cases) (auto simp: in_size_def split: if_splits)

lemma readln_size:
  "in_size (snd (readln_loop k i)) \<le> in_size i \<and> (fst (readln_loop k i) \<noteq> [] \<longrightarrow> in_size (snd (readln_loop k i)) < in_size i)"
proof (induction k arbitrary: i)
  case (Suc k)
  obtain cc bs i1 where u: "u_read 1 i = (cc, bs, i1)" using prod_cases3 by blast
  have "0 < cc \<Longrightarrow> in_size i1 < in_size i" using u_read_progress(1) [OF u] .
  then show ?case using u u_read_size [OF u] Suc.IH [of i1] by (auto simp: Let_def split: prod.split)
qed simp

lemma readln_progress: "readln lim i = (s, i') \<Longrightarrow> s \<noteq> [] \<Longrightarrow> in_size i' < in_size i"
  using readln_size [of "nat (lim - 1)" i] by (simp add: readln_def)

text \<open>\<open>parseEnvFile\<close> copies the name and the value without a NUL behind them; \<open>junk k\<close> are the characters that
  the \<open>k\<close>-th block from \<open>malloc\<close> has there.\<close>

function parseEnvFile :: "(nat \<Rightarrow> uchar list) \<Rightarrow> nat \<Rightarrow> instream \<Rightarrow> environ \<Rightarrow> environ option" where
  "parseEnvFile junk k i head =
     (case readln MAX_VAR_LINE i of (s, i') \<Rightarrow>
      let line = takeWhile (\<lambda>c. c \<noteq> 0) s in
      case u_strchr line 0x3D of
        None \<Rightarrow> Some head
      | Some eq \<Rightarrow>
          let eqPos = length line - length eq in
          Option.bind (trim (u_strncpy eqPos line @ junk k)) (\<lambda>varName.
          Option.bind (addToEnvironment varName head) (\<lambda>head.
          Option.bind (trim (u_strncpy (length line - eqPos - 1) (drop (eqPos + 1) line) @ junk (k + 1))) (\<lambda>varValue.
          Option.bind (addValueToVariable varName head varValue) (\<lambda>head.
          parseEnvFile junk (k + 2) i' head)))))"
  by pat_completeness auto
termination
  by (relation "measure (\<lambda>(junk, k, i, head). in_size i)") (auto intro!: readln_progress [OF sym])

declare parseEnvFile.simps [simp del]

text \<open>The search path is split at the colons. The field \<open>next\<close> of a new node is read before it is set: \<open>nul k\<close>
  tells that it happens to be null in the \<open>k\<close>-th node.\<close>

lemma u_strchr_length: "u_strchr s c = Some r \<Longrightarrow> 0 < length r \<and> length r \<le> length s"
  by (induction s) (auto split: if_splits)

function getPaths :: "(nat \<Rightarrow> bool) \<Rightarrow> nat \<Rightarrow> uchar list \<Rightarrow> uchar list list option" where
  "getPaths nul k paths =
     (case u_strchr paths 0x3A of
        None \<Rightarrow> if length paths < MAX_VAR_VAL then Some [paths] else None
      | Some nextSeperator \<Rightarrow>
          let pathLen = length paths - length nextSeperator in
          if pathLen < MAX_VAR_VAL \<and> nul k
          then map_option (\<lambda>ps. take pathLen paths # ps) (getPaths nul (k + 1) (tl nextSeperator))
          else None)"
  by pat_completeness auto
termination
  by (relation "measure (\<lambda>(nul, k, paths). length paths)") (auto dest!: u_strchr_length simp: neq_Nil_conv)

declare getPaths.simps [simp del]

text \<open>The start of \<open>main\<close>: the search path. None is a crash, among others when there is no variable \<open>PATH\<close>.\<close>

definition sh_paths :: "(nat \<Rightarrow> uchar list) \<Rightarrow> (nat \<Rightarrow> bool) \<Rightarrow> instream \<Rightarrow> uchar list list option" where
  "sh_paths junk nul i =
     Option.bind (parseEnvFile junk 0 i []) (\<lambda>head.
       case environLookup (ustr ''PATH'') head of
         [] \<Rightarrow> None
       | var # _ \<Rightarrow> (case v_values var of V_cons p _ \<Rightarrow> getPaths nul 0 p | _ \<Rightarrow> None))"

section \<open>Running commands\<close>

text \<open>What a descriptor refers to; a pipe is named by the process that makes it, and a process by the numbers of
  the children on the way to it.\<close>

datatype uobj = Tty | Opened "uchar list" int | Pipe_out "nat list" | Pipe_in "nat list"

type_synonym pid = "nat list"

text \<open>What a process of the shell does, with the descriptors it has when it executes a program. A program that
  cannot be executed leaves the process to the rest; \<open>S_fork\<close> has the child, the parent, and the parent when
  there is no child.\<close>

datatype sproc =
  S_exit
| S_crash
| S_err "uchar list" sproc
| S_execv "nat \<Rightarrow> uobj option" "uchar list" "uchar list list" sproc
| S_fork sproc sproc sproc
| S_wait sproc

type_synonym fdtab = "nat \<Rightarrow> uobj option"

text \<open>The kernel gives out the lowest free descriptor.\<close>

definition fd_lowest :: "fdtab \<Rightarrow> nat option" where
  "fd_lowest T = find (\<lambda>fd. T fd = None) [0..<16]"

definition fd_open :: "uobj \<Rightarrow> fdtab \<Rightarrow> fdtab option" where
  "fd_open x T = map_option (\<lambda>fd. T(fd \<mapsto> x)) (fd_lowest T)"

definition fd_close :: "nat \<Rightarrow> fdtab \<Rightarrow> fdtab" where
  "fd_close fd T = T(fd := None)"

text \<open>\<open>dup\<close> of a descriptor, whose result the shell ignores.\<close>

definition fd_dup :: "nat \<Rightarrow> fdtab \<Rightarrow> fdtab" where
  "fd_dup fd T = (case T fd of None \<Rightarrow> T | Some x \<Rightarrow> (case fd_open x T of None \<Rightarrow> T | Some T \<Rightarrow> T))"

text \<open>\<open>pipe\<close>: the descriptors of its two ends and the new table.\<close>

definition fd_pipe :: "pid \<Rightarrow> fdtab \<Rightarrow> (nat \<times> nat \<times> fdtab) option" where
  "fd_pipe me T =
     Option.bind (fd_lowest T) (\<lambda>p0.
     let T = T(p0 \<mapsto> Pipe_in me) in
     Option.bind (fd_lowest T) (\<lambda>p1. Some (p0, p1, T(p1 \<mapsto> Pipe_out me))))"

text \<open>The case \<open>EXEC\<close>: the directories of the search path are tried in turn.\<close>

primrec exec_paths :: "fdtab \<Rightarrow> uchar list list \<Rightarrow> uchar list list \<Rightarrow> sproc" where
  "exec_paths T argv [] = S_err (ustr ''sh: '' @ hd argv @ ustr '': command not found'' @ [0x0A]) S_exit"
| "exec_paths T argv (p # ps) =
     (if length (p @ hd argv) < MAX_CMD_PATH_LEN then S_execv T (p @ hd argv) argv (exec_paths T argv ps)
      else S_crash)"

text \<open>\<open>runcmd\<close> of process \<open>me\<close>, which has made \<open>k\<close> children so far. Which files can be opened is a parameter.\<close>

definition fork1 :: "sproc \<Rightarrow> sproc \<Rightarrow> sproc" where
  "fork1 child parent = S_fork child parent (S_err (ustr ''fork'' @ [0x0A]) S_exit)"

primrec runcmd :: "uchar list list \<Rightarrow> (uchar list \<Rightarrow> int \<Rightarrow> bool) \<Rightarrow> uchar list cmd \<Rightarrow> pid \<Rightarrow> nat \<Rightarrow> fdtab \<Rightarrow> sproc" where
  "runcmd paths ok (EXEC argv) me k T = (if argv = [] then S_exit else exec_paths T argv paths)"
| "runcmd paths ok (REDIR c f mode fd) me k T =
     (let T = fd_close (nat fd) T in
      case (if ok f mode then fd_open (Opened f mode) T else None) of
        None \<Rightarrow> S_err (ustr ''sh: '' @ f @ ustr '': no such file or directory'' @ [0x0A]) S_exit
      | Some T \<Rightarrow> runcmd paths ok c me k T)"
| "runcmd paths ok (LIST l r) me k T =
     fork1 (runcmd paths ok l (me @ [k]) 0 T) (S_wait (runcmd paths ok r me (k + 1) T))"
| "runcmd paths ok (PIPE l r) me k T =
     (case fd_pipe me T of
        None \<Rightarrow> S_err (ustr ''pipe'' @ [0x0A]) S_exit
      | Some (p0, p1, T) \<Rightarrow>
          fork1 (runcmd paths ok l (me @ [k]) 0 (fd_close p1 (fd_close p0 (fd_dup p1 (fd_close 1 T)))))
         (fork1 (runcmd paths ok r (me @ [k + 1]) 0 (fd_close p1 (fd_close p0 (fd_dup p0 (fd_close 0 T)))))
         (S_wait (S_wait S_exit))))"
| "runcmd paths ok (BACK c) me k T = fork1 (runcmd paths ok c (me @ [k]) 0 T) S_exit"

text \<open>One line of input in the loop of \<open>main\<close>, and the child that runs it.\<close>

datatype sh_action = Sh_cd "uchar list" | Sh_home | Sh_exit | Sh_skip | Sh_run sproc

definition sh_child :: "uchar list list \<Rightarrow> (uchar list \<Rightarrow> int \<Rightarrow> bool) \<Rightarrow> uchar list \<Rightarrow> pid \<Rightarrow> fdtab \<Rightarrow> sproc" where
  "sh_child paths ok buf me T =
     (case parsecmd buf of
        Parsed (t, a) _ \<Rightarrow> runcmd paths ok (map_cmd (\<lambda>w. string_at a (fst w)) t) me 0 T
      | Sh_panic m \<Rightarrow> S_err m S_exit
      | No_fuel \<Rightarrow> S_crash)"

definition sh_line :: "uchar list list \<Rightarrow> (uchar list \<Rightarrow> int \<Rightarrow> bool) \<Rightarrow> nat \<Rightarrow> fdtab \<Rightarrow> uchar list \<Rightarrow> sh_action" where
  "sh_line paths ok n T buf =
     (if take 3 buf = ustr ''cd '' then Sh_cd (drop 3 (strip buf))
      else if take 2 buf = ustr ''cd'' then Sh_home
      else if take 4 buf = ustr ''exit'' then Sh_exit
      else if take 1 buf = ustr ''#'' then Sh_skip
      else Sh_run (fork1 (sh_child paths ok buf [n] T) (S_wait S_exit)))"

text \<open>A session: an empty line is the end of the input.\<close>

primrec sh_session :: "uchar list list \<Rightarrow> (uchar list \<Rightarrow> int \<Rightarrow> bool) \<Rightarrow> nat \<Rightarrow> fdtab \<Rightarrow> uchar list list \<Rightarrow> sh_action list" where
  "sh_session paths ok n T [] = []"
| "sh_session paths ok n T (buf # bufs) =
     (if buf = [] then []
      else case sh_line paths ok n T buf of
        Sh_exit \<Rightarrow> [Sh_exit]
      | act \<Rightarrow> act # sh_session paths ok (n + 1) T bufs)"

section \<open>Descriptors\<close>

text \<open>What a command means: the programs with their input and output.\<close>

primrec wiring :: "(uchar list \<Rightarrow> int \<Rightarrow> bool) \<Rightarrow> uchar list cmd \<Rightarrow> pid \<Rightarrow> nat \<Rightarrow> uobj \<Rightarrow> uobj \<Rightarrow> (uchar list list \<times> uobj \<times> uobj) list" where
  "wiring ok (EXEC argv) me k i out = (if argv = [] then [] else [(argv, i, out)])"
| "wiring ok (REDIR c f mode fd) me k i out =
     (if \<not> ok f mode then []
      else if fd = 0 then wiring ok c me k (Opened f mode) out
      else wiring ok c me k i (Opened f mode))"
| "wiring ok (LIST l r) me k i out = wiring ok l (me @ [k]) 0 i out @ wiring ok r me (k + 1) i out"
| "wiring ok (PIPE l r) me k i out =
     wiring ok l (me @ [k]) 0 i (Pipe_out me) @ wiring ok r (me @ [k + 1]) 0 (Pipe_in me) out"
| "wiring ok (BACK c) me k i out = wiring ok c (me @ [k]) 0 i out"

text \<open>The executions that a process and its children try, when there are children.\<close>

primrec execs :: "sproc \<Rightarrow> (uchar list \<times> uchar list list \<times> fdtab) list" where
  "execs S_exit = []"
| "execs S_crash = []"
| "execs (S_err m p) = execs p"
| "execs (S_execv T path argv p) = (path, argv, T) # execs p"
| "execs (S_fork child parent alone) = execs child @ execs parent"
| "execs (S_wait p) = execs p"

definition std_fds :: "uobj \<Rightarrow> uobj \<Rightarrow> uobj \<Rightarrow> fdtab" where
  "std_fds i out err = [0 \<mapsto> i, 1 \<mapsto> out, 2 \<mapsto> err]"

definition tries :: "uchar list list \<Rightarrow> uobj \<Rightarrow> uchar list list \<times> uobj \<times> uobj \<Rightarrow> (uchar list \<times> uchar list list \<times> fdtab) list" where
  "tries paths err w = (case w of (argv, i, out) \<Rightarrow> map (\<lambda>p. (p @ hd argv, argv, std_fds i out err)) paths)"

definition short_paths :: "uchar list list \<Rightarrow> uchar list cmd \<Rightarrow> bool" where
  "short_paths paths c \<longleftrightarrow> (\<forall>p \<in> set paths. \<forall>w \<in> set_cmd c. length p + length w < MAX_CMD_PATH_LEN)"

lemma std_fds_lowest:
  "fd_lowest (std_fds i out err) = Some 3" "fd_lowest ((std_fds i out err)(3 \<mapsto> x)) = Some 4"
  "fd_lowest (fd_close 0 (std_fds i out err)) = Some 0" "fd_lowest (fd_close (Suc 0) (std_fds i out err)) = Some (Suc 0)"
  by (simp_all add: fd_lowest_def std_fds_def fd_close_def upt_rec)

lemma std_fds_open:
  "fd_open x (fd_close 0 (std_fds i out err)) = Some (std_fds x out err)"
  "fd_open x (fd_close (Suc 0) (std_fds i out err)) = Some (std_fds i x err)"
  by (auto simp: fd_open_def std_fds_lowest) (auto simp: std_fds_def fd_close_def fun_eq_iff)

lemma std_fds_pipe:
  "fd_pipe me (std_fds i out err) = Some (3, 4, (std_fds i out err)(3 \<mapsto> Pipe_in me, 4 \<mapsto> Pipe_out me))"
  by (simp add: fd_pipe_def std_fds_lowest)

lemma pipe_ends:
  fixes me :: pid and i out err :: uobj
  defines "T \<equiv> (std_fds i out err)(3 \<mapsto> Pipe_in me, 4 \<mapsto> Pipe_out me)"
  shows "fd_close 4 (fd_close 3 (fd_dup 4 (fd_close (Suc 0) T))) = std_fds i (Pipe_out me) err"
    and "fd_close 4 (fd_close 3 (fd_dup 3 (fd_close 0 T))) = std_fds (Pipe_in me) out err"
proof -
  have "fd_lowest (fd_close (Suc 0) T) = Some (Suc 0)" "fd_lowest (fd_close 0 T) = Some 0"
    by (simp_all add: T_def fd_lowest_def std_fds_def fd_close_def upt_rec)
  then show "fd_close 4 (fd_close 3 (fd_dup 4 (fd_close (Suc 0) T))) = std_fds i (Pipe_out me) err"
    "fd_close 4 (fd_close 3 (fd_dup 3 (fd_close 0 T))) = std_fds (Pipe_in me) out err"
    by (auto simp: fd_dup_def fd_open_def T_def std_fds_def fd_close_def fun_eq_iff)
qed

lemma execs_exec_paths:
  "\<forall>p \<in> set paths. length p + length (hd argv) < MAX_CMD_PATH_LEN \<Longrightarrow>
   execs (exec_paths (std_fds i out err) argv paths) = tries paths err (argv, i, out)"
  by (induction paths) (simp_all add: tries_def)

lemma runcmd_wiring:
  "redirs_ok c \<Longrightarrow> short_paths paths c \<Longrightarrow>
   execs (runcmd paths ok c me k (std_fds i out err)) = concat (map (tries paths err) (wiring ok c me k i out))"
proof (induction c arbitrary: me k i out)
  case (EXEC argv)
  then show ?case by (cases argv) (simp_all add: execs_exec_paths short_paths_def)
next
  case (REDIR c f mode fd)
  then show ?case by (auto simp: short_paths_def std_fds_open)
qed (simp_all add: short_paths_def fork1_def std_fds_pipe pipe_ends)

text \<open>C28. The shell wires up what the command says. For the line that a command tree is written as, started with
  the standard descriptors, the programs executed are those of the tree, each tried along the search path,
  and each with exactly three descriptors: its input and output are the files of its redirections, the ends of
  the pipes of its pipelines, or those of the shell. No other end of a pipe stays open in any of them.\<close>

theorem shell_wiring:
  assumes "printable c" and "short_paths paths c"
  shows "execs (sh_child paths ok (print_line c) me (std_fds i out err)) =
    concat (map (tries paths err) (wiring ok c me 0 i out))"
proof -
  obtain t a n where "parsecmd (print_line c) = Parsed (t, a) n" "map_cmd (\<lambda>w. string_at a (fst w)) t = c"
    using parsecmd_reads [OF assms(1)] by blast
  then show ?thesis
    using runcmd_wiring [OF _ assms(2)] assms(1) by (simp add: sh_child_def printable_def)
qed

theorem shell_wiring_witness:
  "execs (sh_child [ustr ''/bin/''] (\<lambda>_ _. True) (ustr '' a<in| b'') [0] (std_fds Tty Tty Tty)) =
     [(ustr ''/bin/a'', [ustr ''a''], std_fds (Opened (ustr ''in'') 0) (Pipe_out [0]) Tty),
      (ustr ''/bin/b'', [ustr ''b''], std_fds (Pipe_in [0]) Tty Tty)]"
proof -
  let ?c = "PIPE (REDIR (EXEC [ustr ''a'']) (ustr ''in'') U_RDONLY 0) (EXEC [ustr ''b''])"
  have p: "printable ?c" by (simp add: printable_def good_word_def special_def whitespace_def symbols_def MAXARGS_def)
  have s: "short_paths [ustr ''/bin/''] ?c" by (simp add: short_paths_def MAX_CMD_PATH_LEN_def)
  show ?thesis
    using shell_wiring [OF p s, of "\<lambda>_ _. True" "[0]" Tty Tty Tty]
    by (simp add: print_words_def redir_op_def tries_def U_RDONLY_def)
qed

section \<open>The search path\<close>

fun join_colon :: "uchar list list \<Rightarrow> uchar list" where
  "join_colon [] = []"
| "join_colon [d] = d"
| "join_colon (d # ds) = d @ 0x3A # join_colon ds"

text \<open>Directories without separators and white space.\<close>

definition plain_dir :: "uchar list \<Rightarrow> bool" where
  "plain_dir d \<longleftrightarrow> (\<forall>c \<in> set d. c \<noteq> 0 \<and> c \<noteq> 0x3A \<and> \<not> isspace c)"

lemma u_strchr_skip: "c \<notin> set w \<Longrightarrow> u_strchr (w @ c # r) c = Some (c # r)"
  by (induction w) auto

lemma u_strchr_None: "c \<notin> set w \<Longrightarrow> u_strchr w c = None"
  by (induction w) auto

lemma readln_line:
  assumes "0x0A \<notin> set w" and "0x0D \<notin> set w" and "length w < k"
  shows "readln_loop k (In_pieces [w @ [0x0A]]) = (w @ [0x0A], In_pieces [])"
  using assms
proof (induction w arbitrary: k)
  case Nil
  then show ?case by (cases k) simp_all
next
  case (Cons c w)
  then show ?case by (cases k) (simp_all add: Let_def)
qed

lemma u_strncpy_take: "n \<le> length t \<Longrightarrow> u_strncpy n t = take n t"
  by (induction n arbitrary: t) (auto simp: Suc_le_length_iff)

lemma getPaths_join:
  assumes "ds \<noteq> []" and "\<forall>d \<in> set ds. plain_dir d" and "length (join_colon ds) < MAX_VAR_VAL"
  shows "getPaths (\<lambda>_. True) k (join_colon ds) = Some ds"
  using assms
proof (induction ds arbitrary: k rule: join_colon.induct)
  case (2 d)
  then have "u_strchr d 0x3A = None" by (intro u_strchr_None) (auto simp: plain_dir_def)
  with 2 show ?case by (subst getPaths.simps) simp
next
  case (3 d d' ds)
  then have "u_strchr (d @ 0x3A # join_colon (d' # ds)) 0x3A = Some (0x3A # join_colon (d' # ds))"
    by (intro u_strchr_skip) (auto simp: plain_dir_def)
  with 3 show ?case by (subst getPaths.simps) (simp add: Let_def)
qed simp

lemma join_colon_chars: "c \<in> set (join_colon ds) \<Longrightarrow> c = 0x3A \<or> (\<exists>d \<in> set ds. c \<in> set d)"
  by (induction ds rule: join_colon.induct) auto

lemma trim_spaces:
  assumes "s \<noteq> []" and "\<forall>c \<in> set s. \<not> isspace c" and "\<forall>c \<in> set u. isspace c"
  shows "trim (s @ u) = Some s"
proof -
  have keep: "dropWhile isspace xs = xs" if "\<forall>c \<in> set xs. \<not> isspace c" for xs using that by (cases xs) simp_all
  have "dropWhile isspace (s @ u) = s @ u" using assms(1,2) by (cases s) simp_all
  moreover have "dropWhile isspace (rev u @ rev s) = rev s" using assms keep [of "rev s"] by (subst dropWhile_append2) simp_all
  moreover have "\<not> list_all isspace (s @ u)" using assms(1,2) by (cases s) simp_all
  ultimately show ?thesis by (simp add: trim_def)
qed

lemma readln_eof: "readln_loop k (In_pieces []) = ([], In_pieces [])"
  by (cases k) simp_all

lemma comp_eq_refl [simp]: "comp_eq s s"
  by (induction s) (simp_all add: comp_eq_def)

lemma parseEnvFile_one:
  assumes n: "n \<noteq> []" "\<forall>c \<in> set n. c \<noteq> 0 \<and> c \<noteq> 0x3D \<and> \<not> isspace c" "length n < MAX_VAR_NAME"
    and v: "v \<noteq> []" "\<forall>c \<in> set v. c \<noteq> 0 \<and> \<not> isspace c" and l: "length n + length v \<le> 1021"
  shows "parseEnvFile (\<lambda>_. []) 0 (In_pieces [n @ 0x3D # v @ [0x0A]]) [] = Some [\<lparr>v_name = n, v_values = V_cons v V_unset\<rparr>]"
proof -
  let ?w = "n @ 0x3D # v"
  have sp: "isspace 0x0A" "isspace 0x0D" by (simp_all add: isspace_def)
  have nl: "0x0A \<notin> set ?w" "0x0D \<notin> set ?w" "0 \<notin> set ?w" using n(2) v(2) sp by auto
  have "readln_loop (nat (MAX_VAR_LINE - 1)) (In_pieces [?w @ [0x0A]]) = (?w @ [0x0A], In_pieces [])"
    by (rule readln_line [OF nl(1,2)]) (use l in \<open>simp add: MAX_VAR_LINE_def\<close>)
  then have r: "readln MAX_VAR_LINE (In_pieces [n @ 0x3D # v @ [0x0A]]) = (n @ 0x3D # v @ [0x0A], In_pieces [])" by (simp add: readln_def)
  have z: "takeWhile (\<lambda>c. c \<noteq> 0) (n @ 0x3D # v @ [0x0A]) = n @ 0x3D # v @ [0x0A]"
    by (subst takeWhile_eq_all_conv [THEN iffD2]) (use nl(3) in auto)
  have eq: "u_strchr (n @ 0x3D # v @ [0x0A]) 0x3D = Some (0x3D # v @ [0x0A])" by (rule u_strchr_skip) (use n(2) in auto)
  have tn: "trim n = Some n" using trim_spaces [of n "[]"] n by simp
  have tv: "trim (v @ [0x0A]) = Some v" by (rule trim_spaces) (use v in \<open>simp_all add: isspace_def\<close>)
  have "length v < MAX_VAR_VAL" using l by (simp add: MAX_VAR_VAL_def)
  moreover have "parseEnvFile (\<lambda>_. []) k (In_pieces []) h = Some h" for k h
    by (subst parseEnvFile.simps) (simp add: readln_def readln_eof)
  ultimately show ?thesis
    using n(3) by (subst parseEnvFile.simps) (simp add: r z eq tn tv u_strncpy_take Let_def)
qed



text \<open>The values of every variable end in a pointer that was never set, so that freeing the environment at the
  end of the shell follows it.\<close>

primrec ends_unset :: "varval \<Rightarrow> bool" where
  "ends_unset V_unset \<longleftrightarrow> True"
| "ends_unset V_nil \<longleftrightarrow> False"
| "ends_unset (V_cons s vs) \<longleftrightarrow> ends_unset vs"

lemma ends_unset_free: "ends_unset vs \<Longrightarrow> freeVarval vs = None"
  by (induction vs) simp_all

lemma add_unset:
  "addToEnvironment n env = Some env' \<Longrightarrow> \<forall>v \<in> set env. ends_unset (v_values v) \<Longrightarrow> \<forall>v \<in> set env'. ends_unset (v_values v)"
  "addValueToVariable n env s = Some env' \<Longrightarrow> \<forall>v \<in> set env. ends_unset (v_values v) \<Longrightarrow> \<forall>v \<in> set env'. ends_unset (v_values v)"
  by (induction env arbitrary: env') (auto split: if_splits)

lemma parseEnvFile_unset:
  "parseEnvFile junk k i env = Some env' \<Longrightarrow> \<forall>v \<in> set env. ends_unset (v_values v) \<Longrightarrow> \<forall>v \<in> set env'. ends_unset (v_values v)"
proof (induction junk k i env rule: parseEnvFile.induct)
  case (1 junk k i env)
  obtain s i' where r: "readln MAX_VAR_LINE i = (s, i')" by fastforce
  show ?case
  proof (cases "u_strchr (takeWhile (\<lambda>c. c \<noteq> 0) s) 0x3D")
    case (Some eq)
    show ?thesis using "1.prems" Some r "1.IH" [OF r [symmetric] refl Some refl]
      by (subst (asm) parseEnvFile.simps) (clarsimp simp: Let_def bind_eq_Some_conv, metis add_unset)
  qed (use "1.prems" r in \<open>subst (asm) parseEnvFile.simps, auto\<close>)
qed

lemma freeEnvironment_unset: "\<forall>v \<in> set env. ends_unset (v_values v) \<Longrightarrow> env \<noteq> [] \<Longrightarrow> freeEnvironment env = None"
  by (induction env) (auto simp: ends_unset_free bind_eq_None_conv)

end
